(* ===== verification/Prelude.thy ===== *)
theory Prelude
  imports Main "HOL-Library.Word"
begin

unbundle bit_operations_syntax

text \<open>
  Shared vocabulary of the development: the machine types of the 32-bit target the server is
  built for, results that can fail, byte buffers of a fixed capacity with checked block reads
  and writes, little-endian encodings of machine words, and the lemma collections the
  component theories extend (\<open>outcome_simps\<close> for failing computations, \<open>buffer_simps\<close> for
  byte buffers).
\<close>

named_theorems outcome_simps \<open>computations that can fail\<close>
named_theorems buffer_simps \<open>block reads and writes of byte buffers\<close>

section \<open>Machine types and failures\<close>

type_synonym u8 = "8 word"
type_synonym u16 = "16 word"
type_synonym u32 = "32 word"

text \<open>
  \<open>SysError\<close> is a call of \<^verbatim>\<open>Sys_Error\<close> (the process prints and exits). The other values are the
  undefined behaviours of C the model makes visible: an access outside an array, a
  dereference of a null or dangling pointer, arithmetic the language leaves undefined.
\<close>

datatype fault = SysError | OutOfBounds | BadPointer | Undefined

type_synonym 'a outcome = "fault + 'a"

definition bindE :: "'a outcome \<Rightarrow> ('a \<Rightarrow> 'b outcome) \<Rightarrow> 'b outcome" where
  "bindE m f = (case m of Inl e \<Rightarrow> Inl e | Inr x \<Rightarrow> f x)"

lemma bindE_simps [simp, outcome_simps]:
  "bindE (Inl e) f = Inl e"
  "bindE (Inr x) f = f x"
  by (simp_all add: bindE_def)

lemma bindE_eq_Inr [outcome_simps]:
  "bindE m f = Inr y \<longleftrightarrow> (\<exists>x. m = Inr x \<and> f x = Inr y)"
  by (cases m) auto

lemma bindE_eq_Inl [outcome_simps]:
  "bindE m f = Inl e \<longleftrightarrow> m = Inl e \<or> (\<exists>x. m = Inr x \<and> f x = Inl e)"
  by (cases m) auto

lemma bindE_assoc: "bindE (bindE m f) g = bindE m (\<lambda>x. bindE (f x) g)"
  by (cases m) auto

lemma bindE_cong [fundef_cong]:
  "m = m' \<Longrightarrow> (\<And>x. m' = Inr x \<Longrightarrow> f x = f' x) \<Longrightarrow> bindE m f = bindE m' f'"
  by (cases m') auto

text \<open>
  The same for code with a loop that may not end: \<open>None\<close> when it does not.
\<close>

type_synonym 'a run = "'a outcome option"

definition bindT :: "'a run \<Rightarrow> ('a \<Rightarrow> 'b run) \<Rightarrow> 'b run" where
  "bindT m f = Option.bind m (\<lambda>r. case r of Inl e \<Rightarrow> Some (Inl e) | Inr x \<Rightarrow> f x)"

lemma bindT_simps [simp, outcome_simps]:
  "bindT None f = None"
  "bindT (Some (Inl e)) f = Some (Inl e)"
  "bindT (Some (Inr x)) f = f x"
  by (simp_all add: bindT_def)

lemma bindT_eq_Some [outcome_simps]:
  "bindT m f = Some (Inr y) \<longleftrightarrow> (\<exists>x. m = Some (Inr x) \<and> f x = Some (Inr y))"
  by (cases m) (auto simp: bindT_def split: sum.splits)

lemma bindT_assoc: "bindT (bindT m f) g = bindT m (\<lambda>x. bindT (f x) g)"
  by (cases m) (auto simp: bindT_def split: sum.splits)

lemma bindT_mono [partial_function_mono]:
  "mono_option B \<Longrightarrow> (\<And>x. mono_option (C x)) \<Longrightarrow> mono_option (\<lambda>f. bindT (B f) (\<lambda>x. C x f))"
  unfolding bindT_def
proof (intro bind_mono)
  fix r :: "fault + 'c"
  show "(\<And>x. mono_option (C x)) \<Longrightarrow> mono_option (\<lambda>f. case r of Inl e \<Rightarrow> Some (Inl e) | Inr x \<Rightarrow> C x f)"
    by (cases r) (auto intro: option.const_mono)
qed

text \<open>\<open>foldE\<close> runs a loop body over a list, stopping at the first failure.\<close>

fun foldE :: "('s \<Rightarrow> 'a \<Rightarrow> 's outcome) \<Rightarrow> 's \<Rightarrow> 'a list \<Rightarrow> 's outcome" where
  "foldE f s [] = Inr s"
| "foldE f s (x # xs) = bindE (f s x) (\<lambda>s'. foldE f s' xs)"

lemma foldE_append: "foldE f s (xs @ ys) = bindE (foldE f s xs) (\<lambda>s'. foldE f s' ys)"
  by (induction xs arbitrary: s) (auto simp: bindE_assoc)

lemma foldE_invariant:
  "foldE f s xs = Inr s' \<Longrightarrow> I s \<Longrightarrow>
    (\<And>a x b. I a \<Longrightarrow> x \<in> set xs \<Longrightarrow> f a x = Inr b \<Longrightarrow> I b) \<Longrightarrow> I s'"
proof (induction xs arbitrary: s)
  case Nil
  then show ?case by simp
next
  case (Cons x xs)
  from Cons.prems(1) obtain m where m: "f s x = Inr m" "foldE f m xs = Inr s'"
    by (auto simp only: foldE.simps bindE_eq_Inr)
  have "I m"
    using Cons.prems(2,3) m(1) by (meson list.set_intros(1))
  then show ?case
    using Cons.IH [OF m(2)] Cons.prems(3) by (meson list.set_intros(2))
qed

section \<open>Byte buffers\<close>

text \<open>
  A buffer is the list of the bytes an array of C holds; its length is the array's capacity.
  \<open>peek\<close> is a read of \<open>n\<close> bytes, \<open>poke\<close> a \<^verbatim>\<open>memmove\<close> of a block into the buffer; both fail
  when they leave the array.
\<close>

definition peek :: "nat \<Rightarrow> nat \<Rightarrow> 'a list \<Rightarrow> 'a list outcome" where
  "peek off n buf = (if off + n \<le> length buf then Inr (take n (drop off buf)) else Inl OutOfBounds)"

definition poke :: "nat \<Rightarrow> 'a list \<Rightarrow> 'a list \<Rightarrow> 'a list outcome" where
  "poke off src buf =
     (if off + length src \<le> length buf
      then Inr (take off buf @ src @ drop (off + length src) buf) else Inl OutOfBounds)"

lemma peek_Inr [buffer_simps]:
  "peek off n buf = Inr bs \<longleftrightarrow> off + n \<le> length buf \<and> bs = take n (drop off buf)"
  by (auto simp: peek_def)

lemma poke_Inr [buffer_simps]:
  "poke off src buf = Inr buf' \<longleftrightarrow>
     off + length src \<le> length buf \<and> buf' = take off buf @ src @ drop (off + length src) buf"
  by (auto simp: poke_def)

lemma length_poke: "poke off src buf = Inr buf' \<Longrightarrow> length buf' = length buf"
  by (auto simp: poke_Inr)

lemma poke_take_before: "poke off src buf = Inr buf' \<Longrightarrow> n \<le> off \<Longrightarrow> take n buf' = take n buf"
  by (auto simp: poke_Inr min_def)

lemma poke_take_through:
  "poke off src buf = Inr buf' \<Longrightarrow> take (off + length src) buf' = take off buf @ src"
  by (auto simp: poke_Inr)

lemma poke_drop_after:
  "poke off src buf = Inr buf' \<Longrightarrow> off + length src \<le> n \<Longrightarrow> drop n buf' = drop n buf"
  by (auto simp: poke_Inr)

lemma poke_total: "off + length src \<le> length buf \<Longrightarrow> \<exists>buf'. poke off src buf = Inr buf'"
  by (simp add: poke_def)

lemma peek_poke: "poke off src buf = Inr buf' \<Longrightarrow> peek off (length src) buf' = Inr src"
  by (auto simp: poke_Inr peek_def)

lemma peek_length: "peek off n buf = Inr bs \<Longrightarrow> length bs = n"
  by (auto simp: peek_Inr)

section \<open>32-bit numbers as naturals\<close>

lemma unat_u32_lt: "unat (w :: u32) < 2 ^ 32"
  using unsigned_less [of w, where ?'a = nat] by simp

lemma unat_of_nat_u32: "n < 2 ^ 32 \<Longrightarrow> unat (of_nat n :: u32) = n"
  by (simp add: unat_of_nat)

lemma unat_of_nat_le: "n \<le> unat (m :: u32) \<Longrightarrow> unat (of_nat n :: u32) = n"
  using unat_u32_lt [of m] by (simp add: unat_of_nat)

lemma unat_u32_add: "unat (a :: u32) + unat b < 2 ^ 32 \<Longrightarrow> unat (a + b) = unat a + unat b"
  by (simp add: unat_word_ariths)

lemma unat_add_below:
  "unat (c :: u32) + n \<le> unat (m :: u32) \<Longrightarrow> unat (c + of_nat n) = unat c + n"
  using unat_u32_lt [of m] by (simp add: unat_word_ariths unat_of_nat)

lemma sint_u32: "sint (w :: u32) = (if unat w < 2 ^ 31 then int (unat w) else int (unat w) - 2 ^ 32)"
proof -
  have *: "take_bit 32 (int n + 2 ^ 31) - 2 ^ 31 = (if n < 2 ^ 31 then int n else int n - 2 ^ 32)"
    if "n < 2 ^ 32" for n
  proof (cases "n < 2 ^ 31")
    case True
    then show ?thesis by (simp add: take_bit_int_eq_self)
  next
    case False
    then have "int n + 2 ^ 31 = 2 ^ 32 + (int n - 2 ^ 31)" and "0 \<le> int n - 2 ^ 31" "int n - 2 ^ 31 < 2 ^ 32"
      using that by simp_all
    then have "take_bit 32 (int n + 2 ^ 31) = int n - 2 ^ 31"
      unfolding take_bit_eq_mod by (simp only: mod_add_self1 mod_pos_pos_trivial)
    then show ?thesis using False by simp
  qed
  have "sint w = take_bit 32 (int (unat w) + 2 ^ 31) - 2 ^ 31"
    by (simp add: sint_uint signed_take_bit_eq_take_bit_shift)
  then show ?thesis
    unfolding * [OF unat_u32_lt] .
qed

lemma sint_u32_pos: "0 \<le> sint (w :: u32) \<longleftrightarrow> unat w < 2 ^ 31"
  using unsigned_less [of w, where ?'a = int] unfolding sint_u32 by (cases "unat w < 2 ^ 31") simp_all

lemma sint_u32_between: "0 \<le> sint (w :: u32) \<Longrightarrow> sint w = int (unat w)"
  using sint_u32_pos [of w] by (simp only: sint_u32 if_True)

lemma sint_u32_small: "unat (w :: u32) < 2 ^ 31 \<Longrightarrow> sint w = int (unat w)"
  by (simp only: sint_u32 if_True)

lemma unat_and_7: "unat ((w :: u32) AND 7) = unat w mod 8"
proof -
  have "w AND 7 = take_bit 3 w"
    by (simp add: take_bit_eq_mask mask_eq_exp_minus_1)
  then show ?thesis
    by (simp add: take_bit_eq_mod unat_mod)
qed

lemma unat_drop_3: "unat (drop_bit 3 (w :: u32)) = unat w div 8"
  by (simp add: drop_bit_eq_div unat_div)

section \<open>Little-endian encodings\<close>

definition bytes16 :: "u16 \<Rightarrow> u8 list" where
  "bytes16 w = [ucast w, ucast (drop_bit 8 w)]"

definition bytes32 :: "u32 \<Rightarrow> u8 list" where
  "bytes32 w = [ucast w, ucast (drop_bit 8 w), ucast (drop_bit 16 w), ucast (drop_bit 24 w)]"

fun word16_of :: "u8 list \<Rightarrow> u16" where
  "word16_of [b0, b1] = ucast b0 OR push_bit 8 (ucast b1)"
| "word16_of _ = 0"

fun word32_of :: "u8 list \<Rightarrow> u32" where
  "word32_of [b0, b1, b2, b3] =
     ucast b0 OR push_bit 8 (ucast b1) OR push_bit 16 (ucast b2) OR push_bit 24 (ucast b3)"
| "word32_of _ = 0"

lemma bit_u8_beyond: "8 \<le> m \<Longrightarrow> \<not> bit (a :: u8) m"
  using bit_imp_le_length [of a m] by auto

lemma bit_u8_small: "bit (a :: u8) m \<Longrightarrow> m < 8"
  using bit_imp_le_length [of a m] by simp

lemma length_bytes [simp]: "length (bytes16 w) = 2" "length (bytes32 v) = 4"
  by (simp_all add: bytes16_def bytes32_def)

lemma word16_of_bytes16 [simp]: "word16_of (bytes16 w) = w"
  unfolding bytes16_def word16_of.simps
  by (rule bit_word_eqI) (auto simp: bit_simps)

lemma word32_of_bytes32 [simp]: "word32_of (bytes32 w) = w"
  unfolding bytes32_def word32_of.simps
proof (rule bit_word_eqI)
  fix n
  show "bit (ucast (ucast w :: u8) OR push_bit 8 (ucast (ucast (drop_bit 8 w) :: u8))
      OR push_bit 16 (ucast (ucast (drop_bit 16 w) :: u8))
      OR push_bit 24 (ucast (ucast (drop_bit 24 w) :: u8)) :: u32) n = bit w n" if "n < LENGTH(32)"
    using that by (cases "8 \<le> n"; cases "16 \<le> n"; cases "24 \<le> n") (auto simp: bit_simps)
qed

lemma bytes32_word32_of [simp]: "length bs = 4 \<Longrightarrow> bytes32 (word32_of bs) = bs"
proof -
  assume "length bs = 4"
  then obtain a b c d where "bs = [a, b, c, d]"
    by (auto simp: numeral_eq_Suc length_Suc_conv)
  then show ?thesis
    unfolding bytes32_def
    by (auto intro!: bit_word_eqI simp: bit_simps bit_u8_beyond)
qed

lemma bytes32_inject [simp]: "bytes32 v = bytes32 w \<longleftrightarrow> v = w"
  by (metis word32_of_bytes32)

definition load32 :: "nat \<Rightarrow> u8 list \<Rightarrow> u32 outcome" where
  "load32 off buf = bindE (peek off 4 buf) (\<lambda>bs. Inr (word32_of bs))"

definition store32 :: "nat \<Rightarrow> u32 \<Rightarrow> u8 list \<Rightarrow> u8 list outcome" where
  "store32 off w buf = poke off (bytes32 w) buf"

lemma load32_total: "off + 4 \<le> length d \<Longrightarrow> \<exists>w. load32 off d = Inr w"
  by (simp add: load32_def peek_def)

lemma load32_store32: "store32 off w buf = Inr buf' \<Longrightarrow> load32 off buf' = Inr w"
  using peek_poke [of off "bytes32 w" buf buf'] by (simp add: store32_def load32_def)

section \<open>C strings\<close>

text \<open>
  A NUL-terminated string is the list of its characters before the terminator, as bytes.
  \<open>cchar\<close> is the byte of a character constant.
\<close>

definition cchar :: "char \<Rightarrow> u8" where
  "cchar c = of_nat (of_char c)"

definition cstr :: "string \<Rightarrow> u8 list" where
  "cstr s = map cchar s"

lemma unat_ucast_u8 [simp]: "unat (ucast (c :: u8) :: u32) = unat c"
proof -
  have "unat c < 2 ^ 8"
    using unsigned_less [of c, where ?'a = nat] by simp
  then show ?thesis
    by (simp add: unsigned_ucast_eq take_bit_nat_eq_self)
qed

text \<open>The classes of \<^verbatim>\<open>ctype.h\<close> in the C locale, on the value of a character.\<close>

definition isgraph_c :: "u8 \<Rightarrow> bool" where
  "isgraph_c c \<longleftrightarrow> 33 \<le> c \<and> c \<le> 126"

definition isprint_c :: "u8 \<Rightarrow> bool" where
  "isprint_c c \<longleftrightarrow> 32 \<le> c \<and> c \<le> 126"

definition isdigit_c :: "u8 \<Rightarrow> bool" where
  "isdigit_c c \<longleftrightarrow> 48 \<le> c \<and> c \<le> 57"

definition tolower_c :: "u8 \<Rightarrow> u8" where
  "tolower_c c = (if 65 \<le> c \<and> c \<le> 90 then c + 32 else c)"

lemma isgraph_isprint: "isgraph_c c \<Longrightarrow> isprint_c c"
  unfolding isgraph_c_def isprint_c_def by (auto elim: order_trans [rotated])

lemma isgraph_nonzero: "isgraph_c c \<Longrightarrow> c \<noteq> 0"
  by (auto simp: isgraph_c_def)

text \<open>A word of a command line, the empty string beyond the last one.\<close>

definition nth_word :: "u8 list list \<Rightarrow> nat \<Rightarrow> u8 list" where
  "nth_word ws i = (if i < length ws then ws ! i else [])"

end
