(* ===== verification/Sizebuf.thy ===== *)
theory Sizebuf
  imports Prelude
begin

text \<open>
  \<^verbatim>\<open>sizebuf.c\<close>: the growable message buffer \<^verbatim>\<open>sizebuf_t\<close> every packet is written through. The
  array \<^verbatim>\<open>data\<close> is a byte list whose length is the allocated capacity, \<^verbatim>\<open>maxsize\<close> and
  \<^verbatim>\<open>cursize\<close> are 32-bit unsigned numbers that wrap, bit 0 of \<^verbatim>\<open>overflow\<close> permits an overflow
  and bit 1 records one. The locale \<open>appender\<close> is the contract the message writers, the command
  buffer and the fragment code rely on; \<open>sz_put\<close> provides it.
\<close>

record sizebuf =
  sb_overflow :: u32
  sb_data :: "u8 list"
  sb_maxsize :: u32
  sb_cursize :: u32

definition SZ_Clear :: "sizebuf \<Rightarrow> sizebuf" where
  "SZ_Clear buf = buf\<lparr>sb_cursize := 0, sb_overflow := 0\<rparr>"

text \<open>
  The result is the buffer and the offset in \<^verbatim>\<open>data\<close> the returned pointer denotes. The sum and
  the comparison are the 32-bit unsigned ones of the source.
\<close>

definition SZ_GetSpace :: "sizebuf \<Rightarrow> u32 \<Rightarrow> (sizebuf \<times> nat) outcome" where
  "SZ_GetSpace buf len =
     bindE
       (if sb_cursize buf + len > sb_maxsize buf then
          (if sb_overflow buf AND 1 = 0 \<and> len > sb_maxsize buf then Inl SysError
           else Inr ((SZ_Clear buf)\<lparr>sb_overflow := sb_overflow (SZ_Clear buf) OR 2\<rparr>))
        else Inr buf)
       (\<lambda>b. Inr (b\<lparr>sb_cursize := sb_cursize b + len\<rparr>, unat (sb_cursize b)))"

text \<open>Reserve room for a block and store it there: the shape shared by all the writers.\<close>

definition sz_put :: "sizebuf \<Rightarrow> u8 list \<Rightarrow> sizebuf outcome" where
  "sz_put buf bs =
     bindE (SZ_GetSpace buf (of_nat (length bs))) (\<lambda>(b, off).
     bindE (poke off bs (sb_data b)) (\<lambda>d. Inr (b\<lparr>sb_data := d\<rparr>)))"

text \<open>\<open>src\<close> holds the readable bytes at the source pointer; \<^verbatim>\<open>length\<close> may exceed them.\<close>

definition SZ_Write :: "sizebuf \<Rightarrow> u8 list \<Rightarrow> u32 \<Rightarrow> sizebuf outcome" where
  "SZ_Write buf src len =
     bindE (SZ_GetSpace buf len) (\<lambda>(b, off).
     bindE (peek 0 (unat len) src) (\<lambda>bs.
     bindE (poke off bs (sb_data b)) (\<lambda>d. Inr (b\<lparr>sb_data := d\<rparr>))))"

definition SZ_Print :: "sizebuf \<Rightarrow> u8 list \<Rightarrow> sizebuf outcome" where
  "SZ_Print buf str =
     (let len = of_nat (length str) + 1 in
      bindE (if sb_cursize buf = 0 then Inr True
             else bindE (peek (unat (sb_cursize buf - 1)) 1 (sb_data buf)) (\<lambda>bs. Inr (bs \<noteq> [0])))
        (\<lambda>fresh.
         if fresh then
           bindE (SZ_GetSpace buf len) (\<lambda>(b, off).
           bindE (poke off (str @ [0]) (sb_data b)) (\<lambda>d. Inr (b\<lparr>sb_data := d\<rparr>)))
         else
           bindE (SZ_GetSpace buf (len - 1)) (\<lambda>(b, off).
           bindE (poke ((if off = 0 then 1 else off) - 1) (str @ [0]) (sb_data b))
             (\<lambda>d. Inr (b\<lparr>sb_data := d\<rparr>)))))"

text \<open>The hunk returns zeroed memory of the requested size.\<close>

definition SZ_Alloc :: "int \<Rightarrow> sizebuf" where
  "SZ_Alloc startsize =
     (let n = (if startsize < 256 then 256 else startsize) in
      \<lparr>sb_overflow = 0, sb_data = replicate (nat n) 0, sb_maxsize = of_int n, sb_cursize = 0\<rparr>)"

section \<open>Contents and well-formedness\<close>

definition sz_contents :: "sizebuf \<Rightarrow> u8 list" where
  "sz_contents buf = take (unat (sb_cursize buf)) (sb_data buf)"

definition sz_wf :: "sizebuf \<Rightarrow> bool" where
  "sz_wf buf \<longleftrightarrow> sb_cursize buf \<le> sb_maxsize buf \<and> unat (sb_maxsize buf) \<le> length (sb_data buf)"

definition sz_room :: "sizebuf \<Rightarrow> nat" where
  "sz_room buf = unat (sb_maxsize buf) - unat (sb_cursize buf)"

lemma sz_wf_nat:
  "sz_wf buf \<longleftrightarrow> unat (sb_cursize buf) \<le> unat (sb_maxsize buf) \<and> unat (sb_maxsize buf) \<le> length (sb_data buf)"
  by (simp add: sz_wf_def word_le_nat_alt)

lemma length_sz_contents: "sz_wf buf \<Longrightarrow> length (sz_contents buf) = unat (sb_cursize buf)"
  by (simp add: sz_contents_def sz_wf_nat)

lemma sz_room_le: "sz_wf buf \<Longrightarrow> n \<le> sz_room buf \<longleftrightarrow> unat (sb_cursize buf) + n \<le> unat (sb_maxsize buf)"
  unfolding sz_wf_nat sz_room_def by arith

lemma sz_room_less: "sz_wf buf \<Longrightarrow> sz_room buf < n \<longleftrightarrow> unat (sb_maxsize buf) < unat (sb_cursize buf) + n"
  unfolding sz_wf_nat sz_room_def by arith

text \<open>The three outcomes of a reservation: it fits, it wipes the buffer, it ends the process.\<close>

lemma SZ_GetSpace_fits:
  assumes "sz_wf buf" and "n \<le> sz_room buf"
  shows "SZ_GetSpace buf (of_nat n) =
    Inr (buf\<lparr>sb_cursize := sb_cursize buf + of_nat n\<rparr>, unat (sb_cursize buf))"
proof -
  have "unat (sb_cursize buf) + n \<le> unat (sb_maxsize buf)"
    using assms by (simp add: sz_room_le)
  from unat_add_below [OF this] this show ?thesis
    by (simp add: SZ_GetSpace_def word_less_nat_alt)
qed

lemma SZ_GetSpace_wipes:
  assumes "sz_wf buf" and "sz_room buf < n" and "n \<le> unat (sb_maxsize buf)"
    and "unat (sb_cursize buf) + n < 2 ^ 32"
  shows "SZ_GetSpace buf (of_nat n) = Inr (buf\<lparr>sb_cursize := of_nat n, sb_overflow := 2\<rparr>, 0)"
proof -
  have n: "unat (of_nat n :: u32) = n"
    using unat_of_nat_le [OF assms(3)] .
  have "unat (sb_cursize buf + of_nat n) = unat (sb_cursize buf) + n"
    using assms(4) n by (simp add: unat_u32_add)
  then show ?thesis
    using assms(3) n sz_room_less [OF assms(1)] assms(2)
    by (simp add: SZ_GetSpace_def SZ_Clear_def word_less_nat_alt)
qed

lemma SZ_GetSpace_too_big:
  assumes "unat (sb_maxsize buf) < n" and "unat (sb_cursize buf) + n < 2 ^ 32"
    and "sb_overflow buf AND 1 = 0"
  shows "SZ_GetSpace buf (of_nat n) = Inl SysError"
proof -
  have n: "unat (of_nat n :: u32) = n"
    using assms(2) by (simp add: unat_of_nat_u32)
  have "unat (sb_cursize buf + of_nat n) = unat (sb_cursize buf) + n"
    using assms(2) n by (simp add: unat_u32_add)
  then show ?thesis
    using assms n by (simp add: SZ_GetSpace_def word_less_nat_alt)
qed

section \<open>Storing a block\<close>

lemma sz_put_append:
  assumes "sz_wf buf" and "length bs \<le> sz_room buf"
  shows "\<exists>buf'. sz_put buf bs = Inr buf' \<and> sz_wf buf' \<and> sz_contents buf' = sz_contents buf @ bs
    \<and> sz_room buf' = sz_room buf - length bs \<and> sb_overflow buf' = sb_overflow buf
    \<and> sb_maxsize buf' = sb_maxsize buf \<and> length (sb_data buf') = length (sb_data buf)"
proof -
  let ?c = "sb_cursize buf + of_nat (length bs)"
  have le: "unat (sb_cursize buf) + length bs \<le> unat (sb_maxsize buf)"
    using assms by (simp add: sz_room_le)
  have c: "unat ?c = unat (sb_cursize buf) + length bs"
    by (rule unat_add_below [OF le])
  obtain d where d: "poke (unat (sb_cursize buf)) bs (sb_data buf) = Inr d"
    using le assms(1) by (auto simp: poke_def sz_wf_nat)
  have "sz_put buf bs = Inr (buf\<lparr>sb_data := d, sb_cursize := ?c\<rparr>)"
    by (simp add: sz_put_def SZ_GetSpace_fits [OF assms] d)
  moreover have "sz_wf (buf\<lparr>sb_data := d, sb_cursize := ?c\<rparr>)"
    using assms(1) le c length_poke [OF d] by (simp add: sz_wf_nat)
  moreover have "sz_contents (buf\<lparr>sb_data := d, sb_cursize := ?c\<rparr>) = sz_contents buf @ bs"
    using c poke_take_through [OF d] by (simp add: sz_contents_def)
  moreover have "sz_room (buf\<lparr>sb_data := d, sb_cursize := ?c\<rparr>) = sz_room buf - length bs"
    using c by (simp add: sz_room_def)
  ultimately show ?thesis
    using length_poke [OF d] by (intro exI [of _ "buf\<lparr>sb_data := d, sb_cursize := ?c\<rparr>"]) simp
qed

text \<open>
  The contract of an append-only store with a known amount of free room: as long as the room
  suffices, appending succeeds, keeps what was stored, and consumes exactly the block's length.
\<close>

locale appender =
  fixes append :: "'s \<Rightarrow> 'a list \<Rightarrow> 's outcome"
    and contents :: "'s \<Rightarrow> 'a list"
    and room :: "'s \<Rightarrow> nat"
    and valid :: "'s \<Rightarrow> bool"
  assumes append_ok: "valid s \<Longrightarrow> length xs \<le> room s \<Longrightarrow>
    \<exists>s'. append s xs = Inr s' \<and> valid s' \<and> contents s' = contents s @ xs \<and> room s' = room s - length xs"
begin

lemma append_cases:
  assumes "valid s" and "length xs \<le> room s"
  obtains s' where "append s xs = Inr s'" "valid s'" "contents s' = contents s @ xs"
    "room s' = room s - length xs"
  using append_ok [OF assms] by blast

lemma append_all:
  "valid s \<Longrightarrow> length (concat xss) \<le> room s \<Longrightarrow>
    \<exists>s'. foldE append s xss = Inr s' \<and> valid s' \<and> contents s' = contents s @ concat xss
      \<and> room s' = room s - length (concat xss)"
proof (induction xss arbitrary: s)
  case Nil
  then show ?case by simp
next
  case (Cons xs xss)
  then obtain s' where s': "append s xs = Inr s'" "valid s'" "contents s' = contents s @ xs"
    "room s' = room s - length xs"
    using append_cases [of s xs] by auto
  have "length (concat xss) \<le> room s'"
    using Cons.prems s'(4) by simp
  from Cons.IH [OF s'(2) this] show ?case
    using s' by (auto simp: outcome_simps)
qed

lemma append_split:
  assumes "valid s" and "length xs + length ys \<le> room s"
  shows "\<exists>s'. bindE (append s xs) (\<lambda>s1. append s1 ys) = Inr s' \<and> contents s' = contents s @ xs @ ys"
  using append_all [of s "[xs, ys]"] assms by (auto simp: outcome_simps)

end

interpretation sz: appender sz_put sz_contents sz_room sz_wf
proof
  fix s :: sizebuf and xs :: "u8 list"
  assume "sz_wf s" and "length xs \<le> sz_room s"
  then show "\<exists>s'. sz_put s xs = Inr s' \<and> sz_wf s' \<and> sz_contents s' = sz_contents s @ xs \<and>
      sz_room s' = sz_room s - length xs"
    using sz_put_append by blast
qed

lemma sz_put_maxsize: "sz_put buf bs = Inr buf' \<Longrightarrow> sb_maxsize buf' = sb_maxsize buf"
  by (auto simp: sz_put_def SZ_GetSpace_def SZ_Clear_def outcome_simps split: if_splits)

lemma SZ_Write_sz_put:
  assumes "n = length src" and "n < 2 ^ 32"
  shows "SZ_Write buf src (of_nat n) = sz_put buf src"
  using assms by (simp add: SZ_Write_def sz_put_def peek_def unat_of_nat_u32 split_def)

section \<open>The contract of a write\<close>

text \<open>
  The abstract buffer: what has been written, how much it may hold, whether an overflow is
  permitted and whether one happened. A write that does not fit starts the buffer over and
  withdraws the permission.
\<close>

record absbuf =
  ab_bytes :: "u8 list"
  ab_cap :: nat
  ab_allow :: bool
  ab_overflowed :: bool

definition sz_abs :: "sizebuf \<Rightarrow> absbuf" where
  "sz_abs buf = \<lparr>ab_bytes = sz_contents buf, ab_cap = unat (sb_maxsize buf),
     ab_allow = bit (sb_overflow buf) 0, ab_overflowed = bit (sb_overflow buf) 1\<rparr>"

definition abs_write :: "absbuf \<Rightarrow> u8 list \<Rightarrow> absbuf outcome" where
  "abs_write b bs =
     (if length (ab_bytes b) + length bs \<le> ab_cap b then Inr (b\<lparr>ab_bytes := ab_bytes b @ bs\<rparr>)
      else if length bs \<le> ab_cap b then Inr (b\<lparr>ab_bytes := bs, ab_allow := False, ab_overflowed := True\<rparr>)
      else if ab_allow b then Inl OutOfBounds else Inl SysError)"

lemma and_1_bit0: "(w :: u32) AND 1 = 0 \<longleftrightarrow> \<not> bit w 0"
  by (simp add: and_one_eq bit_0 even_iff_mod_2_eq_zero)

lemma bits_of_2 [simp]: "\<not> bit (2 :: u32) 0" "bit (2 :: u32) 1"
  by (simp_all add: bit_0 bit_numeral_rec)

lemma SZ_Write_refines_aux:
  assumes "sz_wf buf" and "unat (sb_maxsize buf) = length (sb_data buf)"
    and "unat (sb_cursize buf) + n < 2 ^ 32" and "n \<le> length src"
  shows "bindE (SZ_Write buf src (of_nat n)) (\<lambda>b. Inr (sz_abs b)) = abs_write (sz_abs buf) (take n src)"
proof -
  let ?bs = "take n src"
  have n: "unat (of_nat n :: u32) = n"
    using assms(3) by (simp add: unat_of_nat_u32)
  have put: "SZ_Write buf src (of_nat n) = sz_put buf ?bs"
    using assms(4) n by (simp add: SZ_Write_def sz_put_def peek_def split_def min_absorb2)
  have len: "length ?bs = n" "length (sz_contents buf) = unat (sb_cursize buf)"
    using assms by (simp_all add: length_sz_contents)
  consider (fits) "n \<le> sz_room buf"
    | (wipes) "sz_room buf < n" "n \<le> unat (sb_maxsize buf)"
    | (big) "unat (sb_maxsize buf) < n"
    by linarith
  then show ?thesis
  proof cases
    case fits
    then have "unat (sb_cursize buf) + n \<le> unat (sb_maxsize buf)"
      using assms(1) by (simp add: sz_room_le)
    moreover have "length ?bs \<le> sz_room buf"
      using fits len by simp
    from sz_put_append [OF assms(1) this] obtain b where "sz_put buf ?bs = Inr b"
      "sz_contents b = sz_contents buf @ ?bs" "sb_overflow b = sb_overflow buf"
      "sb_maxsize b = sb_maxsize buf"
      by blast
    ultimately show ?thesis
      using put len by (simp add: sz_abs_def abs_write_def)
  next
    case wipes
    then have "\<not> unat (sb_cursize buf) + n \<le> unat (sb_maxsize buf)"
      using assms(1) sz_room_le [of buf n] by simp
    then show ?thesis
      using put len wipes assms(2) n SZ_GetSpace_wipes [OF assms(1) wipes assms(3)]
      by (simp add: sz_put_def poke_def sz_abs_def abs_write_def sz_contents_def)
  next
    case big
    then have nofit: "\<not> unat (sb_cursize buf) + n \<le> unat (sb_maxsize buf)"
      by simp
    have "unat (sb_cursize buf + of_nat n) = unat (sb_cursize buf) + n"
      using assms(3) n by (simp add: unat_u32_add)
    then show ?thesis
      using put len big nofit n assms(2)
      by (simp add: sz_put_def SZ_GetSpace_def SZ_Clear_def poke_def sz_abs_def abs_write_def
          and_1_bit0 word_less_nat_alt)
  qed
qed

text \<open>
  C7. A write refines the abstract buffer: on a well-formed buffer whose capacity is its array
  and whose sizes do not wrap, it appends the block when it fits, starts over with the block
  alone (dropping the permission and recording the overflow) when only the free room is too
  small, and for a block larger than the whole buffer ends the process, or leaves the array when
  overflow was permitted.
\<close>

theorem SZ_Write_refines:
  assumes "sz_wf buf" and "unat (sb_maxsize buf) = length (sb_data buf)"
    and "unat (sb_cursize buf) + n < 2 ^ 32" and "n \<le> length src"
  shows "bindE (SZ_Write buf src (of_nat n)) (\<lambda>b. Inr (sz_abs b)) = abs_write (sz_abs buf) (take n src)"
  by (rule SZ_Write_refines_aux [OF assms])

theorem SZ_Write_refines_witness:
  "bindE (SZ_Write (SZ_Alloc 300) (cstr ''connect'') 7) (\<lambda>b. Inr (sz_abs b))
     = Inr \<lparr>ab_bytes = cstr ''connect'', ab_cap = 300, ab_allow = False, ab_overflowed = False\<rparr>"
  using SZ_Write_refines [of "SZ_Alloc 300" 7 "cstr ''connect''"]
  by (simp add: SZ_Alloc_def sz_wf_def sz_abs_def abs_write_def sz_contents_def cstr_def)

end
