(* ===== verification/Messages.thy ===== *)
theory Messages
  imports Sizebuf
begin

text \<open>
  \<^verbatim>\<open>messages.c\<close>, byte level: the readers of the received packet (\<^verbatim>\<open>global_net_message\<close>,
  \<^verbatim>\<open>global_msg_readcount\<close>, \<^verbatim>\<open>global_msg_badread\<close>) and the writers. The host is little endian, so
  \<^verbatim>\<open>letohost32\<close> and \<^verbatim>\<open>hosttole32\<close> are the identity. An \<^verbatim>\<open>int\<close> result is its 32-bit pattern:
  \<open>-1\<close> is the value a reader returns at the end of the packet. A \<^verbatim>\<open>float\<close> is the pattern the union of
  the source reinterprets.
\<close>

record netmsg =
  nm_buf :: sizebuf
  nm_readcount :: u32
  nm_badread :: bool

section \<open>Readers\<close>

definition MSG_BeginReading :: "netmsg \<Rightarrow> netmsg" where
  "MSG_BeginReading m = m\<lparr>nm_readcount := 0, nm_badread := False\<rparr>"

definition MSG_ReadChar :: "netmsg \<Rightarrow> (u32 \<times> netmsg) outcome" where
  "MSG_ReadChar m =
     (if nm_readcount m \<ge> sb_cursize (nm_buf m) then Inr (-1, m\<lparr>nm_badread := True\<rparr>)
      else (let r = nm_readcount m + 1 in
        bindE (peek (unat (r - 1)) 1 (sb_data (nm_buf m))) (\<lambda>bs.
          Inr (ucast (hd bs), m\<lparr>nm_readcount := r\<rparr>))))"

definition MSG_ReadByte :: "netmsg \<Rightarrow> (u32 \<times> netmsg) outcome" where
  "MSG_ReadByte m =
     (if nm_readcount m \<ge> sb_cursize (nm_buf m) then Inr (-1, m\<lparr>nm_badread := True\<rparr>)
      else (let r = nm_readcount m + 1 in
        bindE (peek (unat (r - 1)) 1 (sb_data (nm_buf m))) (\<lambda>bs.
          Inr (ucast (hd bs), m\<lparr>nm_readcount := r\<rparr>))))"

definition MSG_ReadShort :: "netmsg \<Rightarrow> (u32 \<times> netmsg) outcome" where
  "MSG_ReadShort m =
     (if nm_readcount m + 1 \<ge> sb_cursize (nm_buf m) then Inr (-1, m\<lparr>nm_badread := True\<rparr>)
      else (let r = nm_readcount m + 2 in
        bindE (peek (unat (r - 2)) 2 (sb_data (nm_buf m))) (\<lambda>bs.
          Inr (scast (word16_of bs), m\<lparr>nm_readcount := r\<rparr>))))"

definition MSG_ReadLong :: "netmsg \<Rightarrow> (u32 \<times> netmsg) outcome" where
  "MSG_ReadLong m =
     (if nm_readcount m + 3 \<ge> sb_cursize (nm_buf m) then Inr (-1, m\<lparr>nm_badread := True\<rparr>)
      else (let r = nm_readcount m + 4 in
        bindE (peek (unat (r - 4)) 4 (sb_data (nm_buf m))) (\<lambda>bs.
          Inr (word32_of bs, m\<lparr>nm_readcount := r\<rparr>))))"

text \<open>At the end of the packet the result is the float \<open>-1\<close>, whose pattern is \<open>0xBF800000\<close>.\<close>

definition MSG_ReadFloat :: "netmsg \<Rightarrow> (u32 \<times> netmsg) outcome" where
  "MSG_ReadFloat m =
     (if nm_readcount m + 3 \<ge> sb_cursize (nm_buf m) then Inr (0xBF800000, m\<lparr>nm_badread := True\<rparr>)
      else (let r = nm_readcount m + 4 in
        bindE (peek (unat (r - 4)) 4 (sb_data (nm_buf m))) (\<lambda>bs.
          Inr (word32_of bs, m\<lparr>nm_readcount := r\<rparr>))))"

lemma MSG_ReadChar_cases:
  "MSG_ReadChar m = Inr (c, m') \<Longrightarrow>
     (c = -1 \<and> m' = m\<lparr>nm_badread := True\<rparr>) \<or>
     (nm_readcount m < sb_cursize (nm_buf m) \<and> m' = m\<lparr>nm_readcount := nm_readcount m + 1\<rparr>)"
  by (auto simp: MSG_ReadChar_def Let_def outcome_simps not_le split: if_splits)

lemma MSG_ReadChar_progress:
  assumes "MSG_ReadChar m = Inr (c, m')" and "c \<noteq> -1"
  shows "unat (sb_cursize (nm_buf m')) - unat (nm_readcount m')
    < unat (sb_cursize (nm_buf m)) - unat (nm_readcount m)"
proof -
  have lt: "nm_readcount m < sb_cursize (nm_buf m)" and m': "m' = m\<lparr>nm_readcount := nm_readcount m + 1\<rparr>"
    using MSG_ReadChar_cases [OF assms(1)] assms(2) by auto
  then have "unat (nm_readcount m) + 1 \<le> unat (sb_cursize (nm_buf m))"
    by (simp add: word_less_nat_alt)
  from unat_add_below [OF this] this show ?thesis
    using m' by simp
qed

text \<open>
  The loop of \<^verbatim>\<open>MSG_ReadStringStatic\<close>; \<open>acc\<close> is what the 2048-byte array holds so far. The
  \<^verbatim>\<open>continue\<close> on a leading line end re-enters the loop with nothing stored.
\<close>

function (sequential) read_string_loop :: "bool \<Rightarrow> u8 list \<Rightarrow> netmsg \<Rightarrow> (u8 list \<times> netmsg) outcome" where
  "read_string_loop brk acc m =
     bindE (MSG_ReadChar m) (\<lambda>(c, m').
       if brk \<and> (c = 10 \<or> c = 13) then
         (if length acc = 0 then read_string_loop brk acc m' else Inr (acc, m'))
       else if c = -1 \<or> c = 0 then Inr (acc, m')
       else (let acc' = acc @ [ucast c] in
         if length acc' < 2048 - 1 then read_string_loop brk acc' m' else Inr (acc', m')))"
  by pat_completeness auto

termination
  by (relation "measure (\<lambda>(brk, acc, m). unat (sb_cursize (nm_buf m)) - unat (nm_readcount m))")
    (auto dest!: MSG_ReadChar_progress)

declare read_string_loop.simps [simp del]

definition MSG_ReadStringStatic :: "bool \<Rightarrow> netmsg \<Rightarrow> (u8 list \<times> netmsg) outcome" where
  "MSG_ReadStringStatic brk m = read_string_loop brk [] m"

definition MSG_ReadString :: "netmsg \<Rightarrow> (u8 list \<times> netmsg) outcome" where
  "MSG_ReadString m = MSG_ReadStringStatic False m"

definition MSG_ReadStringLine :: "netmsg \<Rightarrow> (u8 list \<times> netmsg) outcome" where
  "MSG_ReadStringLine m = MSG_ReadStringStatic True m"

text \<open>
  The loop of \<^verbatim>\<open>MSG_ReadStringCore\<close>: \<open>todo\<close> is \<^verbatim>\<open>buflen - i\<close>, \<open>src\<close> the offset of the source
  pointer; the result is the string copied to the caller's buffer.
\<close>

fun read_core_loop :: "bool \<Rightarrow> nat \<Rightarrow> nat \<Rightarrow> u8 list \<Rightarrow> netmsg \<Rightarrow> (u8 list \<times> netmsg) outcome" where
  "read_core_loop brk 0 src acc m = Inr (acc, m)"
| "read_core_loop brk (Suc todo) src acc m =
     (if nm_readcount m \<ge> sb_cursize (nm_buf m) then Inr (acc, m\<lparr>nm_badread := True\<rparr>)
      else bindE (peek src 1 (sb_data (nm_buf m))) (\<lambda>bs.
        if hd bs = 0 \<or> brk \<and> (hd bs = 13 \<or> hd bs = 10) then Inr (acc, m)
        else read_core_loop brk todo (src + 1) (acc @ [hd bs])
          (m\<lparr>nm_readcount := nm_readcount m + 1\<rparr>)))"

definition MSG_ReadStringCore :: "u32 \<Rightarrow> bool \<Rightarrow> netmsg \<Rightarrow> (u8 list \<times> netmsg) outcome" where
  "MSG_ReadStringCore buflen brk m =
     (if buflen < 1 then Inl SysError
      else read_core_loop brk (unat (buflen - 1)) (unat (nm_readcount m)) [] m)"

definition MSG_ReadStringThreadSafe :: "u32 \<Rightarrow> netmsg \<Rightarrow> (u8 list \<times> netmsg) outcome" where
  "MSG_ReadStringThreadSafe buflen m = MSG_ReadStringCore buflen False m"

definition MSG_ReadStringLineThreadSafe :: "u32 \<Rightarrow> netmsg \<Rightarrow> (u8 list \<times> netmsg) outcome" where
  "MSG_ReadStringLineThreadSafe buflen m = MSG_ReadStringCore buflen True m"

text \<open>
  \<^verbatim>\<open>len < 1\<close> is a signed comparison. The copy is from the start of the packet, as written. The
  result is the returned integer and the bytes delivered.
\<close>

definition MSG_ReadBuf :: "u32 \<Rightarrow> netmsg \<Rightarrow> ((u32 \<times> u8 list) \<times> netmsg) outcome" where
  "MSG_ReadBuf len m =
     (if sint len < 1 then Inl SysError
      else if nm_readcount m + len > sb_cursize (nm_buf m) then Inr ((-1, []), m\<lparr>nm_badread := True\<rparr>)
      else bindE (peek 0 (unat len) (sb_data (nm_buf m))) (\<lambda>bs.
        Inr ((1, bs), m\<lparr>nm_readcount := nm_readcount m + len\<rparr>)))"

section \<open>Writers\<close>

definition MSG_WriteChar :: "sizebuf \<Rightarrow> u32 \<Rightarrow> sizebuf outcome" where
  "MSG_WriteChar sb c = sz_put sb [ucast c]"

definition MSG_WriteChar_C :: "sizebuf \<Rightarrow> u8 \<Rightarrow> sizebuf outcome" where
  "MSG_WriteChar_C sb c = sz_put sb [c]"

definition MSG_WriteByte :: "sizebuf \<Rightarrow> u32 \<Rightarrow> sizebuf outcome" where
  "MSG_WriteByte sb c = sz_put sb [ucast c]"

definition MSG_WriteByte_C :: "sizebuf \<Rightarrow> u8 \<Rightarrow> sizebuf outcome" where
  "MSG_WriteByte_C sb c = sz_put sb [c]"

definition MSG_WriteShort :: "sizebuf \<Rightarrow> u32 \<Rightarrow> sizebuf outcome" where
  "MSG_WriteShort sb c = sz_put sb (bytes16 (ucast c))"

definition MSG_WriteShort_S :: "sizebuf \<Rightarrow> u16 \<Rightarrow> sizebuf outcome" where
  "MSG_WriteShort_S sb c = sz_put sb (bytes16 c)"

definition MSG_WriteWord :: "sizebuf \<Rightarrow> u32 \<Rightarrow> sizebuf outcome" where
  "MSG_WriteWord sb c = sz_put sb (bytes16 (ucast c))"

definition MSG_WriteWord_S :: "sizebuf \<Rightarrow> u16 \<Rightarrow> sizebuf outcome" where
  "MSG_WriteWord_S sb c = sz_put sb (bytes16 c)"

definition MSG_WriteLong :: "sizebuf \<Rightarrow> u32 \<Rightarrow> sizebuf outcome" where
  "MSG_WriteLong sb c = sz_put sb (bytes32 c)"

definition MSG_WriteFloat :: "sizebuf \<Rightarrow> u32 \<Rightarrow> sizebuf outcome" where
  "MSG_WriteFloat sb f = sz_put sb (bytes32 f)"

definition MSG_WriteString :: "sizebuf \<Rightarrow> u8 list option \<Rightarrow> sizebuf outcome" where
  "MSG_WriteString sb s =
     (case s of None \<Rightarrow> SZ_Write sb [0] 1
      | Some str \<Rightarrow> SZ_Write sb (str @ [0]) (of_nat (length str) + 1))"

definition MSG_WriteBuf :: "sizebuf \<Rightarrow> u32 \<Rightarrow> u8 list option \<Rightarrow> sizebuf outcome" where
  "MSG_WriteBuf sb len buf = (case buf of None \<Rightarrow> Inr sb | Some b \<Rightarrow> SZ_Write sb b len)"

section \<open>The unread part of a packet\<close>

definition unread :: "netmsg \<Rightarrow> u8 list" where
  "unread m = drop (unat (nm_readcount m)) (sz_contents (nm_buf m))"

definition nm_wf :: "netmsg \<Rightarrow> bool" where
  "nm_wf m \<longleftrightarrow> sz_wf (nm_buf m) \<and> nm_readcount m \<le> sb_cursize (nm_buf m)
     \<and> unat (sb_maxsize (nm_buf m)) < 2 ^ 31"

definition advance :: "nat \<Rightarrow> netmsg \<Rightarrow> netmsg" where
  "advance n m = m\<lparr>nm_readcount := nm_readcount m + of_nat n\<rparr>"

lemma advance_simps [simp]:
  "nm_buf (advance n m) = nm_buf m" "nm_badread (advance n m) = nm_badread m"
  by (simp_all add: advance_def)

lemma length_unread:
  "nm_wf m \<Longrightarrow> length (unread m) = unat (sb_cursize (nm_buf m)) - unat (nm_readcount m)"
  by (simp add: unread_def nm_wf_def length_sz_contents)

lemma advance_count:
  assumes "nm_wf m" and "n \<le> length (unread m)"
  shows "unat (nm_readcount (advance n m)) = unat (nm_readcount m) + n"
    and "unat (nm_readcount m) + n \<le> unat (sb_cursize (nm_buf m))"
proof -
  show le: "unat (nm_readcount m) + n \<le> unat (sb_cursize (nm_buf m))"
    using assms length_unread [OF assms(1)] unfolding nm_wf_def word_le_nat_alt by arith
  show "unat (nm_readcount (advance n m)) = unat (nm_readcount m) + n"
    using unat_add_below [OF le] by (simp add: advance_def)
qed

lemma advance_unread: "nm_wf m \<Longrightarrow> n \<le> length (unread m) \<Longrightarrow> unread (advance n m) = drop n (unread m)"
  using advance_count(1) [of m n] by (simp add: unread_def add.commute)

lemma advance_wf: "nm_wf m \<Longrightarrow> n \<le> length (unread m) \<Longrightarrow> nm_wf (advance n m)"
  using advance_count [of m n] by (simp add: nm_wf_def word_le_nat_alt)

lemma advance_0 [simp]: "advance 0 m = m"
  by (simp add: advance_def)

lemma advance_advance [simp]: "advance n (advance k m) = advance (k + n) m"
  by (simp add: advance_def add.assoc)

lemma advance_1: "m\<lparr>nm_readcount := nm_readcount m + 1\<rparr> = advance 1 m"
  by (simp add: advance_def)

lemma nm_wf_bad [simp]: "nm_wf (m\<lparr>nm_badread := b\<rparr>) = nm_wf m"
  by (simp add: nm_wf_def)

lemma advance_bad [simp]: "advance n (m\<lparr>nm_badread := b\<rparr>) = (advance n m)\<lparr>nm_badread := b\<rparr>"
  by (simp add: advance_def)

text \<open>A block of the unread part is what the array holds at the read position.\<close>

lemma peek_unread:
  assumes "nm_wf m" and "k \<le> length (unread m)"
  shows "peek (unat (nm_readcount m)) k (sb_data (nm_buf m)) = Inr (take k (unread m))"
proof -
  have le: "unat (nm_readcount m) + k \<le> unat (sb_cursize (nm_buf m))"
    by (rule advance_count(2) [OF assms])
  moreover have "unat (sb_cursize (nm_buf m)) \<le> length (sb_data (nm_buf m))"
    using assms(1) by (simp add: nm_wf_def sz_wf_nat)
  ultimately show ?thesis
    by (simp add: peek_def unread_def sz_contents_def drop_take min_def)
qed

text \<open>The guard \<^verbatim>\<open>readcount+k >= cursize\<close> of the readers does not wrap on a well-formed packet.\<close>

lemma read_guard:
  assumes "nm_wf m" and "k < 16"
  shows "sb_cursize (nm_buf m) \<le> nm_readcount m + of_nat k \<longleftrightarrow> length (unread m) \<le> k"
proof -
  have "unat (nm_readcount m) + k < 2 ^ 32"
    using assms by (simp add: nm_wf_def sz_wf_nat word_le_nat_alt)
  then have "unat (nm_readcount m + of_nat k) = unat (nm_readcount m) + k"
    using assms(2) by (simp add: unat_u32_add unat_of_nat_u32)
  then show ?thesis
    using length_unread [OF assms(1)] by (auto simp: word_le_nat_alt)
qed

lemmas read_guards = read_guard [of _ 0, simplified] read_guard [of _ 1, simplified]
  read_guard [of _ 3, simplified]

lemma MSG_ReadByte_Char: "MSG_ReadByte m = MSG_ReadChar m"
  by (simp add: MSG_ReadByte_def MSG_ReadChar_def)

lemma MSG_ReadChar_wf:
  assumes "nm_wf m"
  shows "MSG_ReadChar m = (if unread m = [] then Inr (-1, m\<lparr>nm_badread := True\<rparr>)
    else Inr (ucast (hd (unread m)), advance 1 m))"
  using assms peek_unread [of m 1] read_guards(1) [OF assms]
  by (cases "unread m") (simp_all add: MSG_ReadChar_def advance_1 Let_def)

lemma MSG_ReadShort_wf:
  assumes "nm_wf m"
  shows "MSG_ReadShort m = (if length (unread m) < 2 then Inr (-1, m\<lparr>nm_badread := True\<rparr>)
    else Inr (scast (word16_of (take 2 (unread m))), advance 2 m))"
  using assms peek_unread [of m 2] read_guards(2) [OF assms]
  by (simp add: MSG_ReadShort_def Let_def not_less advance_def less_Suc_eq_le [symmetric] numeral_2_eq_2)

lemma MSG_ReadLong_wf:
  assumes "nm_wf m"
  shows "MSG_ReadLong m = (if length (unread m) < 4 then Inr (-1, m\<lparr>nm_badread := True\<rparr>)
    else Inr (word32_of (take 4 (unread m)), advance 4 m))"
  using assms peek_unread [of m 4] read_guards(3) [OF assms]
  by (auto simp: MSG_ReadLong_def Let_def advance_def)

lemma MSG_ReadFloat_wf:
  assumes "nm_wf m"
  shows "MSG_ReadFloat m = (if length (unread m) < 4 then Inr (0xBF800000, m\<lparr>nm_badread := True\<rparr>)
    else Inr (word32_of (take 4 (unread m)), advance 4 m))"
  using assms peek_unread [of m 4] read_guards(3) [OF assms]
  by (auto simp: MSG_ReadFloat_def Let_def advance_def)

section \<open>Every reader stays inside the packet\<close>

text \<open>
  The contract of a reader: on a well-formed packet it returns a value, moves the read position
  forward by at most what is unread, changes nothing else, and never clears the bad-read flag.
\<close>

locale packet_reader =
  fixes rd :: "netmsg \<Rightarrow> ('v \<times> netmsg) outcome"
  assumes reads: "nm_wf m \<Longrightarrow> \<exists>v k b. k \<le> length (unread m)
    \<and> rd m = Inr (v, (advance k m)\<lparr>nm_badread := nm_badread m \<or> b\<rparr>)"
begin

lemma read_ok:
  assumes "nm_wf m"
  obtains v m' where "rd m = Inr (v, m')" "nm_wf m'" "nm_buf m' = nm_buf m"
    "nm_readcount m \<le> nm_readcount m'" "nm_badread m \<longrightarrow> nm_badread m'"
proof -
  obtain v k b where *: "k \<le> length (unread m)"
    "rd m = Inr (v, (advance k m)\<lparr>nm_badread := nm_badread m \<or> b\<rparr>)"
    using reads [OF assms] by blast
  have "nm_readcount m \<le> nm_readcount (advance k m)"
    using advance_count(1) [OF assms *(1)] by (simp add: word_le_nat_alt)
  then show thesis
    using that [OF *(2)] advance_wf [OF assms *(1)] by simp
qed

end

lemma nm_bad_same: "m\<lparr>nm_badread := nm_badread m\<rparr> = m"
  by simp

lemma reads_fixed_width:
  assumes "\<And>m. nm_wf m \<Longrightarrow> rd m = (if length (unread m) < n then Inr (e, m\<lparr>nm_badread := True\<rparr>)
    else Inr (f (unread m), advance n m))"
  shows "packet_reader rd"
proof
  fix m assume m: "nm_wf m"
  show "\<exists>v k b. k \<le> length (unread m) \<and> rd m = Inr (v, (advance k m)\<lparr>nm_badread := nm_badread m \<or> b\<rparr>)"
  proof (cases "length (unread m) < n")
    case True
    then show ?thesis
      using assms [OF m] by (intro exI [of _ e] exI [of _ 0] exI [of _ True]) simp
  next
    case False
    then show ?thesis
      using assms [OF m] nm_bad_same [of "advance n m"]
      by (intro exI [of _ "f (unread m)"] exI [of _ n] exI [of _ False]) simp
  qed
qed

interpretation rd_char: packet_reader MSG_ReadChar
  by (rule reads_fixed_width [of _ 1 "-1" "\<lambda>bs. ucast (hd bs)"]) (simp add: MSG_ReadChar_wf)

interpretation rd_byte: packet_reader MSG_ReadByte
  using rd_char.packet_reader_axioms by (simp add: MSG_ReadByte_Char [abs_def])

interpretation rd_short: packet_reader MSG_ReadShort
  by (rule reads_fixed_width [of _ 2 "-1" "\<lambda>bs. scast (word16_of (take 2 bs))"]) (simp add: MSG_ReadShort_wf)

interpretation rd_long: packet_reader MSG_ReadLong
  by (rule reads_fixed_width [of _ 4 "-1" "\<lambda>bs. word32_of (take 4 bs)"]) (simp add: MSG_ReadLong_wf)

interpretation rd_float: packet_reader MSG_ReadFloat
  by (rule reads_fixed_width [of _ 4 "0xBF800000" "\<lambda>bs. word32_of (take 4 bs)"]) (simp add: MSG_ReadFloat_wf)

lemma advance_reads_step:
  assumes "nm_wf m" and "unread m \<noteq> []" and "k \<le> length (unread (advance 1 m))"
  shows "Suc k \<le> length (unread m)" and "advance k (advance 1 m) = advance (Suc k) m"
proof -
  have "1 \<le> length (unread m)"
    using assms(2) by (cases "unread m") simp_all
  then show "Suc k \<le> length (unread m)"
    using assms(3) advance_unread [OF assms(1), of 1] by simp
qed simp

lemma read_string_loop_reads:
  "nm_wf m \<Longrightarrow> \<exists>v k b. k \<le> length (unread m)
    \<and> read_string_loop brk acc m = Inr (v, (advance k m)\<lparr>nm_badread := nm_badread m \<or> b\<rparr>)"
proof (induction brk acc m rule: read_string_loop.induct)
  case (1 brk acc m)
  show ?case
  proof (cases "unread m")
    case Nil
    then show ?thesis
      using MSG_ReadChar_wf [OF 1(3)]
      by (intro exI [of _ acc] exI [of _ 0] exI [of _ True]) (simp add: read_string_loop.simps [of brk acc m])
  next
    case (Cons x xs)
    let ?c = "ucast x :: u32" and ?m = "advance 1 m"
    have rd: "MSG_ReadChar m = Inr (?c, ?m)"
      using MSG_ReadChar_wf [OF 1(3)] Cons by simp
    have wf: "nm_wf ?m"
      using advance_wf [OF 1(3), of 1] Cons by simp
    have stop: "\<exists>v' k b. k \<le> length (unread m)
        \<and> Inr (v, ?m) = Inr (v', (advance k m)\<lparr>nm_badread := nm_badread m \<or> b\<rparr>)" for v :: "u8 list"
      using Cons nm_bad_same [of ?m] by (intro exI [of _ v] exI [of _ 1] exI [of _ False]) simp
    have again: "\<exists>v k b. k \<le> length (unread m)
        \<and> read_string_loop brk acc' ?m = Inr (v, (advance k m)\<lparr>nm_badread := nm_badread m \<or> b\<rparr>)"
      if "\<exists>v k b. k \<le> length (unread ?m)
        \<and> read_string_loop brk acc' ?m = Inr (v, (advance k ?m)\<lparr>nm_badread := nm_badread ?m \<or> b\<rparr>)" for acc'
      using that advance_reads_step [OF 1(3), of _] Cons by fastforce
    show ?thesis
      unfolding read_string_loop.simps [of brk acc m] rd bindE_simps prod.case
      using 1(1) [OF rd refl _ _ wf] 1(2) [OF rd refl _ _ refl _ wf] stop again
      by (auto simp: Let_def simp del: advance_advance)
  qed
qed

lemma read_core_loop_reads:
  "nm_wf m \<Longrightarrow> src = unat (nm_readcount m) \<Longrightarrow> \<exists>v k b. k \<le> length (unread m)
    \<and> read_core_loop brk todo src acc m = Inr (v, (advance k m)\<lparr>nm_badread := nm_badread m \<or> b\<rparr>)"
proof (induction todo arbitrary: src acc m)
  case 0
  show ?case
    by (intro exI [of _ acc] exI [of _ 0] exI [of _ False]) simp
next
  case (Suc todo)
  have guard: "sb_cursize (nm_buf m) \<le> nm_readcount m \<longleftrightarrow> unread m = []"
    using read_guards(1) [OF Suc.prems(1)] by simp
  show ?case
  proof (cases "unread m")
    case Nil
    then show ?thesis
      using guard by (intro exI [of _ acc] exI [of _ 0] exI [of _ True]) simp
  next
    case (Cons x xs)
    let ?m = "advance 1 m"
    have pk: "peek src 1 (sb_data (nm_buf m)) = Inr [x]"
      using peek_unread [OF Suc.prems(1), of 1] Cons Suc.prems(2) by simp
    have wf: "nm_wf ?m" and src: "src + 1 = unat (nm_readcount ?m)"
      using advance_wf [OF Suc.prems(1), of 1] advance_count(1) [OF Suc.prems(1), of 1] Cons Suc.prems(2)
      by simp_all
    obtain v k b where *: "k \<le> length (unread ?m)" "read_core_loop brk todo (src + 1) (acc @ [x]) ?m
        = Inr (v, (advance k ?m)\<lparr>nm_badread := nm_badread ?m \<or> b\<rparr>)"
      using Suc.IH [OF wf src, of "acc @ [x]"] by blast
    show ?thesis
    proof (cases "x = 0 \<or> brk \<and> (x = 13 \<or> x = 10)")
      case True
      then show ?thesis
        using guard Cons pk by (intro exI [of _ acc] exI [of _ 0] exI [of _ False]) simp
    next
      case False
      then have "read_core_loop brk (Suc todo) src acc m = read_core_loop brk todo (src + 1) (acc @ [x]) ?m"
        using guard Cons pk by (cases brk) (simp_all add: advance_1)
      then show ?thesis
        using * advance_reads_step [OF Suc.prems(1) _ *(1)] Cons
        by (intro exI [of _ v] exI [of _ "Suc k"] exI [of _ b]) (simp del: advance_advance)
    qed
  qed
qed

interpretation rd_string: packet_reader "MSG_ReadStringStatic brk" for brk
  by unfold_locales (unfold MSG_ReadStringStatic_def, rule read_string_loop_reads)

lemma read_core_reader:
  assumes "buflen \<ge> 1"
  shows "packet_reader (MSG_ReadStringCore buflen brk)"
  using assms read_core_loop_reads [OF _ refl]
  by unfold_locales (simp only: MSG_ReadStringCore_def not_less if_not_P)

lemma read_buf_reader:
  assumes "1 \<le> sint len"
  shows "packet_reader (MSG_ReadBuf len)"
proof
  fix m assume m: "nm_wf m"
  have len: "unat len < 2 ^ 31"
    using assms sint_u32_pos [of len] by simp
  have count: "unat (nm_readcount m) \<le> unat (sb_cursize (nm_buf m))"
    "unat (sb_cursize (nm_buf m)) < 2 ^ 31" "unat (sb_cursize (nm_buf m)) \<le> length (sb_data (nm_buf m))"
    using m by (simp_all add: nm_wf_def sz_wf_nat word_le_nat_alt)
  have sum: "unat (nm_readcount m + len) = unat (nm_readcount m) + unat len"
    using len count by (simp add: unat_u32_add)
  show "\<exists>v k b. k \<le> length (unread m)
      \<and> MSG_ReadBuf len m = Inr (v, (advance k m)\<lparr>nm_badread := nm_badread m \<or> b\<rparr>)"
  proof (cases "nm_readcount m + len > sb_cursize (nm_buf m)")
    case True
    then show ?thesis
      using assms by (intro exI [of _ "(-1, [])"] exI [of _ 0] exI [of _ True]) (simp add: MSG_ReadBuf_def)
  next
    case False
    then have fits: "unat (nm_readcount m) + unat len \<le> unat (sb_cursize (nm_buf m))"
      using sum by (simp add: word_less_nat_alt)
    then have "MSG_ReadBuf len m = Inr ((1, take (unat len) (sb_data (nm_buf m))), advance (unat len) m)"
      using assms False count by (simp add: MSG_ReadBuf_def peek_def advance_def)
    moreover have "unat len \<le> length (unread m)"
      using fits length_unread [OF m] by simp
    ultimately show ?thesis
      using nm_bad_same [of "advance (unat len) m"]
      by (intro exI [of _ "(1, take (unat len) (sb_data (nm_buf m)))"] exI [of _ "unat len"] exI [of _ False]) simp
  qed
qed

text \<open>A program of reads, as the handlers of a packet perform them; the values are dropped.\<close>

datatype readop = OpChar | OpByte | OpShort | OpLong | OpFloat | OpString | OpLine | OpText u32 bool | OpBuf u32

definition then_drop :: "('v \<times> netmsg) outcome \<Rightarrow> netmsg outcome" where
  "then_drop r = bindE r (\<lambda>(_, m). Inr m)"

fun run_read :: "netmsg \<Rightarrow> readop \<Rightarrow> netmsg outcome" where
  "run_read m OpChar = then_drop (MSG_ReadChar m)"
| "run_read m OpByte = then_drop (MSG_ReadByte m)"
| "run_read m OpShort = then_drop (MSG_ReadShort m)"
| "run_read m OpLong = then_drop (MSG_ReadLong m)"
| "run_read m OpFloat = then_drop (MSG_ReadFloat m)"
| "run_read m OpString = then_drop (MSG_ReadString m)"
| "run_read m OpLine = then_drop (MSG_ReadStringLine m)"
| "run_read m (OpText buflen brk) = then_drop (MSG_ReadStringCore buflen brk m)"
| "run_read m (OpBuf len) = then_drop (MSG_ReadBuf len m)"

fun op_ok :: "readop \<Rightarrow> bool" where
  "op_ok (OpText buflen brk) \<longleftrightarrow> 1 \<le> buflen"
| "op_ok (OpBuf len) \<longleftrightarrow> 1 \<le> sint len"
| "op_ok _ \<longleftrightarrow> True"

lemma then_drop_reader:
  assumes "packet_reader rd" and "nm_wf m"
  shows "\<exists>m'. then_drop (rd m) = Inr m' \<and> nm_wf m' \<and> nm_buf m' = nm_buf m
    \<and> nm_readcount m \<le> nm_readcount m' \<and> (nm_badread m \<longrightarrow> nm_badread m')"
  using packet_reader.read_ok [OF assms] by (fastforce simp: then_drop_def)

lemma run_read_step:
  assumes "nm_wf m" and "op_ok op"
  shows "\<exists>m'. run_read m op = Inr m' \<and> nm_wf m' \<and> nm_buf m' = nm_buf m
    \<and> nm_readcount m \<le> nm_readcount m' \<and> (nm_badread m \<longrightarrow> nm_badread m')"
  using assms
  by (cases op)
    (simp_all only: run_read.simps op_ok.simps MSG_ReadString_def MSG_ReadStringLine_def then_drop_reader
      rd_char.packet_reader_axioms rd_byte.packet_reader_axioms rd_short.packet_reader_axioms
      rd_long.packet_reader_axioms rd_float.packet_reader_axioms rd_string.packet_reader_axioms
      read_core_reader read_buf_reader)

text \<open>
  C8. Reading is memory safe: whatever sequence of reads a handler performs on a received packet
  (the arguments of the buffer reads being positive), no read leaves the packet's array, the
  packet is untouched, the read position only moves forward and stays within \<^verbatim>\<open>cursize\<close>, and
  a bad read stays recorded.
\<close>

theorem reads_are_safe:
  assumes "nm_wf m" and "\<forall>op \<in> set ops. op_ok op"
  shows "\<exists>m'. foldE run_read m ops = Inr m' \<and> nm_buf m' = nm_buf m
    \<and> nm_readcount m \<le> nm_readcount m' \<and> nm_readcount m' \<le> sb_cursize (nm_buf m)
    \<and> (nm_badread m \<longrightarrow> nm_badread m')"
  using assms
proof (induction ops arbitrary: m)
  case Nil
  then show ?case by (simp add: nm_wf_def)
next
  case (Cons op ops)
  obtain m1 where m1: "run_read m op = Inr m1" "nm_wf m1" "nm_buf m1 = nm_buf m"
    "nm_readcount m \<le> nm_readcount m1" "nm_badread m \<longrightarrow> nm_badread m1"
    using run_read_step [of m op] Cons.prems by auto
  from Cons.IH [OF m1(2)] Cons.prems(2) m1 show ?case
    by (auto intro: order_trans)
qed

theorem reads_are_safe_witness:
  "\<exists>m'. foldE run_read \<lparr>nm_buf = \<lparr>sb_overflow = 0, sb_data = [7, 104, 105, 0, 1, 2], sb_maxsize = 6, sb_cursize = 5\<rparr>,
      nm_readcount = 0, nm_badread = False\<rparr> [OpByte, OpString, OpLong, OpBuf 9] = Inr m' \<and> nm_readcount m' \<le> 5"
  using reads_are_safe [of "\<lparr>nm_buf = \<lparr>sb_overflow = 0, sb_data = [7, 104, 105, 0, 1, 2], sb_maxsize = 6,
      sb_cursize = 5\<rparr>, nm_readcount = 0, nm_badread = False\<rparr>" "[OpByte, OpString, OpLong, OpBuf 9]"]
  by (auto simp: nm_wf_def sz_wf_def simp del: foldE.simps run_read.simps)

text \<open>
  \<^verbatim>\<open>MSG_ReadBuf\<close> delivers the first \<^verbatim>\<open>len\<close> bytes of the packet whatever has been read
  before, although it skips \<^verbatim>\<open>len\<close> unread bytes: when it succeeds, the bytes delivered are a prefix
  of the packet's contents and the read position has advanced past the block that was not copied.
\<close>

theorem MSG_ReadBuf_copies_from_start:
  assumes "nm_wf m" and "1 \<le> sint len" and "unat len \<le> length (unread m)"
  shows "MSG_ReadBuf len m = Inr ((1, take (unat len) (sz_contents (nm_buf m))), advance (unat len) m)"
proof -
  have fits: "unat (nm_readcount m) + unat len \<le> unat (sb_cursize (nm_buf m))"
    using advance_count(2) [OF assms(1,3)] .
  moreover have "unat (nm_readcount m + len) = unat (nm_readcount m) + unat len"
    using fits unat_u32_lt [of "sb_cursize (nm_buf m)"] by (simp add: unat_u32_add)
  moreover have "unat (sb_cursize (nm_buf m)) \<le> length (sb_data (nm_buf m))"
    using assms(1) by (simp add: nm_wf_def sz_wf_nat)
  ultimately show ?thesis
    using assms(2)
    by (simp add: MSG_ReadBuf_def peek_def advance_def sz_contents_def word_less_nat_alt min_def)
qed

theorem MSG_ReadBuf_copies_from_start_witness:
  "\<exists>m'. MSG_ReadBuf 2 \<lparr>nm_buf = \<lparr>sb_overflow = 0, sb_data = [1, 2, 3, 4, 5], sb_maxsize = 5, sb_cursize = 5\<rparr>,
      nm_readcount = 3, nm_badread = False\<rparr> = Inr ((1, [1, 2]), m')"
  using MSG_ReadBuf_copies_from_start [of "\<lparr>nm_buf = \<lparr>sb_overflow = 0, sb_data = [1, 2, 3, 4, 5],
      sb_maxsize = 5, sb_cursize = 5\<rparr>, nm_readcount = 3, nm_badread = False\<rparr>" 2]
  by (simp add: nm_wf_def sz_wf_def unread_def sz_contents_def sint_u32)

section \<open>Writing fields and reading them back\<close>

text \<open>The shapes of data the engine puts in a packet, and their bytes.\<close>

datatype field = FByte u8 | FWord u16 | FLong u32 | FText "u8 list"

fun write_field :: "sizebuf \<Rightarrow> field \<Rightarrow> sizebuf outcome" where
  "write_field sb (FByte b) = MSG_WriteByte sb (ucast b)"
| "write_field sb (FWord w) = MSG_WriteShort_S sb w"
| "write_field sb (FLong v) = MSG_WriteLong sb v"
| "write_field sb (FText s) = MSG_WriteString sb (Some s)"

fun read_like :: "field \<Rightarrow> netmsg \<Rightarrow> (field \<times> netmsg) outcome" where
  "read_like (FByte _) m = bindE (MSG_ReadByte m) (\<lambda>(c, m'). Inr (FByte (ucast c), m'))"
| "read_like (FWord _) m = bindE (MSG_ReadShort m) (\<lambda>(c, m'). Inr (FWord (ucast c), m'))"
| "read_like (FLong _) m = bindE (MSG_ReadLong m) (\<lambda>(c, m'). Inr (FLong c, m'))"
| "read_like (FText _) m = bindE (MSG_ReadString m) (\<lambda>(s, m'). Inr (FText s, m'))"

fun read_fields :: "field list \<Rightarrow> netmsg \<Rightarrow> (field list \<times> netmsg) outcome" where
  "read_fields [] m = Inr ([], m)"
| "read_fields (f # fs) m =
     bindE (read_like f m) (\<lambda>(g, m1). bindE (read_fields fs m1) (\<lambda>(gs, m2). Inr (g # gs, m2)))"

fun field_bytes :: "field \<Rightarrow> u8 list" where
  "field_bytes (FByte b) = [b]"
| "field_bytes (FWord w) = bytes16 w"
| "field_bytes (FLong v) = bytes32 v"
| "field_bytes (FText s) = s @ [0]"

text \<open>A string must hold no terminator and fit the reader's 2048-byte array with its own.\<close>

fun field_ok :: "field \<Rightarrow> bool" where
  "field_ok (FText s) \<longleftrightarrow> 0 \<notin> set s \<and> length s < 2047"
| "field_ok _ \<longleftrightarrow> True"

lemma ucast_u8_u32 [simp]: "ucast (ucast (b :: u8) :: u32) = b"
  by (rule bit_word_eqI) (simp add: bit_simps)

lemma ucast_scast_u16 [simp]: "ucast (scast (w :: u16) :: u32) = w"
  by (rule bit_word_eqI) (simp add: bit_simps)

lemma ucast_u8_nonzero: "(b :: u8) \<noteq> 0 \<Longrightarrow> (ucast b :: u32) \<noteq> 0"
  by (metis ucast_u8_u32 unsigned_0)

lemma ucast_u8_not_minus_1: "(ucast (b :: u8) :: u32) \<noteq> -1"
proof
  assume "(ucast b :: u32) = -1"
  then have "bit (ucast b :: u32) 9"
    by simp
  then show False
    by (simp add: bit_simps bit_u8_beyond)
qed

lemma write_field_put:
  assumes "field_ok f"
  shows "write_field sb f = sz_put sb (field_bytes f)"
proof (cases f)
  case (FText s)
  then have "SZ_Write sb (s @ [0]) (of_nat (length s + 1)) = sz_put sb (s @ [0])"
    using assms by (intro SZ_Write_sz_put) simp_all
  then show ?thesis
    using FText by (simp add: MSG_WriteString_def add.commute)
qed (simp_all add: MSG_WriteByte_def MSG_WriteShort_S_def MSG_WriteLong_def)

lemma foldE_cong: "(\<And>s x. x \<in> set xs \<Longrightarrow> f s x = g s (h x)) \<Longrightarrow> foldE f s xs = foldE g s (map h xs)"
  by (induction xs arbitrary: s) (auto intro: bindE_cong)

lemma read_string_loop_text:
  "nm_wf m \<Longrightarrow> unread m = s @ 0 # rest \<Longrightarrow> 0 \<notin> set s \<Longrightarrow> length acc + length s < 2047 \<Longrightarrow>
    read_string_loop False acc m = Inr (acc @ s, advance (length s + 1) m)"
proof (induction s arbitrary: acc m)
  case Nil
  then show ?case
    using MSG_ReadChar_wf [OF Nil.prems(1)] by (simp add: read_string_loop.simps [of _ acc])
next
  case (Cons x s)
  have rd: "MSG_ReadChar m = Inr (ucast x, advance 1 m)"
    using MSG_ReadChar_wf [OF Cons.prems(1)] Cons.prems(2) by simp
  have 1: "1 \<le> length (unread m)"
    using Cons.prems(2) by simp
  have "read_string_loop False (acc @ [x]) (advance 1 m)
      = Inr ((acc @ [x]) @ s, advance (length s + 1) (advance 1 m))"
    using Cons.prems advance_unread [OF Cons.prems(1) 1] advance_wf [OF Cons.prems(1) 1]
    by (intro Cons.IH) auto
  moreover have "x \<noteq> 0"
    using Cons.prems(3) by auto
  ultimately show ?case
    using rd Cons.prems(4) ucast_u8_nonzero [of x]
    by (simp add: read_string_loop.simps [of _ acc] ucast_u8_not_minus_1 Let_def)
qed

lemma read_like_field:
  assumes "nm_wf m" and "unread m = field_bytes f @ rest" and "field_ok f"
  shows "read_like f m = Inr (f, advance (length (field_bytes f)) m)"
proof (cases f)
  case (FText s)
  then show ?thesis
    using assms read_string_loop_text [OF assms(1), of s rest "[]"]
    by (simp add: MSG_ReadString_def MSG_ReadStringStatic_def)
qed (use assms in \<open>simp_all add: MSG_ReadByte_Char MSG_ReadChar_wf MSG_ReadShort_wf MSG_ReadLong_wf\<close>)

lemma read_fields_back:
  "nm_wf m \<Longrightarrow> unread m = concat (map field_bytes fs) @ rest \<Longrightarrow> \<forall>f \<in> set fs. field_ok f \<Longrightarrow>
    read_fields fs m = Inr (fs, advance (length (concat (map field_bytes fs))) m)"
proof (induction fs arbitrary: m)
  case (Cons f fs)
  let ?n = "length (field_bytes f)"
  have n: "?n \<le> length (unread m)" and un: "unread m = field_bytes f @ (concat (map field_bytes fs) @ rest)"
    using Cons.prems(2) by simp_all
  have "read_like f m = Inr (f, advance ?n m)"
    using read_like_field [OF Cons.prems(1) un] Cons.prems(3) by simp
  moreover have "read_fields fs (advance ?n m)
      = Inr (fs, advance (length (concat (map field_bytes fs))) (advance ?n m))"
    using Cons.prems advance_unread [OF Cons.prems(1) n] advance_wf [OF Cons.prems(1) n]
    by (intro Cons.IH) auto
  ultimately show ?case by simp
qed simp

text \<open>
  C9. What is written is what is read: any sequence of bytes, shorts, longs and strings written
  to a buffer with room for it is read back, field by field and without a bad read, by a reader that
  starts where the writing started.
\<close>

theorem fields_roundtrip:
  assumes "sz_wf sb" and "unat (sb_maxsize sb) < 2 ^ 31" and "\<forall>f \<in> set fs. field_ok f"
    and "length (concat (map field_bytes fs)) \<le> sz_room sb"
  shows "\<exists>sb' m'. foldE write_field sb fs = Inr sb' \<and>
    read_fields fs \<lparr>nm_buf = sb', nm_readcount = sb_cursize sb, nm_badread = False\<rparr> = Inr (fs, m')
    \<and> \<not> nm_badread m' \<and> nm_readcount m' = sb_cursize sb'"
proof -
  let ?bs = "concat (map field_bytes fs)"
  have "foldE write_field sb fs = foldE sz_put sb (map field_bytes fs)"
    using assms(3) by (intro foldE_cong write_field_put) simp
  then obtain sb' where w: "foldE write_field sb fs = Inr sb'" "sz_wf sb'"
    "sz_contents sb' = sz_contents sb @ ?bs" "sb_maxsize sb' = sb_maxsize sb"
    using sz.append_all [OF assms(1,4)] foldE_invariant [of sz_put sb "map field_bytes fs" _ "\<lambda>s. sb_maxsize s = sb_maxsize sb"]
      sz_put_maxsize by metis
  let ?m = "\<lparr>nm_buf = sb', nm_readcount = sb_cursize sb, nm_badread = False\<rparr>"
  have len: "unat (sb_cursize sb') = unat (sb_cursize sb) + length ?bs"
    using w(3) length_sz_contents [OF w(2)] length_sz_contents [OF assms(1)] by simp
  then have m: "nm_wf ?m"
    using w assms(2) by (simp add: nm_wf_def word_le_nat_alt)
  have un: "unread ?m = ?bs @ []"
    using w(3) length_sz_contents [OF assms(1)] by (simp add: unread_def)
  have "nm_readcount (advance (length ?bs) ?m) = sb_cursize sb'"
    using advance_count(1) [OF m, of "length ?bs"] un len by (simp add: word_unat_eq_iff)
  then show ?thesis
    using w(1) read_fields_back [OF m un assms(3)] by simp
qed

theorem fields_roundtrip_witness:
  "\<exists>sb' m'. foldE write_field (SZ_Alloc 256) [FByte 255, FWord 65535, FText (cstr ''map c1a0''), FLong 7] = Inr sb' \<and>
    read_fields [FByte 255, FWord 65535, FText (cstr ''map c1a0''), FLong 7]
      \<lparr>nm_buf = sb', nm_readcount = 0, nm_badread = False\<rparr>
      = Inr ([FByte 255, FWord 65535, FText (cstr ''map c1a0''), FLong 7], m') \<and> \<not> nm_badread m'"
  using fields_roundtrip [of "SZ_Alloc 256" "[FByte 255, FWord 65535, FText (cstr ''map c1a0''), FLong 7]"]
  by (auto simp: SZ_Alloc_def sz_wf_def sz_room_def cstr_def cchar_def simp del: foldE.simps read_fields.simps)

end
