(* ===== verification/MsgBits.thy ===== *)
theory MsgBits
  imports Messages
begin

text \<open>
  \<^verbatim>\<open>messages.c\<close>, bit level: the bit stream the delta encoder and the user commands travel in. A
  stream pointer is its offset from the start of the buffer's array, on the 32-bit address space of
  the target. The static records \<^verbatim>\<open>bfwrite\<close> and \<^verbatim>\<open>bfread\<close> are explicit states, their
  \<^verbatim>\<open>sz\<close> pointer being the buffer (or the packet) carried beside them. Shift counts of 32 or more
  are undefined in C and are a fault here.
\<close>

section \<open>The mask tables\<close>

definition bittable :: "u32 list" where
  "bittable = [
     0x00000001, 0x00000002, 0x00000004, 0x00000008,
     0x00000010, 0x00000020, 0x00000040, 0x00000080,
     0x00000100, 0x00000200, 0x00000400, 0x00000800,
     0x00001000, 0x00002000, 0x00004000, 0x00008000,
     0x00010000, 0x00020000, 0x00040000, 0x00080000,
     0x00100000, 0x00200000, 0x00400000, 0x00800000,
     0x01000000, 0x02000000, 0x04000000, 0x08000000,
     0x10000000, 0x20000000, 0x40000000, 0x80000000,
     0x00000000]"

definition rowbittable :: "u32 list" where
  "rowbittable = [
     0x00000000, 0x00000001, 0x00000003, 0x00000007,
     0x0000000F, 0x0000001F, 0x0000003F, 0x0000007F,
     0x000000FF, 0x000001FF, 0x000003FF, 0x000007FF,
     0x00000FFF, 0x00001FFF, 0x00003FFF, 0x00007FFF,
     0x0000FFFF, 0x0001FFFF, 0x0003FFFF, 0x0007FFFF,
     0x000FFFFF, 0x001FFFFF, 0x003FFFFF, 0x007FFFFF,
     0x00FFFFFF, 0x01FFFFFF, 0x03FFFFFF, 0x07FFFFFF,
     0x0FFFFFFF, 0x1FFFFFFF, 0x3FFFFFFF, 0x7FFFFFFF,
     0xFFFFFFFF]"

definition invbittable :: "u32 list" where
  "invbittable = [
     0xFFFFFFFE, 0xFFFFFFFD, 0xFFFFFFFB, 0xFFFFFFF7,
     0xFFFFFFEF, 0xFFFFFFDF, 0xFFFFFFBF, 0xFFFFFF7F,
     0xFFFFFEFF, 0xFFFFFDFF, 0xFFFFFBFF, 0xFFFFF7FF,
     0xFFFFEFFF, 0xFFFFDFFF, 0xFFFFBFFF, 0xFFFF7FFF,
     0xFFFEFFFF, 0xFFFDFFFF, 0xFFFBFFFF, 0xFFF7FFFF,
     0xFFEFFFFF, 0xFFDFFFFF, 0xFFBFFFFF, 0xFF7FFFFF,
     0xFEFFFFFF, 0xFDFFFFFF, 0xFBFFFFFF, 0xF7FFFFFF,
     0xEFFFFFFF, 0xDFFFFFFF, 0xBFFFFFFF, 0x7FFFFFFF,
     0xFFFFFFFF]"

definition tbl :: "'a list \<Rightarrow> nat \<Rightarrow> 'a outcome" where
  "tbl xs i = (if i < length xs then Inr (xs ! i) else Inl OutOfBounds)"

text \<open>Shifts of an unsigned 32-bit number.\<close>

definition shr :: "u32 \<Rightarrow> nat \<Rightarrow> u32 outcome" where
  "shr w n = (if n < 32 then Inr (drop_bit n w) else Inl Undefined)"

definition shl :: "u32 \<Rightarrow> nat \<Rightarrow> u32 outcome" where
  "shl w n = (if n < 32 then Inr (push_bit n w) else Inl Undefined)"

section \<open>Writing\<close>

record bf_write =
  bw_bits :: u32
  bw_stream :: u32

definition MSG_StartBitWriting :: "sizebuf \<Rightarrow> bf_write" where
  "MSG_StartBitWriting sb = \<lparr>bw_bits = 0, bw_stream = sb_cursize sb\<rparr>"

definition MSG_WriteOneBit :: "bool \<Rightarrow> bf_write \<times> sizebuf \<Rightarrow> (bf_write \<times> sizebuf) outcome" where
  "MSG_WriteOneBit i = (\<lambda>(bw, sb).
     bindE (if bw_bits bw > 7 then
              bindE (SZ_GetSpace sb 1) (\<lambda>(sb', _).
                Inr (\<lparr>bw_bits = 0, bw_stream = bw_stream bw + 1\<rparr>, sb'))
            else Inr (bw, sb)) (\<lambda>(bw, sb).
     if sb_overflow sb AND 2 \<noteq> 0 then Inr (bw, sb)
     else
       bindE (peek (unat (bw_stream bw)) 1 (sb_data sb)) (\<lambda>old.
       bindE (tbl (if i then bittable else invbittable) (unat (bw_bits bw))) (\<lambda>m.
       bindE (poke (unat (bw_stream bw)) [if i then hd old OR ucast m else hd old AND ucast m] (sb_data sb)) (\<lambda>d.
         Inr (bw\<lparr>bw_bits := bw_bits bw + 1\<rparr>, sb\<lparr>sb_data := d\<rparr>))))))"

text \<open>
  \<open>roll\<close> steps to the next byte when the current one is full. \<open>write_low\<close> is the branch of
  \<^verbatim>\<open>MSG_WriteBits\<close> for at most 32 bits from the start of the current byte, \<open>write_spill\<close> the one that
  stores a second word; \<open>i\<close> is 1 when the byte just entered is not reserved yet.
\<close>

definition roll :: "bf_write \<Rightarrow> bf_write" where
  "roll bw = (if bw_bits bw > 7 then \<lparr>bw_bits = 0, bw_stream = bw_stream bw + 1\<rparr> else bw)"

definition write_merged :: "u32 \<Rightarrow> bf_write \<Rightarrow> u8 list \<Rightarrow> u8 list outcome" where
  "write_merged v bw data =
     bindE (load32 (unat (bw_stream bw)) data) (\<lambda>old.
     bindE (tbl rowbittable (unat (bw_bits bw))) (\<lambda>m.
     bindE (shl v (unat (bw_bits bw))) (\<lambda>hi.
       store32 (unat (bw_stream bw)) ((old AND m) OR hi) data)))"

definition write_low :: "u32 \<Rightarrow> u32 \<Rightarrow> u32 \<Rightarrow> bf_write \<Rightarrow> sizebuf \<Rightarrow> (bf_write \<times> sizebuf) outcome" where
  "write_low v j i bw sb =
     (let k = (if j AND 7 = 0 then drop_bit 3 j - 1 else drop_bit 3 j) in
      bindE (SZ_GetSpace sb (i + k)) (\<lambda>(sb', _).
      bindE (write_merged v bw (sb_data sb')) (\<lambda>d.
        Inr (\<lparr>bw_bits = (if j AND 7 = 0 then 8 else j AND 7), bw_stream = bw_stream bw + k\<rparr>,
          sb'\<lparr>sb_data := d\<rparr>))))"

definition write_spill :: "u32 \<Rightarrow> u32 \<Rightarrow> u32 \<Rightarrow> bf_write \<Rightarrow> sizebuf \<Rightarrow> (bf_write \<times> sizebuf) outcome" where
  "write_spill v j i bw sb =
     bindE (SZ_GetSpace sb (i + 4)) (\<lambda>(sb', _).
     bindE (write_merged v bw (sb_data sb')) (\<lambda>d.
     bindE (shr v (unat (32 - bw_bits bw))) (\<lambda>hi.
     bindE (store32 (unat (bw_stream bw + 4)) hi d) (\<lambda>d'.
       Inr (\<lparr>bw_bits = j AND 7, bw_stream = bw_stream bw + 4\<rparr>, sb'\<lparr>sb_data := d'\<rparr>)))))"

definition MSG_WriteBits :: "u32 \<Rightarrow> u32 \<Rightarrow> bf_write \<times> sizebuf \<Rightarrow> (bf_write \<times> sizebuf) outcome" where
  "MSG_WriteBits v0 count = (\<lambda>(bw0, sb).
     bindE (if sint count < 32 then
              bindE (shr v0 (unat count)) (\<lambda>rest.
                if rest \<noteq> 0 then tbl rowbittable (unat count) else Inr v0)
            else Inr v0) (\<lambda>v.
     let i = (if bw_bits bw0 > 7 then 1 else 0); bw = roll bw0; j = bw_bits bw + count
     in if j \<le> 32 then write_low v j i bw sb else write_spill v j i bw sb))"

text \<open>The comparisons and the negations are those of a signed 32-bit integer.\<close>

definition MSG_WriteSBits :: "u32 \<Rightarrow> u32 \<Rightarrow> bf_write \<times> sizebuf \<Rightarrow> (bf_write \<times> sizebuf) outcome" where
  "MSG_WriteSBits v0 count st =
     bindE (if sint count > 31 then
              bindE (shl 1 (unat (count - 1))) (\<lambda>top.
                let m = top - 1 in
                Inr (if sint v0 > sint m then m else if sint v0 < - sint m then - m else v0))
            else Inr v0) (\<lambda>v.
     if sint v \<ge> 0 then bindE (MSG_WriteOneBit False st) (MSG_WriteBits v (count - 1))
     else bindE (MSG_WriteOneBit True st) (MSG_WriteBits (- v) (count - 1)))"

fun MSG_WriteBitData :: "u8 list \<Rightarrow> bf_write \<times> sizebuf \<Rightarrow> (bf_write \<times> sizebuf) outcome" where
  "MSG_WriteBitData [] st = Inr st"
| "MSG_WriteBitData (c # cs) st = bindE (MSG_WriteBits (scast c) 8 st) (MSG_WriteBitData cs)"

fun MSG_WriteBitString :: "u8 list \<Rightarrow> bf_write \<times> sizebuf \<Rightarrow> (bf_write \<times> sizebuf) outcome" where
  "MSG_WriteBitString [] st = MSG_WriteBits 0 8 st"
| "MSG_WriteBitString (c # cs) st = bindE (MSG_WriteBits (scast c) 8 st) (MSG_WriteBitString cs)"

definition MSG_EndBitWriting :: "bf_write \<times> sizebuf \<Rightarrow> (bf_write \<times> sizebuf) outcome" where
  "MSG_EndBitWriting = (\<lambda>(bw, sb).
     if sb_overflow sb AND 2 \<noteq> 0 then Inr (bw, sb)
     else
       bindE (peek (unat (bw_stream bw)) 1 (sb_data sb)) (\<lambda>old.
       bindE (shr 0xFF (unat (8 - bw_bits bw))) (\<lambda>m.
       bindE (poke (unat (bw_stream bw)) [hd old AND ucast m] (sb_data sb)) (\<lambda>d.
       bindE (SZ_GetSpace (sb\<lparr>sb_data := d\<rparr>) 1) (\<lambda>(sb', _).
         Inr (\<lparr>bw_bits = 0, bw_stream = 0\<rparr>, sb'))))))"

section \<open>Reading\<close>

text \<open>
  \<^verbatim>\<open>sz\<close> is the received packet whenever it is not null (every caller passes
  \<^verbatim>\<open>&global_net_message\<close>); \<open>br_open\<close> says it is not null.
\<close>

record bf_read =
  br_readcount :: u32
  br_bytes :: u32
  br_bits :: u32
  br_stream :: u32
  br_open :: bool

definition MSG_StartBitReading :: "netmsg \<Rightarrow> bf_read \<times> netmsg" where
  "MSG_StartBitReading m =
     (let rc = nm_readcount m + 1;
          br = \<lparr>br_readcount = rc, br_bytes = 0, br_bits = 0, br_stream = nm_readcount m, br_open = True\<rparr>
      in (br, if sb_cursize (nm_buf m) < rc then m\<lparr>nm_badread := True\<rparr> else m))"

definition MSG_CurrentBit :: "bf_read \<times> netmsg \<Rightarrow> u32" where
  "MSG_CurrentBit = (\<lambda>(br, m).
     if \<not> br_open br then nm_readcount m * 8 else br_bytes br * 8 + br_bits br)"

text \<open>Both readers step to the next byte when the current one is used up.\<close>

definition next_byte :: "bf_read \<Rightarrow> bf_read" where
  "next_byte br =
     (if br_bits br > 7
      then br\<lparr>br_bits := 0, br_readcount := br_readcount br + 1, br_bytes := br_bytes br + 1,
        br_stream := br_stream br + 1\<rparr>
      else br)"

definition MSG_ReadOneBit :: "bf_read \<times> netmsg \<Rightarrow> (u32 \<times> bf_read \<times> netmsg) outcome" where
  "MSG_ReadOneBit = (\<lambda>(br0, m).
     if nm_badread m then Inr (1, br0, m)
     else (let br = next_byte br0 in
       if \<not> br_open br then Inl BadPointer
       else if sb_cursize (nm_buf m) < br_readcount br then Inr (1, br, m\<lparr>nm_badread := True\<rparr>)
       else
         bindE (peek (unat (br_stream br)) 1 (sb_data (nm_buf m))) (\<lambda>bs.
         bindE (tbl bittable (unat (br_bits br))) (\<lambda>mask.
           Inr (if ucast (hd bs) AND mask \<noteq> 0 then 1 else 0, br\<lparr>br_bits := br_bits br + 1\<rparr>, m)))))"

text \<open>
  In the branch for more than 32 bits the source increments the word under the pointer, not the
  pointer. The last test is shared by both branches.
\<close>

definition read_end :: "u32 \<times> bf_read \<times> netmsg \<Rightarrow> u32 \<times> bf_read \<times> netmsg" where
  "read_end = (\<lambda>(v, br, m).
     if sb_cursize (nm_buf m) < br_readcount br then (1, br, m\<lparr>nm_badread := True\<rparr>) else (v, br, m))"

definition MSG_ReadBits :: "u32 \<Rightarrow> bf_read \<times> netmsg \<Rightarrow> (u32 \<times> bf_read \<times> netmsg) outcome" where
  "MSG_ReadBits count = (\<lambda>(br0, m).
     if nm_badread m then Inr (1, br0, m)
     else (let br = next_byte br0; n = count + br_bits br; off = unat (br_stream br) in
       if \<not> br_open br then Inl BadPointer
       else if sint n > 32 then
         bindE (load32 off (sb_data (nm_buf m))) (\<lambda>w.
         bindE (shr w (unat (br_bits br))) (\<lambda>lo.
         bindE (store32 off (w + 1) (sb_data (nm_buf m))) (\<lambda>d.
         bindE (load32 off d) (\<lambda>w'.
         bindE (tbl rowbittable (unat (n AND 7))) (\<lambda>mask.
         bindE (shl (w' AND mask) (unat (32 - br_bits br))) (\<lambda>hi.
           Inr (read_end (lo OR hi,
             br\<lparr>br_readcount := br_readcount br + 4, br_bytes := br_bytes br + 4, br_bits := n AND 7\<rparr>,
             m\<lparr>nm_buf := (nm_buf m)\<lparr>sb_data := d\<rparr>\<rparr>))))))))
       else
         bindE (load32 off (sb_data (nm_buf m))) (\<lambda>w.
         bindE (shr w (unat (br_bits br))) (\<lambda>lo.
         bindE (tbl rowbittable (unat count)) (\<lambda>mask.
           let k = (if n AND 7 = 0 then signed_drop_bit 3 n - 1 else signed_drop_bit 3 n) in
           Inr (read_end (lo AND mask,
             br\<lparr>br_bits := (if n AND 7 = 0 then 8 else n AND 7), br_readcount := br_readcount br + k,
               br_bytes := br_bytes br + k, br_stream := br_stream br + k\<rparr>, m)))))))"

fun read_bytes_loop :: "nat \<Rightarrow> u8 list \<Rightarrow> bf_read \<times> netmsg \<Rightarrow> (u8 list \<times> bf_read \<times> netmsg) outcome" where
  "read_bytes_loop 0 acc st = Inr (acc, st)"
| "read_bytes_loop (Suc n) acc st =
     bindE (MSG_ReadBits 8 st) (\<lambda>(v, st'). read_bytes_loop n (acc @ [ucast v]) st')"

definition MSG_ReadBitData :: "u32 \<Rightarrow> bf_read \<times> netmsg \<Rightarrow> (u8 list \<times> bf_read \<times> netmsg) outcome" where
  "MSG_ReadBitData n st = read_bytes_loop (unat n) [] st"

text \<open>Only the static record is restored: the bad-read flag and the packet keep what the read did.\<close>

definition MSG_PeekBits :: "u32 \<Rightarrow> bf_read \<times> netmsg \<Rightarrow> (u32 \<times> bf_read \<times> netmsg) outcome" where
  "MSG_PeekBits count = (\<lambda>(br, m). bindE (MSG_ReadBits count (br, m)) (\<lambda>(v, _, m'). Inr (v, br, m')))"

definition MSG_ReadSBits :: "u32 \<Rightarrow> bf_read \<times> netmsg \<Rightarrow> (u32 \<times> bf_read \<times> netmsg) outcome" where
  "MSG_ReadSBits count st =
     bindE (MSG_ReadOneBit st) (\<lambda>(sign, st1).
     bindE (MSG_ReadBits (count - 1) st1) (\<lambda>(v, st2).
       Inr (if sign \<noteq> 0 then - v else v, st2)))"

definition MSG_EndBitReading :: "bf_read \<times> netmsg \<Rightarrow> bf_read \<times> netmsg" where
  "MSG_EndBitReading = (\<lambda>(br, m).
     (\<lparr>br_readcount = br_readcount br, br_bytes = 0, br_bits = 0, br_stream = 0, br_open = False\<rparr>,
      m\<lparr>nm_badread := nm_badread m \<or> sb_cursize (nm_buf m) < br_readcount br, nm_readcount := br_readcount br\<rparr>))"

definition MSG_BitOpsInit :: "bf_read \<times> bf_write" where
  "MSG_BitOpsInit = (\<lparr>br_readcount = 0, br_bytes = 0, br_bits = 0, br_stream = 0, br_open = False\<rparr>,
     \<lparr>bw_bits = 0, bw_stream = 0\<rparr>)"

section \<open>Bits of a byte array\<close>

definition sbit :: "u8 list \<Rightarrow> nat \<Rightarrow> bool" where
  "sbit d i = bit (d ! (i div 8)) (i mod 8)"

lemma sbit_at: "m < 8 \<Longrightarrow> sbit d (8 * k + m) = bit (d ! k) m"
  by (simp add: sbit_def)

lemma take4: "off + 4 \<le> length d \<Longrightarrow> take 4 (drop off d) = [d ! off, d ! (off + 1), d ! (off + 2), d ! (off + 3)]"
  by (rule nth_equalityI) (auto simp: less_Suc_eq numeral_eq_Suc nth_Cons')

lemma bit_word32_of:
  assumes "n < 32"
  shows "bit (word32_of [a, b, c, d]) n = bit ([a, b, c, d] ! (n div 8)) (n mod 8)"
proof -
  obtain q r where n: "n = 8 * q + r" "r < 8"
    by (metis div_mult_mod_eq mod_less_divisor mult.commute zero_less_numeral)
  have dm: "n div 8 = q" "n mod 8 = r"
    using n by simp_all
  have "q \<in> {0, 1, 2, 3}"
    using assms n by auto
  then show ?thesis
    using n unfolding dm word32_of.simps bit_or_iff bit_push_bit_iff bit_unsigned_iff
    by (elim insertE emptyE) (simp_all add: bit_u8_beyond)
qed

lemma load32_bit:
  assumes "load32 off d = Inr w" and "n < 32"
  shows "bit w n = sbit d (8 * off + n)"
proof -
  have off: "off + 4 \<le> length d" and w: "w = word32_of [d ! off, d ! (off + 1), d ! (off + 2), d ! (off + 3)]"
    using assms(1) take4 [of off d] by (auto simp: load32_def peek_def split: if_splits)
  have "n div 8 \<in> {0, 1, 2, 3}"
    using assms(2) by auto
  then show ?thesis
    using bit_word32_of [OF assms(2)] by (auto simp: w sbit_def simp del: word32_of.simps)
qed

lemma bit_bytes32:
  assumes "k < 4" and "m < 8"
  shows "bit (bytes32 w ! k) m = bit w (8 * k + m)"
proof -
  have "k \<in> {0, 1, 2, 3}"
    using assms(1) by auto
  then show ?thesis
    using assms(2) by (auto simp: bytes32_def bit_simps add.commute)
qed

lemma poke_nth:
  assumes "poke off bs d = Inr d'" and "j < length d"
  shows "d' ! j = (if off \<le> j \<and> j < off + length bs then bs ! (j - off) else d ! j)"
  using assms by (auto simp: poke_Inr nth_append)

lemma store32_bit:
  assumes "store32 off w d = Inr d'" and "i < 8 * length d"
  shows "sbit d' i = (if 8 * off \<le> i \<and> i < 8 * off + 32 then bit w (i - 8 * off) else sbit d i)"
proof -
  obtain j m where i: "i = 8 * j + m" "m < 8"
    by (metis div_mult_mod_eq mod_less_divisor mult.commute zero_less_numeral)
  have j: "j < length d"
    using assms(2) i by simp
  have nth: "d' ! j = (if off \<le> j \<and> j < off + 4 then bytes32 w ! (j - off) else d ! j)"
    using poke_nth [OF assms(1) [unfolded store32_def] j] by simp
  have range: "8 * off \<le> i \<and> i < 8 * off + 32 \<longleftrightarrow> off \<le> j \<and> j < off + 4"
    using i by auto
  show ?thesis
  proof (cases "off \<le> j \<and> j < off + 4")
    case True
    then have "bit (bytes32 w ! (j - off)) m = bit w (i - 8 * off)"
      using i by (subst bit_bytes32) (auto simp: diff_mult_distrib2)
    then show ?thesis
      using True range nth i by (simp add: sbit_at)
  next
    case False
    then have "d' ! j = d ! j" and "\<not> (8 * off \<le> i \<and> i < 8 * off + 32)"
      using range nth by auto
    then show ?thesis
      using i by (simp only: sbit_at if_False)
  qed
qed

lemma poke1_bit:
  assumes "poke off [b] d = Inr d'" and "i < 8 * length d"
  shows "sbit d' i = (if i div 8 = off then bit b (i mod 8) else sbit d i)"
proof -
  have "i div 8 < length d"
    using assms(2) by auto
  from poke_nth [OF assms(1) this] show ?thesis
    by (auto simp: sbit_def)
qed

lemma length_store32: "store32 off w d = Inr d' \<Longrightarrow> length d' = length d"
  by (simp add: store32_def length_poke)

lemma store32_total: "off + 4 \<le> length d \<Longrightarrow> \<exists>d'. store32 off w d = Inr d'"
  by (simp add: store32_def poke_total)

section \<open>The tables are masks\<close>

lemma rowbittable_mask:
  assumes "n \<le> 32"
  shows "rowbittable ! n = mask n"
proof -
  have "\<forall>n \<in> set [0..<33]. rowbittable ! n = mask n"
    by (simp add: rowbittable_def upt_rec mask_eq_exp_minus_1)
  then show ?thesis using assms by simp
qed

lemma bittable_bit:
  assumes "n < 32"
  shows "bittable ! n = push_bit n 1"
proof -
  have "\<forall>n \<in> set [0..<32]. bittable ! n = push_bit n 1"
    by (simp add: bittable_def upt_rec push_bit_eq_mult)
  then show ?thesis using assms by simp
qed

lemma invbittable_bit:
  assumes "n < 32"
  shows "invbittable ! n = NOT (push_bit n 1)"
proof -
  have "\<forall>n \<in> set [0..<32]. invbittable ! n = NOT (push_bit n 1)"
    by (simp add: invbittable_def upt_rec push_bit_eq_mult)
  then show ?thesis using assms by simp
qed

lemma tbl_lengths [simp]: "length rowbittable = 33" "length bittable = 33" "length invbittable = 33"
  by (simp_all add: rowbittable_def bittable_def invbittable_def)

lemma tbl_rowbits: "n \<le> 32 \<Longrightarrow> tbl rowbittable n = Inr (mask n)"
  by (simp add: tbl_def rowbittable_mask)

section \<open>The writer appends bits\<close>

text \<open>
  \<open>bits_inv b0 bs\<close>: since the stream was opened at byte \<open>b0\<close> exactly the bits \<open>bs\<close> have been
  written, the next one goes to the position after them, and the buffer's size is the offset of
  the byte in progress.
\<close>

definition bits_inv :: "nat \<Rightarrow> bool list \<Rightarrow> bf_write \<times> sizebuf \<Rightarrow> bool" where
  "bits_inv b0 bs = (\<lambda>(bw, sb).
     sz_wf sb \<and> sb_overflow sb AND 2 = 0 \<and> unat (bw_bits bw) \<le> 8 \<and> bw_stream bw = sb_cursize sb \<and>
     8 * unat (bw_stream bw) + unat (bw_bits bw) = 8 * b0 + length bs \<and>
     (\<forall>i < length bs. sbit (sb_data sb) (8 * b0 + i) = bs ! i))"

definition bits_of :: "nat \<Rightarrow> u32 \<Rightarrow> bool list" where
  "bits_of n v = map (bit v) [0..<n]"

text \<open>What the writer does to a value too large for its width.\<close>

definition saturated :: "nat \<Rightarrow> u32 \<Rightarrow> u32" where
  "saturated n v = (if n < 32 \<and> drop_bit n v \<noteq> 0 then mask n else v)"

lemma length_bits_of [simp]: "length (bits_of n v) = n"
  by (simp add: bits_of_def)

lemma get_space:
  assumes "sz_wf sb" and "unat (sb_cursize sb) + unat w \<le> unat (sb_maxsize sb)"
  shows "SZ_GetSpace sb w = Inr (sb\<lparr>sb_cursize := sb_cursize sb + w\<rparr>, unat (sb_cursize sb))"
    and "unat (sb_cursize sb + w) = unat (sb_cursize sb) + unat w"
    and "sz_wf (sb\<lparr>sb_cursize := sb_cursize sb + w\<rparr>)"
proof -
  have "unat w \<le> sz_room sb"
    using assms by (simp add: sz_room_le)
  from SZ_GetSpace_fits [OF assms(1) this]
  show "SZ_GetSpace sb w = Inr (sb\<lparr>sb_cursize := sb_cursize sb + w\<rparr>, unat (sb_cursize sb))"
    by simp
  show *: "unat (sb_cursize sb + w) = unat (sb_cursize sb) + unat w"
    using unat_add_below [OF assms(2)] by simp
  show "sz_wf (sb\<lparr>sb_cursize := sb_cursize sb + w\<rparr>)"
    using assms * by (simp add: sz_wf_nat)
qed

lemma saturate_step:
  assumes "unat (count :: u32) \<le> 32"
  shows "(if sint count < 32 then
      bindE (shr v0 (unat count)) (\<lambda>rest. if rest \<noteq> 0 then tbl rowbittable (unat count) else Inr v0)
    else Inr v0) = Inr (saturated (unat count) v0)"
proof -
  have "sint count = int (unat count)"
    using assms by (intro sint_u32_small) simp
  then have "sint count < 32 \<longleftrightarrow> unat count < 32"
    by linarith
  then show ?thesis
    using assms by (simp add: saturated_def shr_def tbl_rowbits)
qed

lemma write_merged_bits:
  assumes "unat (bw_bits bw) < 8" and "unat (bw_stream bw) + 4 \<le> length d"
  obtains d' where "write_merged v bw d = Inr d'" "length d' = length d"
    "\<And>q. q < 8 * length d \<Longrightarrow> sbit d' q =
      (if 8 * unat (bw_stream bw) + unat (bw_bits bw) \<le> q \<and> q < 8 * unat (bw_stream bw) + 32
       then bit v (q - (8 * unat (bw_stream bw) + unat (bw_bits bw))) else sbit d q)"
proof -
  let ?s = "unat (bw_stream bw)" and ?b = "unat (bw_bits bw)"
  obtain old where old: "load32 ?s d = Inr old"
    using load32_total [OF assms(2)] by blast
  let ?w = "(old AND mask ?b) OR push_bit ?b v"
  obtain d' where d': "store32 ?s ?w d = Inr d'"
    using store32_total [OF assms(2)] by blast
  have "write_merged v bw d = Inr d'"
    using assms(1) old d' by (simp add: write_merged_def tbl_rowbits shl_def)
  moreover have "sbit d' q = (if 8 * ?s + ?b \<le> q \<and> q < 8 * ?s + 32 then bit v (q - (8 * ?s + ?b)) else sbit d q)"
    if "q < 8 * length d" for q
  proof (cases "8 * ?s \<le> q \<and> q < 8 * ?s + 32")
    case True
    then obtain n where n: "q = 8 * ?s + n" "n < 32"
      by (metis add_less_cancel_left le_Suc_ex)
    have "bit ?w n = (if n < ?b then bit old n else bit v (n - ?b))"
      using n(2) by (auto simp: bit_simps bit_mask_iff)
    moreover have "bit old n = sbit d (8 * ?s + n)"
      by (rule load32_bit [OF old n(2)])
    ultimately show ?thesis
      using store32_bit [OF d' that] n by auto
  next
    case False
    then show ?thesis
      using store32_bit [OF d' that] by auto
  qed
  ultimately show thesis
    using that length_store32 [OF d'] by blast
qed

text \<open>Stepping to the next byte keeps the position.\<close>

lemma roll_position:
  assumes "unat (bw_bits bw) \<le> 8" and "unat (bw_stream bw) + 1 < 2 ^ 32"
  shows "unat (bw_bits (roll bw)) < 8"
    and "8 * unat (bw_stream (roll bw)) + unat (bw_bits (roll bw)) = 8 * unat (bw_stream bw) + unat (bw_bits bw)"
    and "unat (bw_stream (roll bw)) = unat (bw_stream bw) + (if bw_bits bw > 7 then 1 else 0)"
proof -
  have "unat (bw_stream bw + 1) = unat (bw_stream bw) + 1"
    using assms(2) by (simp add: unat_u32_add)
  then show "unat (bw_bits (roll bw)) < 8"
    and "8 * unat (bw_stream (roll bw)) + unat (bw_bits (roll bw)) = 8 * unat (bw_stream bw) + unat (bw_bits bw)"
    and "unat (bw_stream (roll bw)) = unat (bw_stream bw) + (if bw_bits bw > 7 then 1 else 0)"
    using assms(1) by (auto simp: roll_def word_less_nat_alt)
qed

lemma unat_mult_8_step:
  fixes j :: u32
  assumes "1 \<le> unat j"
  defines "k \<equiv> (if j AND 7 = 0 then drop_bit 3 j - 1 else drop_bit 3 j)"
    and "r \<equiv> (if j AND 7 = 0 then 8 else j AND 7)"
  shows "8 * unat k + unat r = unat j" and "unat r \<le> 8" and "unat k \<le> unat j div 8" and "1 \<le> unat r"
proof -
  have z: "j AND 7 = 0 \<longleftrightarrow> unat j mod 8 = 0"
    using unat_and_7 [of j] by (metis unat_eq_zero)
  have m: "unat (drop_bit 3 j - 1) = unat j div 8 - 1" if "unat j mod 8 = 0"
  proof -
    have "1 \<le> unat j div 8"
      using that assms(1) by auto
    then show ?thesis
      using unat_drop_3 [of j] by (simp add: unat_sub word_le_nat_alt)
  qed
  show "8 * unat k + unat r = unat j"
    using z m assms(1) by (auto simp: k_def r_def unat_drop_3 unat_and_7)
  show "unat r \<le> 8"
    using z by (auto simp: r_def unat_and_7)
  show "unat k \<le> unat j div 8"
    using z m by (auto simp: k_def unat_drop_3)
  show "1 \<le> unat r"
    using z by (auto simp: r_def unat_and_7)
qed

text \<open>The bits already written survive a change from the current position on.\<close>

lemma stream_bits_append:
  assumes "\<And>q. q < 8 * length d \<Longrightarrow> p \<le> q \<Longrightarrow> q < p + n \<Longrightarrow> sbit d' q = bit v (q - p)"
    and "\<And>q. q < p \<Longrightarrow> q < 8 * length d \<Longrightarrow> sbit d' q = sbit d q"
    and "\<forall>i < length bs. sbit d (8 * b0 + i) = bs ! i" and "p = 8 * b0 + length bs"
    and "p + n \<le> 8 * length d"
  shows "\<forall>i < length (bs @ bits_of n v). sbit d' (8 * b0 + i) = (bs @ bits_of n v) ! i"
proof (intro allI impI)
  fix i assume i: "i < length (bs @ bits_of n v)"
  show "sbit d' (8 * b0 + i) = (bs @ bits_of n v) ! i"
  proof (cases "i < length bs")
    case True
    then show ?thesis
      using assms(2) [of "8 * b0 + i"] assms(3-5) by (simp add: nth_append)
  next
    case False
    then show ?thesis
      using assms(1) [of "8 * b0 + i"] assms(4,5) i by (simp add: nth_append bits_of_def)
  qed
qed

text \<open>The same for a change in two words, the second one holding the bits that did not fit.\<close>

lemma spill_bits:
  assumes d': "store32 (unat (s' :: u32)) (drop_bit (32 - b) v) d = Inr d'" and len: "length d = length d0"
    and s: "unat s' = s + 4" and b: "b < 8" and n: "n \<le> 32"
    and d: "\<And>q. q < 8 * length d0 \<Longrightarrow> sbit d q = (if 8 * b0 + length bs \<le> q \<and> q < 8 * s + 32
      then bit v (q - (8 * b0 + length bs)) else sbit d0 q)"
    and pos: "8 * s + b = 8 * b0 + length bs" and room: "s + 8 \<le> length d0"
    and old: "\<forall>k < length bs. sbit d0 (8 * b0 + k) = bs ! k"
  shows "\<forall>q < length (bs @ bits_of n v). sbit d' (8 * b0 + q) = (bs @ bits_of n v) ! q"
proof (rule stream_bits_append [OF _ _ old refl])
  let ?p = "8 * b0 + length bs"
  show "?p + n \<le> 8 * length d0"
    using b n pos room by linarith
  have split: "sbit d' q = (if 8 * s + 32 \<le> q \<and> q < 8 * s + 64
      then bit (drop_bit (32 - b) v) (q - (8 * s + 32)) else sbit d q)" if "q < 8 * length d0" for q
    using store32_bit [OF d', of q] that len s by simp
  show "sbit d' q = bit v (q - ?p)" if q: "q < 8 * length d0" "?p \<le> q" "q < ?p + n" for q
  proof (cases "8 * s + 32 \<le> q")
    case True
    then have "q < 8 * s + 64" "32 - b + (q - (8 * s + 32)) = q - ?p"
      using q(3) b pos n by auto
    then show ?thesis
      using split [OF q(1)] True by (simp add: bit_drop_bit_eq)
  next
    case False
    then show ?thesis
      using split [OF q(1)] d [OF q(1)] q(2) by simp
  qed
  show "sbit d' q = sbit d0 q" if "q < ?p" "q < 8 * length d0" for q
    using split [OF that(2)] d [OF that(2)] that(1) b pos by auto
qed

text \<open>The state inside \<^verbatim>\<open>MSG_WriteBits\<close>, after the step to the next byte.\<close>

definition rolled_inv :: "nat \<Rightarrow> bool list \<Rightarrow> u32 \<Rightarrow> bf_write \<Rightarrow> sizebuf \<Rightarrow> bool" where
  "rolled_inv b0 bs i bw sb \<longleftrightarrow>
     sz_wf sb \<and> sb_overflow sb AND 2 = 0 \<and> unat (bw_bits bw) < 8 \<and> unat i \<le> 1 \<and>
     (bw_bits bw \<noteq> 0 \<longrightarrow> i = 0) \<and> bw_stream bw = sb_cursize sb + i \<and>
     unat (bw_stream bw) = unat (sb_cursize sb) + unat i \<and>
     8 * unat (bw_stream bw) + unat (bw_bits bw) = 8 * b0 + length bs \<and>
     (\<forall>k < length bs. sbit (sb_data sb) (8 * b0 + k) = bs ! k)"

lemma roll_inv:
  assumes "bits_inv b0 bs (bw, sb)" and "unat (sb_cursize sb) + 9 \<le> unat (sb_maxsize sb)"
  shows "rolled_inv b0 bs (if bw_bits bw > 7 then 1 else 0) (roll bw) sb"
proof -
  have b8: "unat (bw_bits bw) \<le> 8" and cur: "bw_stream bw = sb_cursize sb"
    using assms(1) by (simp_all add: bits_inv_def)
  have "unat (bw_stream bw) + 1 < 2 ^ 32"
    using assms(2) unat_u32_lt [of "sb_maxsize sb"] cur by simp
  note r = roll_position [OF b8 this]
  show ?thesis
    using assms(1) r cur unfolding rolled_inv_def bits_inv_def prod.case
    by (auto simp: roll_def split: if_splits)
qed

text \<open>The merged word holds the bits already written below the position and the new ones above.\<close>

lemma rolled_merge:
  assumes "rolled_inv b0 bs i bw sb" and "unat (sb_cursize sb) + 9 \<le> unat (sb_maxsize sb)"
  obtains d where "write_merged v bw (sb_data sb) = Inr d" "length d = length (sb_data sb)"
    "\<And>q. q < 8 * length (sb_data sb) \<Longrightarrow> sbit d q =
      (if 8 * b0 + length bs \<le> q \<and> q < 8 * unat (bw_stream bw) + 32 then bit v (q - (8 * b0 + length bs))
       else sbit (sb_data sb) q)"
proof -
  have "unat (bw_bits bw) < 8" and pos: "8 * unat (bw_stream bw) + unat (bw_bits bw) = 8 * b0 + length bs"
    and "unat (bw_stream bw) = unat (sb_cursize sb) + unat i" "unat i \<le> 1" "unat (sb_maxsize sb) \<le> length (sb_data sb)"
    using assms(1) unfolding rolled_inv_def sz_wf_nat by blast+
  moreover from this have "unat (bw_stream bw) + 4 \<le> length (sb_data sb)"
    using assms(2) by linarith
  ultimately show thesis
    using write_merged_bits [of bw "sb_data sb" v thesis] that by metis
qed

lemma write_low_step:
  assumes inv: "rolled_inv b0 bs i bw sb" and n: "1 \<le> n" "unat j = unat (bw_bits bw) + n" "unat j \<le> 32"
    and room: "unat (sb_cursize sb) + 9 \<le> unat (sb_maxsize sb)"
  shows "\<exists>st'. write_low v j i bw sb = Inr st' \<and> bits_inv b0 (bs @ bits_of n v) st'
    \<and> sb_maxsize (snd st') = sb_maxsize sb"
proof -
  let ?p = "8 * b0 + length bs"
  have wf: "sz_wf sb" and ov: "sb_overflow sb AND 2 = 0" and b8: "unat (bw_bits bw) < 8" and i1: "unat i \<le> 1"
    and cur: "bw_stream bw = sb_cursize sb + i" and i: "unat (bw_stream bw) = unat (sb_cursize sb) + unat i"
    and pos: "8 * unat (bw_stream bw) + unat (bw_bits bw) = ?p"
    and old: "\<forall>k < length bs. sbit (sb_data sb) (8 * b0 + k) = bs ! k"
    using inv unfolding rolled_inv_def by blast+
  have cap: "unat (sb_maxsize sb) \<le> length (sb_data sb)"
    using wf by (simp add: sz_wf_nat)
  obtain d where d: "write_merged v bw (sb_data sb) = Inr d" "length d = length (sb_data sb)"
    "\<And>q. q < 8 * length (sb_data sb) \<Longrightarrow> sbit d q = (if ?p \<le> q \<and> q < 8 * unat (bw_stream bw) + 32
      then bit v (q - ?p) else sbit (sb_data sb) q)"
    using rolled_merge [OF inv room] by blast
  define k where "k = (if j AND 7 = 0 then drop_bit 3 j - 1 else drop_bit 3 j)"
  define rest where "rest = (if j AND 7 = 0 then 8 else j AND 7)"
  have k: "8 * unat k + unat rest = unat j" "unat rest \<le> 8" "unat k \<le> 4"
    using unat_mult_8_step [of j] n by (simp_all add: k_def rest_def)
  have ik: "unat (i + k) = unat i + unat k"
    using k(3) i1 by (simp add: unat_u32_add)
  have "unat (sb_cursize sb) + unat (i + k) \<le> unat (sb_maxsize sb)"
    using room k(3) ik i1 by simp
  note g = get_space [OF wf this]
  have "write_low v j i bw sb = Inr (\<lparr>bw_bits = rest, bw_stream = bw_stream bw + k\<rparr>,
      sb\<lparr>sb_cursize := sb_cursize sb + (i + k)\<rparr>\<lparr>sb_data := d\<rparr>)"
    unfolding write_low_def Let_def using g(1) d(1) by (simp add: k_def [symmetric] rest_def [symmetric])
  moreover have "8 * unat (sb_cursize sb + (i + k)) + unat rest = 8 * b0 + length bs + n"
    using g(2) ik i k(1) n(2) pos by simp
  moreover have "\<forall>q < length (bs @ bits_of n v). sbit d (8 * b0 + q) = (bs @ bits_of n v) ! q"
  proof (rule stream_bits_append [OF _ _ old refl])
    show "?p + n \<le> 8 * length (sb_data sb)"
      using b8 pos n(2,3) i i1 room cap by linarith
  qed (use d(3) n pos in \<open>auto\<close>)
  ultimately show ?thesis
    using g(3) ov k(2) d(2) cur by (simp add: bits_inv_def sz_wf_nat add.assoc)
qed

lemma write_spill_step:
  assumes inv: "rolled_inv b0 bs i bw sb"
    and n: "unat j = unat (bw_bits bw) + n" "32 < unat j" "n \<le> 32"
    and room: "unat (sb_cursize sb) + 9 \<le> unat (sb_maxsize sb)"
  shows "\<exists>st'. write_spill v j i bw sb = Inr st' \<and> bits_inv b0 (bs @ bits_of n v) st'
    \<and> sb_maxsize (snd st') = sb_maxsize sb"
proof -
  let ?p = "8 * b0 + length bs" and ?s = "unat (bw_stream bw)" and ?b = "unat (bw_bits bw)"
  have wf: "sz_wf sb" and ov: "sb_overflow sb AND 2 = 0" and b8: "?b < 8" and i0: "bw_bits bw \<noteq> 0 \<longrightarrow> i = 0"
    and cur: "bw_stream bw = sb_cursize sb + i" and pos: "8 * ?s + ?b = ?p"
    and old: "\<forall>k < length bs. sbit (sb_data sb) (8 * b0 + k) = bs ! k"
    using inv unfolding rolled_inv_def by blast+
  have b1: "1 \<le> ?b"
    using n by simp
  then have "i = 0"
    using i0 by auto
  have cap: "unat (sb_maxsize sb) \<le> length (sb_data sb)"
    using wf by (simp add: sz_wf_nat)
  obtain d where d: "write_merged v bw (sb_data sb) = Inr d" "length d = length (sb_data sb)"
    "\<And>q. q < 8 * length (sb_data sb) \<Longrightarrow> sbit d q = (if ?p \<le> q \<and> q < 8 * ?s + 32
      then bit v (q - ?p) else sbit (sb_data sb) q)"
    using rolled_merge [OF inv room] by blast
  have "unat (sb_cursize sb) + unat (4 :: u32) \<le> unat (sb_maxsize sb)"
    using room by simp
  note g = get_space [OF wf this]
  have s4: "unat (bw_stream bw + 4) = ?s + 4"
    using g(2) cur \<open>i = 0\<close> by simp
  have sub: "unat (32 - bw_bits bw) = 32 - ?b"
    using b8 by (simp add: unat_sub word_le_nat_alt)
  let ?hi = "drop_bit (32 - ?b) v"
  obtain d' where d': "store32 (unat (bw_stream bw + 4)) ?hi d = Inr d'"
    using store32_total [of "unat (bw_stream bw + 4)" d] s4 cur \<open>i = 0\<close> room cap d(2) by auto
  have "write_spill v j i bw sb = Inr (\<lparr>bw_bits = j AND 7, bw_stream = bw_stream bw + 4\<rparr>,
      sb\<lparr>sb_cursize := sb_cursize sb + 4\<rparr>\<lparr>sb_data := d'\<rparr>)"
    unfolding write_spill_def using g(1) d(1) d' b1 \<open>i = 0\<close> by (simp add: shr_def sub)
  moreover have "8 * unat (sb_cursize sb + 4) + unat (j AND 7) = 8 * b0 + length bs + n"
  proof -
    have "unat j mod 8 = unat j - 32"
      using n b8 by (simp add: mod_if)
    then show ?thesis
      using g(2) cur \<open>i = 0\<close> n pos unat_and_7 [of j] by simp
  qed
  moreover have "\<forall>q < length (bs @ bits_of n v). sbit d' (8 * b0 + q) = (bs @ bits_of n v) ! q"
    using spill_bits [OF d' d(2) s4 b8 n(3) d(3) pos _ old] room cap cur \<open>i = 0\<close> by simp
  ultimately show ?thesis
    using g(3) ov d(2) length_store32 [OF d'] cur \<open>i = 0\<close> by (simp add: bits_inv_def sz_wf_nat unat_and_7)
qed

lemma WriteBits_step:
  assumes inv: "bits_inv b0 bs st" and n: "1 \<le> unat count" "unat count \<le> 32"
    and room: "unat (sb_cursize (snd st)) + 9 \<le> unat (sb_maxsize (snd st))"
  shows "\<exists>st'. MSG_WriteBits v0 count st = Inr st'
    \<and> bits_inv b0 (bs @ bits_of (unat count) (saturated (unat count) v0)) st'
    \<and> sb_maxsize (snd st') = sb_maxsize (snd st)"
proof -
  obtain bw0 sb where st: "st = (bw0, sb)"
    by (cases st)
  let ?j = "bw_bits (roll bw0) + count" and ?i = "(if bw_bits bw0 > 7 then 1 else 0) :: u32"
  let ?v = "saturated (unat count) v0"
  have r: "rolled_inv b0 bs ?i (roll bw0) sb"
    using roll_inv inv room st by simp
  then have j: "unat ?j = unat (bw_bits (roll bw0)) + unat count"
    using n(2) by (intro unat_u32_add) (simp add: rolled_inv_def)
  have "MSG_WriteBits v0 count st =
      (if ?j \<le> 32 then write_low ?v ?j ?i (roll bw0) sb else write_spill ?v ?j ?i (roll bw0) sb)"
    unfolding MSG_WriteBits_def st prod.case saturate_step [OF n(2)] bindE_simps Let_def by simp
  then show ?thesis
    using write_low_step [OF r n(1) j] write_spill_step [OF r j _ n(2)] room st
    by (simp add: word_le_nat_alt not_le)
qed

section \<open>The reader takes them off\<close>

text \<open>
  \<open>read_inv p\<close>: the next bit the reader delivers is bit \<open>p\<close> of the packet's array.
\<close>

definition read_inv :: "nat \<Rightarrow> bf_read \<times> netmsg \<Rightarrow> bool" where
  "read_inv p = (\<lambda>(br, m).
     br_open br \<and> \<not> nm_badread m \<and> unat (br_bits br) \<le> 8 \<and>
     8 * unat (br_stream br) + unat (br_bits br) = p \<and> br_readcount br = br_stream br + 1)"

text \<open>The number whose low bits are the \<open>n\<close> bits of the array from position \<open>p\<close>.\<close>

definition bits_at :: "u8 list \<Rightarrow> nat \<Rightarrow> nat \<Rightarrow> bool list" where
  "bits_at d p n = map (\<lambda>i. sbit d (p + i)) [0..<n]"

lemma bits_of_eq:
  assumes "bits_of n v = bits_of n w"
  shows "take_bit n v = take_bit n w"
proof (rule bit_word_eqI)
  fix i
  show "bit (take_bit n v) i = bit (take_bit n w) i"
    using nth_map [of i "[0..<n]" "bit v"] nth_map [of i "[0..<n]" "bit w"] assms
    by (cases "i < n") (auto simp: bit_take_bit_iff bits_of_def)
qed

lemma next_byte_inv:
  assumes "read_inv p (br, m)" and "p div 8 + 2 < 2 ^ 32"
  shows "read_inv p (next_byte br, m)" and "unat (br_bits (next_byte br)) < 8"
    and "unat (br_stream (next_byte br)) = p div 8" and "unat (br_bits (next_byte br)) = p mod 8"
proof -
  have p: "8 * unat (br_stream br) + unat (br_bits br) = p" and b: "unat (br_bits br) \<le> 8"
    using assms(1) by (simp_all add: read_inv_def)
  then have "unat (br_stream br) + 1 < 2 ^ 32"
    using assms(2) by linarith
  then have s: "unat (br_stream br + 1) = unat (br_stream br) + 1"
    by (simp add: unat_u32_add)
  show inv: "read_inv p (next_byte br, m)" and b8: "unat (br_bits (next_byte br)) < 8"
    using assms(1) p b s unfolding read_inv_def next_byte_def prod.case
    by (auto simp: word_less_nat_alt)
  have "8 * unat (br_stream (next_byte br)) + unat (br_bits (next_byte br)) = p"
    using inv by (simp add: read_inv_def)
  then show "unat (br_stream (next_byte br)) = p div 8" and "unat (br_bits (next_byte br)) = p mod 8"
    using b8 by auto
qed

lemma signed_drop_bit_small:
  assumes "unat (w :: u32) < 2 ^ 31"
  shows "signed_drop_bit k w = drop_bit k w"
proof -
  have top: "\<not> bit w 31"
  proof -
    have "w div 2 ^ 31 = 0"
      using assms by (simp add: word_unat_eq_iff unat_div)
    then show ?thesis by (simp add: bit_iff_odd)
  qed
  show ?thesis
  proof (rule bit_word_eqI)
    fix n assume "n < LENGTH(32)"
    then show "bit (signed_drop_bit k w) n = bit (drop_bit k w) n"
      using bit_imp_le_length [of w "k + n"] top by (auto simp: bit_simps)
  qed
qed

lemma div8_ceil:
  assumes "8 * a + b = p" and "8 * k + r = b + n" and "1 \<le> r" and "r \<le> 8"
  shows "a + k + 1 = (p + n + 7) div (8 :: nat)"
proof -
  have "p + n + 7 = (r - 1) + 8 * (a + k + 1)" and "r - 1 < 8"
    using assms by simp_all
  then show ?thesis by simp
qed

lemma div8_up:
  assumes "m \<le> 8 * c"
  shows "(m + 7) div 8 \<le> (c :: nat)"
proof -
  have "(m + 7) div 8 \<le> (8 * c + 7) div 8"
    using assms by (intro div_le_mono) simp
  then show ?thesis by simp
qed

lemma word_bits_at:
  assumes "load32 off d = Inr w" and "b + n \<le> 32"
  shows "bits_of n (drop_bit b w AND mask n) = bits_at d (8 * off + b) n"
proof (rule nth_equalityI)
  fix i assume "i < length (bits_of n (drop_bit b w AND mask n))"
  then show "bits_of n (drop_bit b w AND mask n) ! i = bits_at d (8 * off + b) n ! i"
    using load32_bit [OF assms(1), of "b + i"] assms(2)
    by (simp add: bits_of_def bits_at_def bit_simps bit_mask_iff add.assoc)
qed (simp add: bits_at_def)

lemma ReadBits_step:
  assumes inv: "read_inv p (br0, m)" and n: "1 \<le> unat count" "p mod 8 + unat count \<le> 32"
    and room: "p div 8 + 4 \<le> length (sb_data (nm_buf m))"
    and inside: "(p + unat count + 7) div 8 \<le> unat (sb_cursize (nm_buf m))" and small: "p div 8 + 8 < 2 ^ 32"
  shows "\<exists>v br'. MSG_ReadBits count (br0, m) = Inr (v, br', m) \<and> read_inv (p + unat count) (br', m)
    \<and> bits_of (unat count) v = bits_at (sb_data (nm_buf m)) p (unat count) \<and> take_bit (unat count) v = v"
proof -
  let ?br = "next_byte br0" and ?n = "unat count" and ?d = "sb_data (nm_buf m)"
  let ?j = "count + br_bits ?br"
  have "p div 8 + 2 < 2 ^ 32"
    using small by simp
  note nb = next_byte_inv [OF inv this]
  have op: "br_open ?br" "\<not> nm_badread m" and rc: "br_readcount ?br = br_stream ?br + 1"
    using nb(1) by (simp_all add: read_inv_def)
  have j: "unat ?j = p mod 8 + ?n"
    using nb(4) n(2) by (simp add: unat_u32_add)
  have sj: "\<not> sint ?j > 32"
  proof -
    have "sint ?j = int (unat ?j)"
      using j n(2) by (intro sint_u32_small) simp
    then show ?thesis
      using j n(2) by linarith
  qed
  have sd: "signed_drop_bit 3 ?j = drop_bit 3 ?j"
    using j n(2) by (intro signed_drop_bit_small) simp
  obtain w where w: "load32 (p div 8) ?d = Inr w"
    using load32_total [OF room] by blast
  define k where "k = (if ?j AND 7 = 0 then drop_bit 3 ?j - 1 else drop_bit 3 ?j)"
  define rest where "rest = (if ?j AND 7 = 0 then 8 else ?j AND 7)"
  have k: "8 * unat k + unat rest = unat ?j" "unat rest \<le> 8" "unat k \<le> 4" "1 \<le> unat rest"
    using unat_mult_8_step [of ?j] j n by (simp_all add: k_def rest_def)
  let ?br' = "?br\<lparr>br_bits := rest, br_readcount := br_readcount ?br + k,
    br_bytes := br_bytes ?br + k, br_stream := br_stream ?br + k\<rparr>"
  let ?v = "drop_bit (p mod 8) w AND mask ?n"
  have s': "unat (br_stream ?br + k) = p div 8 + unat k"
    using nb(3) k(3) small by (simp add: unat_u32_add)
  have inv': "read_inv (p + ?n) (?br', m)"
  proof -
    have "8 * (p div 8) + p mod 8 = p"
      by simp
    then have "8 * unat (br_stream ?br + k) + unat rest = p + ?n"
      using s' k(1) j by linarith
    then show ?thesis
      using op rc k(2) by (simp add: read_inv_def)
  qed
  have "unat (br_stream ?br + k + 1) = p div 8 + unat k + 1"
    using s' k(3) small by (simp add: unat_u32_add)
  moreover have "p div 8 + unat k + 1 = (p + ?n + 7) div 8"
  proof -
    have "8 * (p div 8) + p mod 8 = p"
      by simp
    then show ?thesis
      using k(1,2,4) j by (intro div8_ceil [where b = "p mod 8"]) simp_all
  qed
  ultimately have ok: "\<not> sb_cursize (nm_buf m) < br_readcount ?br'"
    using inside rc by (simp add: word_less_nat_alt add.commute add.left_commute)
  have "MSG_ReadBits count (br0, m) = Inr (read_end (?v, ?br', m))"
    unfolding MSG_ReadBits_def Let_def prod.case sd
    using op sj w nb(3,4) n(2) by (simp add: k_def [symmetric] rest_def [symmetric] shr_def tbl_rowbits)
  then have "MSG_ReadBits count (br0, m) = Inr (?v, ?br', m)"
    using ok by (simp add: read_end_def)
  moreover have "bits_of ?n ?v = bits_at ?d p ?n"
    using word_bits_at [OF w, of "p mod 8" ?n] n(2) by simp
  moreover have "take_bit ?n ?v = ?v"
    by (simp add: take_bit_eq_mask and.assoc)
  ultimately show ?thesis
    using inv' by blast
qed

section \<open>Round trip\<close>

lemma bit_255: "bit (255 :: u32) m \<longleftrightarrow> m < 8"
proof -
  have "(255 :: u32) = mask 8"
    by (simp add: mask_eq_exp_minus_1)
  then show ?thesis
    by (simp only: bit_mask_iff possible_bit_word) auto
qed

lemma EndBitWriting_step:
  assumes inv: "bits_inv b0 bs (bw, sb)" and room: "unat (sb_cursize sb) + 1 \<le> unat (sb_maxsize sb)"
  obtains sb' where "MSG_EndBitWriting (bw, sb) = Inr (\<lparr>bw_bits = 0, bw_stream = 0\<rparr>, sb')"
    "sz_wf sb'" "sb_maxsize sb' = sb_maxsize sb" "8 * b0 + length bs \<le> 8 * unat (sb_cursize sb')"
    "\<forall>i < length bs. sbit (sb_data sb') (8 * b0 + i) = bs ! i"
proof -
  let ?s = "unat (bw_stream bw)" and ?b = "unat (bw_bits bw)"
  have wf: "sz_wf sb" and ov: "sb_overflow sb AND 2 = 0" and b8: "?b \<le> 8" and cur: "bw_stream bw = sb_cursize sb"
    and pos: "8 * ?s + ?b = 8 * b0 + length bs"
    and old: "\<forall>i < length bs. sbit (sb_data sb) (8 * b0 + i) = bs ! i"
    using inv unfolding bits_inv_def prod.case by blast+
  have cap: "?s < length (sb_data sb)"
    using wf room cur by (simp add: sz_wf_nat)
  then have "take 1 (drop ?s (sb_data sb)) = [sb_data sb ! ?s]"
    by (simp add: take_Suc Cons_nth_drop_Suc [symmetric])
  then have pk: "peek ?s 1 (sb_data sb) = Inr [sb_data sb ! ?s]"
    using cap by (simp add: peek_def)
  have sub: "unat (8 - bw_bits bw) = 8 - ?b"
    using b8 by (simp add: unat_sub word_le_nat_alt)
  let ?byte = "sb_data sb ! ?s AND ucast (drop_bit (8 - ?b) (0xFF :: u32))"
  obtain d where d: "poke ?s [?byte] (sb_data sb) = Inr d"
    using poke_total [of ?s "[?byte]" "sb_data sb"] cap by auto
  have wf': "sz_wf (sb\<lparr>sb_data := d\<rparr>)"
    using wf length_poke [OF d] by (simp add: sz_wf_nat)
  have "unat (sb_cursize (sb\<lparr>sb_data := d\<rparr>)) + unat (1 :: u32) \<le> unat (sb_maxsize (sb\<lparr>sb_data := d\<rparr>))"
    using room by simp
  note g = get_space [OF wf' this]
  let ?sb = "sb\<lparr>sb_data := d\<rparr>\<lparr>sb_cursize := sb_cursize sb + 1\<rparr>"
  have "MSG_EndBitWriting (bw, sb) = Inr (\<lparr>bw_bits = 0, bw_stream = 0\<rparr>, ?sb)"
    using ov pk sub d g(1) b8 by (simp add: MSG_EndBitWriting_def shr_def)
  moreover have "8 * b0 + length bs \<le> 8 * unat (sb_cursize ?sb)"
    using g(2) pos b8 cur by simp
  moreover have "\<forall>i < length bs. sbit d (8 * b0 + i) = bs ! i"
  proof (intro allI impI)
    fix i assume i: "i < length bs"
    let ?q = "8 * b0 + i"
    have q: "?q < 8 * length (sb_data sb)"
      using i pos b8 cap by linarith
    have "bit (ucast (drop_bit (8 - ?b) (0xFF :: u32)) :: u8) (?q mod 8)" if "?q div 8 = ?s"
    proof -
      have "?q mod 8 < ?b"
        using that i pos mult_div_mod_eq [of 8 ?q] by linarith
      then show ?thesis
        using b8 by (simp only: bit_unsigned_iff bit_drop_bit_eq bit_255 possible_bit_word comp_def) simp
    qed
    then show "sbit d ?q = bs ! i"
      using poke1_bit [OF d q] old i by (auto simp: sbit_def bit_and_iff)
  qed
  ultimately show thesis
    using that [of ?sb] g(3) by simp
qed

text \<open>A program of bit-field writes, and the reads of the same widths.\<close>

definition write_values :: "(u32 \<times> u32) list \<Rightarrow> bf_write \<times> sizebuf \<Rightarrow> (bf_write \<times> sizebuf) outcome" where
  "write_values vs st = foldE (\<lambda>st (v, n). MSG_WriteBits v n st) st vs"

fun read_values :: "u32 list \<Rightarrow> bf_read \<times> netmsg \<Rightarrow> (u32 list \<times> bf_read \<times> netmsg) outcome" where
  "read_values [] st = Inr ([], st)"
| "read_values (n # ns) st =
     bindE (MSG_ReadBits n st) (\<lambda>(v, st1). bindE (read_values ns st1) (\<lambda>(vs, st2). Inr (v # vs, st2)))"

definition stored :: "u32 \<times> u32 \<Rightarrow> u32" where
  "stored = (\<lambda>(v, n). saturated (unat n) v)"

fun all_bits :: "(u32 \<times> u32) list \<Rightarrow> bool list" where
  "all_bits [] = []"
| "all_bits ((v, n) # vs) = bits_of (unat n) (saturated (unat n) v) @ all_bits vs"

lemma write_values_bits:
  "bits_inv b0 bs st \<Longrightarrow> \<forall>(v, n) \<in> set vs. 1 \<le> unat n \<and> unat n \<le> 32 \<Longrightarrow>
    8 * b0 + length bs + length (all_bits vs) + 80 \<le> 8 * unat (sb_maxsize (snd st)) \<Longrightarrow>
    \<exists>st'. write_values vs st = Inr st' \<and> bits_inv b0 (bs @ all_bits vs) st'
      \<and> sb_maxsize (snd st') = sb_maxsize (snd st)"
proof (induction vs arbitrary: bs st)
  case Nil
  then show ?case by (simp add: write_values_def)
next
  case (Cons x vs)
  obtain v n where x: "x = (v, n)"
    by (cases x)
  have n: "1 \<le> unat n" "unat n \<le> 32"
    using Cons.prems(2) x by auto
  have "8 * unat (sb_cursize (snd st)) \<le> 8 * b0 + length bs"
    using Cons.prems(1) by (cases st) (auto simp: bits_inv_def)
  then have "unat (sb_cursize (snd st)) + 9 \<le> unat (sb_maxsize (snd st))"
    using Cons.prems(3) by linarith
  from WriteBits_step [OF Cons.prems(1) n this, of v] obtain st1 where st1:
    "MSG_WriteBits v n st = Inr st1" "bits_inv b0 (bs @ bits_of (unat n) (saturated (unat n) v)) st1"
    "sb_maxsize (snd st1) = sb_maxsize (snd st)"
    by blast
  have "\<exists>st'. write_values vs st1 = Inr st'
      \<and> bits_inv b0 ((bs @ bits_of (unat n) (saturated (unat n) v)) @ all_bits vs) st'
      \<and> sb_maxsize (snd st') = sb_maxsize (snd st1)"
    using Cons.prems(2,3) x st1 by (intro Cons.IH) auto
  then show ?case
    using st1 x by (auto simp: write_values_def)
qed

lemma take_bit_saturated: "n < 32 \<Longrightarrow> take_bit n (saturated n v) = saturated n v"
  unfolding saturated_def
  by (cases "drop_bit n v = 0")
    (simp add: take_bit_eq_self_iff_drop_bit_eq_0, simp add: take_bit_eq_mask)

lemma bits_at_append_eq:
  assumes "\<forall>i < length (xs @ ys). sbit d (p + i) = (xs @ ys) ! i"
  shows "bits_at d p (length xs) = xs" and "\<forall>i < length ys. sbit d (p + length xs + i) = ys ! i"
proof -
  show "bits_at d p (length xs) = xs"
    using assms by (intro nth_equalityI) (auto simp: bits_at_def nth_append)
  show "\<forall>i < length ys. sbit d (p + length xs + i) = ys ! i"
    using assms by (auto simp: nth_append add.assoc dest!: spec [of _ "length xs + _"])
qed

lemma read_values_back:
  "read_inv p (br, m) \<Longrightarrow> \<forall>(v, n) \<in> set vs. 1 \<le> unat n \<and> unat n \<le> 25 \<Longrightarrow>
    \<forall>i < length (all_bits vs). sbit (sb_data (nm_buf m)) (p + i) = all_bits vs ! i \<Longrightarrow>
    p + length (all_bits vs) \<le> 8 * unat (sb_cursize (nm_buf m)) \<Longrightarrow>
    p + length (all_bits vs) + 64 \<le> 8 * length (sb_data (nm_buf m)) \<Longrightarrow>
    p + length (all_bits vs) + 64 < 2 ^ 35 \<Longrightarrow>
    \<exists>br'. read_values (map snd vs) (br, m) = Inr (map stored vs, br', m) \<and> read_inv (p + length (all_bits vs)) (br', m)"
proof (induction vs arbitrary: p br)
  case Nil
  then show ?case by simp
next
  case (Cons x vs)
  obtain v n where x: "x = (v, n)"
    by (cases x)
  let ?s = "saturated (unat n) v" and ?d = "sb_data (nm_buf m)"
  have n: "1 \<le> unat n" "unat n \<le> 25"
    using Cons.prems(2) x by auto
  note bits = bits_at_append_eq [OF Cons.prems(3) [unfolded x all_bits.simps], simplified]
  have p8: "8 * (p div 8) + p mod 8 = p" "p mod 8 < 8"
    by simp_all
  have len: "length (all_bits (x # vs)) = unat n + length (all_bits vs)"
    using x by simp
  have "p mod 8 + unat n \<le> 32" "p div 8 + 4 \<le> length ?d" "p div 8 + 8 < 2 ^ 32"
    "(p + unat n + 7) div 8 \<le> unat (sb_cursize (nm_buf m))"
    subgoal using n p8 by linarith
    subgoal using p8 len Cons.prems(5) by linarith
    subgoal using Cons.prems(6) by simp
    subgoal using div8_up [of "p + unat n"] len Cons.prems(4) by linarith
    done
  from ReadBits_step [OF Cons.prems(1) n(1) this(1,2,4,3)] obtain w br1 where w:
    "MSG_ReadBits n (br, m) = Inr (w, br1, m)" "read_inv (p + unat n) (br1, m)"
    "bits_of (unat n) w = bits_at ?d p (unat n)" "take_bit (unat n) w = w"
    by blast
  have "w = ?s"
    using bits_of_eq [of "unat n" w ?s] w(3,4) bits(1) n take_bit_saturated [of "unat n" v] by simp
  moreover have "\<exists>br'. read_values (map snd vs) (br1, m) = Inr (map stored vs, br', m)
      \<and> read_inv (p + unat n + length (all_bits vs)) (br', m)"
    using Cons.prems(2,4-6) bits(2) len by (intro Cons.IH [OF w(2)]) auto
  ultimately show ?case
    using w(1) x len by (auto simp: stored_def add.assoc)
qed

lemma start_writing: "sz_wf sb \<Longrightarrow> sb_overflow sb AND 2 = 0 \<Longrightarrow>
    bits_inv (unat (sb_cursize sb)) [] (MSG_StartBitWriting sb, sb)"
  by (simp add: bits_inv_def MSG_StartBitWriting_def)

lemma start_reading:
  assumes "\<not> nm_badread m" and "unat (nm_readcount m) + 1 \<le> unat (sb_cursize (nm_buf m))"
  shows "\<exists>br. MSG_StartBitReading m = (br, m) \<and> read_inv (8 * unat (nm_readcount m)) (br, m)"
proof -
  have "unat (nm_readcount m + 1) = unat (nm_readcount m) + 1"
    using assms(2) unat_u32_lt [of "sb_cursize (nm_buf m)"] by (simp add: unat_u32_add)
  then show ?thesis
    using assms by (simp add: MSG_StartBitReading_def Let_def read_inv_def word_less_nat_alt)
qed

lemma write_session:
  assumes "sz_wf sb" and "sb_overflow sb AND 2 = 0"
    and "\<forall>(v, n) \<in> set vs. 1 \<le> unat n \<and> unat n \<le> 32"
    and "8 * unat (sb_cursize sb) + length (all_bits vs) + 80 \<le> 8 * unat (sb_maxsize sb)"
  obtains sb' where "bindE (write_values vs (MSG_StartBitWriting sb, sb)) MSG_EndBitWriting
      = Inr (\<lparr>bw_bits = 0, bw_stream = 0\<rparr>, sb')"
    "sz_wf sb'" "sb_maxsize sb' = sb_maxsize sb"
    "8 * unat (sb_cursize sb) + length (all_bits vs) \<le> 8 * unat (sb_cursize sb')"
    "\<forall>i < length (all_bits vs). sbit (sb_data sb') (8 * unat (sb_cursize sb) + i) = all_bits vs ! i"
proof -
  obtain bw sb1 where w: "write_values vs (MSG_StartBitWriting sb, sb) = Inr (bw, sb1)"
    "bits_inv (unat (sb_cursize sb)) (all_bits vs) (bw, sb1)" "sb_maxsize sb1 = sb_maxsize sb"
    using write_values_bits [OF start_writing [OF assms(1,2)] assms(3)] assms(4) by auto
  have "8 * unat (sb_cursize sb1) \<le> 8 * unat (sb_cursize sb) + length (all_bits vs)"
    using w(2) by (auto simp: bits_inv_def)
  then have "unat (sb_cursize sb1) + 1 \<le> unat (sb_maxsize sb1)"
    using assms(4) w(3) by simp
  from EndBitWriting_step [OF w(2) this] obtain sb' where
    "MSG_EndBitWriting (bw, sb1) = Inr (\<lparr>bw_bits = 0, bw_stream = 0\<rparr>, sb')"
    "sz_wf sb'" "sb_maxsize sb' = sb_maxsize sb1"
    "8 * unat (sb_cursize sb) + length (all_bits vs) \<le> 8 * unat (sb_cursize sb')"
    "\<forall>i < length (all_bits vs). sbit (sb_data sb') (8 * unat (sb_cursize sb) + i) = all_bits vs ! i" .
  with w show thesis
    by (intro that [of sb']) (simp_all only: bindE_simps)
qed

text \<open>
  C10. Bit fields survive the trip: any sequence of values written with widths of 1 to 25 bits, at
  whatever bit offsets they fall, to a buffer with room for them and ten spare bytes, is read back
  by a reader of the same widths starting where the stream was opened. A value too large for its
  width comes back as the largest value of that width; nothing of the packet changes and no bad
  read is recorded.
\<close>

theorem bits_roundtrip:
  assumes "sz_wf sb" and "sb_overflow sb AND 2 = 0" and "vs \<noteq> []"
    and "\<forall>(v, n) \<in> set vs. 1 \<le> unat n \<and> unat n \<le> 25"
    and "8 * unat (sb_cursize sb) + length (all_bits vs) + 80 \<le> 8 * unat (sb_maxsize sb)"
  shows "\<exists>bw sb' br m. bindE (write_values vs (MSG_StartBitWriting sb, sb)) MSG_EndBitWriting = Inr (bw, sb') \<and>
    m = \<lparr>nm_buf = sb', nm_readcount = sb_cursize sb, nm_badread = False\<rparr> \<and>
    read_values (map snd vs) (MSG_StartBitReading m) = Inr (map stored vs, br, m)"
proof -
  have wide: "\<forall>(v, n) \<in> set vs. 1 \<le> unat n \<and> unat n \<le> 32"
    using assms(4) by fastforce
  obtain sb' where w: "bindE (write_values vs (MSG_StartBitWriting sb, sb)) MSG_EndBitWriting
      = Inr (\<lparr>bw_bits = 0, bw_stream = 0\<rparr>, sb')" "sz_wf sb'" "sb_maxsize sb' = sb_maxsize sb"
    "8 * unat (sb_cursize sb) + length (all_bits vs) \<le> 8 * unat (sb_cursize sb')"
    "\<forall>i < length (all_bits vs). sbit (sb_data sb') (8 * unat (sb_cursize sb) + i) = all_bits vs ! i"
    using write_session [OF assms(1,2) wide assms(5)] by blast
  let ?m = "\<lparr>nm_buf = sb', nm_readcount = sb_cursize sb, nm_badread = False\<rparr>"
  have some: "1 \<le> length (all_bits vs)"
    using assms(3,4) by (cases vs) auto
  then have "unat (sb_cursize sb) + 1 \<le> unat (sb_cursize sb')"
    using w(4) by linarith
  then obtain br where br: "MSG_StartBitReading ?m = (br, ?m)" "read_inv (8 * unat (sb_cursize sb)) (br, ?m)"
    using start_reading [of ?m] by auto
  have "unat (sb_maxsize sb) \<le> length (sb_data sb')"
    using w(2,3) by (simp add: sz_wf_nat)
  then have "\<exists>br'. read_values (map snd vs) (br, ?m) = Inr (map stored vs, br', ?m)
      \<and> read_inv (8 * unat (sb_cursize sb) + length (all_bits vs)) (br', ?m)"
    using assms(4,5) w(4,5) unat_u32_lt [of "sb_maxsize sb"]
    by (intro read_values_back [OF br(2)]) simp_all
  then show ?thesis
    using w(1) br(1) by fastforce
qed

theorem bits_roundtrip_witness:
  "\<exists>bw sb' br m. bindE (write_values [(5, 3), (1000, 10), (99, 5)] (MSG_StartBitWriting (SZ_Alloc 256), SZ_Alloc 256))
      MSG_EndBitWriting = Inr (bw, sb') \<and> m = \<lparr>nm_buf = sb', nm_readcount = 0, nm_badread = False\<rparr> \<and>
    read_values [3, 10, 5] (MSG_StartBitReading m) = Inr ([5, 1000, 31], br, m)"
  using bits_roundtrip [of "SZ_Alloc 256" "[(5, 3), (1000, 10), (99, 5)]"]
  by (simp add: SZ_Alloc_def sz_wf_def stored_def saturated_def mask_eq_exp_minus_1 drop_bit_eq_div)

text \<open>
  A read that crosses the 32 bits from its first byte damages the packet: the word under the
  stream pointer is incremented and the pointer stays, whatever the packet holds. (The writer
  handles the same widths: only the reader increments the data instead of the pointer.)
\<close>

theorem ReadBits_spill_corrupts:
  assumes "read_inv p (br, m)" and "p mod 8 + unat count > 32" and "unat count \<le> 32"
    and "p div 8 + 4 \<le> length (sb_data (nm_buf m))" and "p div 8 + 2 < 2 ^ 32"
    and "load32 (p div 8) (sb_data (nm_buf m)) = Inr w"
  shows "\<exists>v br' m'. MSG_ReadBits count (br, m) = Inr (v, br', m') \<and>
    load32 (p div 8) (sb_data (nm_buf m')) = Inr (w + 1) \<and> unat (br_stream br') = p div 8"
proof -
  let ?br = "next_byte br" and ?d = "sb_data (nm_buf m)"
  let ?j = "count + br_bits ?br"
  note nb = next_byte_inv [OF assms(1,5)]
  have op: "br_open ?br" "\<not> nm_badread m"
    using nb(1) by (simp_all add: read_inv_def)
  have j: "unat ?j = p mod 8 + unat count"
    using nb(4) assms(3) by (simp add: unat_u32_add)
  have "sint ?j = int (unat ?j)"
    using j assms(3) by (intro sint_u32_small) simp
  then have sj: "sint ?j > 32"
    using j assms(2) by linarith
  have sub: "unat (32 - br_bits ?br) = 32 - p mod 8"
    using nb(4) by (simp add: unat_sub word_le_nat_alt)
  have b: "p mod 8 \<noteq> 0"
    using assms(2,3) by auto
  have "p mod 8 < 32"
    by (rule less_trans [of _ 8]) simp_all
  have j7: "unat (?j AND 7) \<le> 32"
    by (simp add: unat_and_7)
  obtain d where d: "store32 (p div 8) (w + 1) ?d = Inr d"
    using store32_total [OF assms(4)] by blast
  have "\<exists>v. MSG_ReadBits count (br, m) = Inr (read_end (v,
      ?br\<lparr>br_readcount := br_readcount ?br + 4, br_bytes := br_bytes ?br + 4, br_bits := ?j AND 7\<rparr>,
      m\<lparr>nm_buf := (nm_buf m)\<lparr>sb_data := d\<rparr>\<rparr>))"
    unfolding MSG_ReadBits_def Let_def prod.case
    using op sj assms(6) d nb(3,4) b sub j7 \<open>p mod 8 < 32\<close> load32_store32 [OF d] by (simp add: shr_def shl_def tbl_rowbits) blast
  then show ?thesis
    using load32_store32 [OF d] nb(3) by (fastforce simp: read_end_def)
qed

theorem ReadBits_spill_corrupts_witness:
  "\<exists>v br' m'. MSG_ReadBits 32 (\<lparr>br_readcount = 1, br_bytes = 0, br_bits = 3, br_stream = 0, br_open = True\<rparr>,
      \<lparr>nm_buf = \<lparr>sb_overflow = 0, sb_data = [1, 2, 3, 4, 5, 6], sb_maxsize = 6, sb_cursize = 6\<rparr>,
       nm_readcount = 0, nm_badread = False\<rparr>) = Inr (v, br', m') \<and>
    load32 0 (sb_data (nm_buf m')) = Inr (0x04030201 + 1)"
proof -
  have l: "load32 0 [1, 2, 3, 4, 5, 6] = Inr 0x04030201"
    by (simp add: load32_def peek_def push_bit_eq_mult)
  show ?thesis
    using ReadBits_spill_corrupts [where p = 3
        and br = "\<lparr>br_readcount = 1, br_bytes = 0, br_bits = 3, br_stream = 0, br_open = True\<rparr>"
        and m = "\<lparr>nm_buf = \<lparr>sb_overflow = 0, sb_data = [1, 2, 3, 4, 5, 6], sb_maxsize = 6, sb_cursize = 6\<rparr>,
          nm_readcount = 0, nm_badread = False\<rparr>" and count = 32 and w = "0x04030201"] l
    by (fastforce simp: read_inv_def)
qed

lemma MSG_WriteBits_saturated:
  assumes "unat count \<le> 32"
  shows "MSG_WriteBits v count st = MSG_WriteBits (saturated (unat count) v) count st"
proof -
  have "saturated (unat count) (saturated (unat count) v) = saturated (unat count) v"
    by (simp add: saturated_def)
  then show ?thesis
    unfolding MSG_WriteBits_def saturate_step [OF assms] by simp
qed

lemma saturated_char: "saturated 8 (scast (c :: u8)) = (if bit c 7 then 0xFF else ucast c)"
proof (cases "bit c 7")
  case True
  have "bit (drop_bit 8 (scast c :: u32)) 0"
    using True by (simp add: bit_simps)
  then have "drop_bit 8 (scast c :: u32) \<noteq> 0"
    by auto
  then show ?thesis
    using True by (simp add: saturated_def mask_eq_exp_minus_1)
next
  case False
  then have "scast c = (ucast c :: u32)"
  proof (intro bit_word_eqI)
    fix n assume "n < LENGTH(32)"
    with False show "bit (scast c :: u32) n = bit (ucast c :: u32) n"
      by (cases n "7 :: nat" rule: linorder_cases) (auto simp: bit_simps bit_u8_beyond min_def)
  qed
  moreover have "drop_bit 8 (ucast c :: u32) = 0"
    by (rule bit_word_eqI) (simp add: bit_simps bit_u8_beyond)
  ultimately show ?thesis
    using False by (simp add: saturated_def)
qed

lemma write_values_Cons:
  "write_values ((v, n) # vs) st = bindE (MSG_WriteBits v n st) (write_values vs)"
  by (simp add: write_values_def [abs_def])

text \<open>
  \<^verbatim>\<open>MSG_WriteBitData\<close> cannot transport binary data: it sends every byte with the top bit set as
  255, because the \<^verbatim>\<open>char\<close> is sign-extended before \<^verbatim>\<open>MSG_WriteBits\<close> saturates it to eight bits. The
  bytes below 128 are written as they are.
\<close>

theorem WriteBitData_saturates:
  "MSG_WriteBitData cs st = write_values (map (\<lambda>c. (if bit c 7 then 0xFF else ucast c, 8)) cs) st"
proof (induction cs arbitrary: st)
  case (Cons c cs)
  have "MSG_WriteBits (scast c) 8 st = MSG_WriteBits (if bit c 7 then 0xFF else ucast c) 8 st" for st
    using MSG_WriteBits_saturated [of 8 "scast c" st] by (simp add: saturated_char)
  moreover have "MSG_WriteBitData cs = write_values (map (\<lambda>c. (if bit c 7 then 0xFF else ucast c, 8)) cs)"
    by (rule ext) (rule Cons.IH)
  ultimately show ?case
    by (simp add: write_values_Cons)
qed (simp add: write_values_def)

end
