(* ===== verification/Crc32.thy ===== *)
theory Crc32
  imports Prelude
begin

text \<open>
  \<^verbatim>\<open>crc.c\<close>, the CRC-32 half: the table, the byte and buffer updates, the block checksum of a
  datagram and the checksum of a file. A buffer is the list of the bytes readable at the pointer,
  with the 32-bit address that decides how many single bytes are processed before the
  word-aligned loop. The locale \<open>stream_hash\<close> is the contract of an incremental checksum.
\<close>

definition CRC32_m_tab_0 :: "u32 list" where
  "CRC32_m_tab_0 = [
     0x00000000, 0x77073096, 0xee0e612c, 0x990951ba, 0x076dc419, 0x706af48f, 0xe963a535, 0x9e6495a3,
     0x0edb8832, 0x79dcb8a4, 0xe0d5e91e, 0x97d2d988, 0x09b64c2b, 0x7eb17cbd, 0xe7b82d07, 0x90bf1d91,
     0x1db71064, 0x6ab020f2, 0xf3b97148, 0x84be41de, 0x1adad47d, 0x6ddde4eb, 0xf4d4b551, 0x83d385c7,
     0x136c9856, 0x646ba8c0, 0xfd62f97a, 0x8a65c9ec, 0x14015c4f, 0x63066cd9, 0xfa0f3d63, 0x8d080df5,
     0x3b6e20c8, 0x4c69105e, 0xd56041e4, 0xa2677172, 0x3c03e4d1, 0x4b04d447, 0xd20d85fd, 0xa50ab56b,
     0x35b5a8fa, 0x42b2986c, 0xdbbbc9d6, 0xacbcf940, 0x32d86ce3, 0x45df5c75, 0xdcd60dcf, 0xabd13d59,
     0x26d930ac, 0x51de003a, 0xc8d75180, 0xbfd06116, 0x21b4f4b5, 0x56b3c423, 0xcfba9599, 0xb8bda50f,
     0x2802b89e, 0x5f058808, 0xc60cd9b2, 0xb10be924, 0x2f6f7c87, 0x58684c11, 0xc1611dab, 0xb6662d3d,
     0x76dc4190, 0x01db7106, 0x98d220bc, 0xefd5102a, 0x71b18589, 0x06b6b51f, 0x9fbfe4a5, 0xe8b8d433,
     0x7807c9a2, 0x0f00f934, 0x9609a88e, 0xe10e9818, 0x7f6a0dbb, 0x086d3d2d, 0x91646c97, 0xe6635c01,
     0x6b6b51f4, 0x1c6c6162, 0x856530d8, 0xf262004e, 0x6c0695ed, 0x1b01a57b, 0x8208f4c1, 0xf50fc457,
     0x65b0d9c6, 0x12b7e950, 0x8bbeb8ea, 0xfcb9887c, 0x62dd1ddf, 0x15da2d49, 0x8cd37cf3, 0xfbd44c65,
     0x4db26158, 0x3ab551ce, 0xa3bc0074, 0xd4bb30e2, 0x4adfa541, 0x3dd895d7, 0xa4d1c46d, 0xd3d6f4fb,
     0x4369e96a, 0x346ed9fc, 0xad678846, 0xda60b8d0, 0x44042d73, 0x33031de5, 0xaa0a4c5f, 0xdd0d7cc9,
     0x5005713c, 0x270241aa, 0xbe0b1010, 0xc90c2086, 0x5768b525, 0x206f85b3, 0xb966d409, 0xce61e49f,
     0x5edef90e, 0x29d9c998, 0xb0d09822, 0xc7d7a8b4, 0x59b33d17, 0x2eb40d81, 0xb7bd5c3b, 0xc0ba6cad,
     0xedb88320, 0x9abfb3b6, 0x03b6e20c, 0x74b1d29a, 0xead54739, 0x9dd277af, 0x04db2615, 0x73dc1683,
     0xe3630b12, 0x94643b84, 0x0d6d6a3e, 0x7a6a5aa8, 0xe40ecf0b, 0x9309ff9d, 0x0a00ae27, 0x7d079eb1,
     0xf00f9344, 0x8708a3d2, 0x1e01f268, 0x6906c2fe, 0xf762575d, 0x806567cb, 0x196c3671, 0x6e6b06e7,
     0xfed41b76, 0x89d32be0, 0x10da7a5a, 0x67dd4acc, 0xf9b9df6f, 0x8ebeeff9, 0x17b7be43, 0x60b08ed5,
     0xd6d6a3e8, 0xa1d1937e, 0x38d8c2c4, 0x4fdff252, 0xd1bb67f1, 0xa6bc5767, 0x3fb506dd, 0x48b2364b,
     0xd80d2bda, 0xaf0a1b4c, 0x36034af6, 0x41047a60, 0xdf60efc3, 0xa867df55, 0x316e8eef, 0x4669be79,
     0xcb61b38c, 0xbc66831a, 0x256fd2a0, 0x5268e236, 0xcc0c7795, 0xbb0b4703, 0x220216b9, 0x5505262f,
     0xc5ba3bbe, 0xb2bd0b28, 0x2bb45a92, 0x5cb36a04, 0xc2d7ffa7, 0xb5d0cf31, 0x2cd99e8b, 0x5bdeae1d,
     0x9b64c2b0, 0xec63f226, 0x756aa39c, 0x026d930a, 0x9c0906a9, 0xeb0e363f, 0x72076785, 0x05005713,
     0x95bf4a82, 0xe2b87a14, 0x7bb12bae, 0x0cb61b38, 0x92d28e9b, 0xe5d5be0d, 0x7cdcefb7, 0x0bdbdf21,
     0x86d3d2d4, 0xf1d4e242, 0x68ddb3f8, 0x1fda836e, 0x81be16cd, 0xf6b9265b, 0x6fb077e1, 0x18b74777,
     0x88085ae6, 0xff0f6a70, 0x66063bca, 0x11010b5c, 0x8f659eff, 0xf862ae69, 0x616bffd3, 0x166ccf45,
     0xa00ae278, 0xd70dd2ee, 0x4e048354, 0x3903b3c2, 0xa7672661, 0xd06016f7, 0x4969474d, 0x3e6e77db,
     0xaed16a4a, 0xd9d65adc, 0x40df0b66, 0x37d83bf0, 0xa9bcae53, 0xdebb9ec5, 0x47b2cf7f, 0x30b5ffe9,
     0xbdbdf21c, 0xcabac28a, 0x53b39330, 0x24b4a3a6, 0xbad03605, 0xcdd70693, 0x54de5729, 0x23d967bf,
     0xb3667a2e, 0xc4614ab8, 0x5d681b02, 0x2a6f2b94, 0xb40bbe37, 0xc30c8ea1, 0x5a05df1b, 0x2d02ef8d]"

lemma length_crc_tab [simp]: "length CRC32_m_tab_0 = 256"
  by (simp add: CRC32_m_tab_0_def)

section \<open>Updates\<close>

definition CRC32_Init :: u32 where
  "CRC32_Init = 0xFFFFFFFF"

text \<open>\<^verbatim>\<open>CRC32_m_tab_0[(unsigned char)CRC] ^ (CRC >> 8)\<close>, the line every branch repeats.\<close>

definition crc_shift :: "u32 \<Rightarrow> u32" where
  "crc_shift crc = CRC32_m_tab_0 ! unat (crc AND 0xFF) XOR drop_bit 8 crc"

definition CRC32_ProcessByte :: "u32 \<Rightarrow> u8 \<Rightarrow> u32" where
  "CRC32_ProcessByte crc ch = crc_shift (crc XOR ucast ch)"

definition CRC32_Final :: "u32 \<Rightarrow> u32" where
  "CRC32_Final crc = NOT crc"

text \<open>
  The running state of \<^verbatim>\<open>CRC32_ProcessBuffer\<close> is \<^verbatim>\<open>CRC\<close> and the bytes from \<^verbatim>\<open>ptr\<close> on. \<open>crc_byte\<close> is
  the statement of the \<^verbatim>\<open>switch\<close> cases, \<open>crc_word\<close> the group of five statements for an aligned word.
\<close>

fun crc_byte :: "u32 \<times> u8 list \<Rightarrow> (u32 \<times> u8 list) outcome" where
  "crc_byte (crc, []) = Inl OutOfBounds"
| "crc_byte (crc, c # cs) =
     Inr (CRC32_m_tab_0 ! unat (c XOR ucast crc) XOR drop_bit 8 crc, cs)"

definition crc_word :: "u32 \<times> u8 list \<Rightarrow> (u32 \<times> u8 list) outcome" where
  "crc_word = (\<lambda>(crc, cs).
     bindE (load32 0 cs) (\<lambda>w.
       Inr (crc_shift (crc_shift (crc_shift (crc_shift (crc XOR w)))), drop 4 cs)))"

fun repeatE :: "nat \<Rightarrow> ('s \<Rightarrow> 's outcome) \<Rightarrow> 's \<Rightarrow> 's outcome" where
  "repeatE 0 f s = Inr s"
| "repeatE (Suc n) f s = bindE (f s) (repeatE n f)"

text \<open>The last \<^verbatim>\<open>switch\<close>: its cases fall through, the word case returns.\<close>

definition crc_tail :: "nat \<Rightarrow> u32 \<times> u8 list \<Rightarrow> u32 outcome" where
  "crc_tail n st =
     (if n \<ge> 4 then bindE (repeatE (n - 4) crc_byte st) (\<lambda>st1. bindE (crc_word st1) (\<lambda>(crc, _). Inr crc))
      else bindE (repeatE n crc_byte st) (\<lambda>(crc, _). Inr crc))"

definition CRC32_ProcessBuffer :: "u32 \<Rightarrow> u32 \<Rightarrow> u8 list \<Rightarrow> u32 \<Rightarrow> u32 outcome" where
  "CRC32_ProcessBuffer crc addr buf n =
     (if sint n > 7 then
        (let odd = addr AND 3; n' = n - odd in
         bindE (repeatE (unat odd) crc_byte (crc, buf)) (\<lambda>st1.
         bindE (repeatE (unat n' div 8) (\<lambda>st. bindE (crc_word st) crc_word) st1) (\<lambda>st2.
           crc_tail (unat (n' AND 7)) st2)))
      else if sint n < 0 then Inr crc
      else crc_tail (unat n) (crc, buf))"

section \<open>A word is four bytes\<close>

lemma crc_byte_step: "crc_byte (crc, c # cs) = Inr (CRC32_ProcessByte crc c, cs)"
proof -
  have "(crc XOR ucast c) AND 0xFF = (ucast (c XOR ucast crc) :: u32)"
  proof (rule bit_word_eqI)
    fix n
    have "(0xFF :: u32) = mask 8"
      by (simp add: mask_eq_exp_minus_1)
    then show "bit ((crc XOR ucast c) AND 0xFF) n = bit (ucast (c XOR ucast crc) :: u32) n" if "n < LENGTH(32)"
      by (simp only: bit_and_iff bit_xor_iff bit_mask_iff bit_unsigned_iff) (auto dest: bit_imp_le_length)
  qed
  moreover have "drop_bit 8 (crc XOR ucast c) = drop_bit 8 crc"
    by (rule bit_word_eqI) (simp add: bit_simps bit_u8_beyond)
  ultimately show ?thesis
    by (simp add: CRC32_ProcessByte_def crc_shift_def)
qed

text \<open>Bits above the low byte pass through a shift unchanged.\<close>

lemma crc_shift_push: "take_bit 24 r = r \<Longrightarrow> crc_shift (c XOR push_bit 8 r) = crc_shift c XOR r"
proof -
  assume r: "take_bit 24 r = r"
  have "(c XOR push_bit 8 r) AND 0xFF = c AND 0xFF"
  proof (rule bit_word_eqI)
    fix n
    have "(0xFF :: u32) = mask 8"
      by (simp add: mask_eq_exp_minus_1)
    then show "bit ((c XOR push_bit 8 r) AND 0xFF) n = bit (c AND 0xFF) n" if "n < LENGTH(32)"
      by (simp only: bit_and_iff bit_xor_iff bit_mask_iff bit_push_bit_iff) auto
  qed
  moreover have "drop_bit 8 (push_bit 8 r) = r"
  proof (rule bit_word_eqI)
    fix n
    have "bit r n \<Longrightarrow> n < 24"
      using r by (metis bit_take_bit_iff)
    then show "bit (drop_bit 8 (push_bit 8 r)) n = bit r n" if "n < LENGTH(32)"
      by (auto simp: bit_simps)
  qed
  then have "drop_bit 8 (c XOR push_bit 8 r) = drop_bit 8 c XOR r"
    by (simp add: drop_bit_xor)
  ultimately show ?thesis
    by (simp add: crc_shift_def xor.assoc)
qed

lemma byte_push_small: "take_bit 16 r = r \<Longrightarrow> take_bit 24 (ucast (b :: u8) XOR push_bit 8 r) = ucast b XOR push_bit 8 (r :: u32)"
proof (rule bit_word_eqI)
  fix n assume r: "take_bit 16 r = r" and "n < LENGTH(32)"
  have "bit r (n - 8) \<Longrightarrow> n - 8 < 16"
    using r by (metis bit_take_bit_iff)
  then show "bit (take_bit 24 (ucast b XOR push_bit 8 r)) n = bit (ucast b XOR push_bit 8 r) n"
    by (auto simp: bit_simps dest: bit_u8_small)
qed

lemma word32_of_xor:
  "word32_of [a, b, c, d] = ucast a XOR push_bit 8 (ucast b XOR push_bit 8 (ucast c XOR push_bit 8 (ucast d :: u32)))"
proof (rule bit_word_eqI)
  fix n assume "n < LENGTH(32)"
  then show "bit (word32_of [a, b, c, d]) n =
      bit (ucast a XOR push_bit 8 (ucast b XOR push_bit 8 (ucast c XOR push_bit 8 (ucast d :: u32)))) n"
    by (cases "8 \<le> n"; cases "16 \<le> n"; cases "24 \<le> n") (auto simp: bit_simps bit_u8_beyond)
qed

lemma crc_word_bytes:
  "crc_word (crc, a # b # c # d # cs) = Inr (foldl CRC32_ProcessByte crc [a, b, c, d], cs)"
proof -
  have d: "take_bit 8 (ucast d :: u32) = ucast d"
    by (rule bit_word_eqI) (auto simp: bit_simps dest: bit_u8_small)
  have d24: "take_bit 24 (ucast d :: u32) = ucast d" and d16: "take_bit 16 (ucast d :: u32) = ucast d"
    by (rule bit_word_eqI, auto simp: bit_simps dest: bit_u8_small)+
  let ?cd = "ucast c XOR push_bit 8 (ucast d) :: u32"
  have cd: "take_bit 24 ?cd = ?cd"
    by (rule byte_push_small [OF d16])
  have cd16: "take_bit 16 ?cd = ?cd"
    by (rule bit_word_eqI) (auto simp: bit_simps dest: bit_u8_small)
  have bcd: "take_bit 24 (ucast b XOR push_bit 8 ?cd) = ucast b XOR push_bit 8 ?cd"
    by (rule byte_push_small [OF cd16])
  have "crc_shift (crc XOR word32_of [a, b, c, d]) = CRC32_ProcessByte crc a XOR (ucast b XOR push_bit 8 ?cd)"
    unfolding word32_of_xor xor.assoc [symmetric, of crc] crc_shift_push [OF bcd] CRC32_ProcessByte_def ..
  moreover have "crc_shift (x XOR (ucast b XOR push_bit 8 ?cd)) = CRC32_ProcessByte x b XOR ?cd" for x
    unfolding xor.assoc [symmetric, of x] crc_shift_push [OF cd] CRC32_ProcessByte_def ..
  moreover have "crc_shift (x XOR ?cd) = CRC32_ProcessByte x c XOR ucast d" for x
    unfolding xor.assoc [symmetric, of x] crc_shift_push [OF d24] CRC32_ProcessByte_def ..
  ultimately have "crc_shift (crc_shift (crc_shift (crc_shift (crc XOR word32_of [a, b, c, d]))))
      = foldl CRC32_ProcessByte crc [a, b, c, d]"
    by (simp add: CRC32_ProcessByte_def del: word32_of.simps)
  then show ?thesis
    by (simp add: crc_word_def load32_def peek_def del: word32_of.simps)
qed

section \<open>Any alignment, any length\<close>

text \<open>A processing step consumes \<open>n\<close> bytes when it has their effect one by one.\<close>

definition consumes :: "nat \<Rightarrow> (u32 \<times> u8 list \<Rightarrow> (u32 \<times> u8 list) outcome) \<Rightarrow> bool" where
  "consumes n f \<longleftrightarrow> (\<forall>crc cs. n \<le> length cs \<longrightarrow>
     f (crc, cs) = Inr (foldl CRC32_ProcessByte crc (take n cs), drop n cs))"

lemma consumes_byte: "consumes 1 crc_byte"
  unfolding consumes_def
proof (intro allI impI)
  fix crc :: u32 and cs :: "u8 list" assume "1 \<le> length cs"
  then obtain c cs' where "cs = c # cs'"
    by (cases cs) auto
  then show "crc_byte (crc, cs) = Inr (foldl CRC32_ProcessByte crc (take 1 cs), drop 1 cs)"
    by (simp add: crc_byte_step del: crc_byte.simps)
qed

lemma consumes_word: "consumes 4 crc_word"
  unfolding consumes_def
proof (intro allI impI)
  fix crc :: u32 and cs :: "u8 list" assume "4 \<le> length cs"
  then obtain a b c d cs' where "cs = a # b # c # d # cs'"
    by (auto simp: numeral_eq_Suc Suc_le_length_iff)
  then show "crc_word (crc, cs) = Inr (foldl CRC32_ProcessByte crc (take 4 cs), drop 4 cs)"
    by (simp add: crc_word_bytes)
qed

lemma consumes_seq:
  assumes "consumes n f" and "consumes k g"
  shows "consumes (n + k) (\<lambda>st. bindE (f st) g)"
  using assms unfolding consumes_def by (simp add: take_add add.commute [of k n])

lemma consumes_repeat: "consumes n f \<Longrightarrow> consumes (k * n) (repeatE k f)"
proof (induction k)
  case 0
  then show ?case by (simp add: consumes_def)
next
  case (Suc k)
  then have "consumes (n + k * n) (\<lambda>st. bindE (f st) (repeatE k f))"
    by (intro consumes_seq) simp_all
  then show ?case by (simp add: consumes_def)
qed

lemma crc_tail_bytes: "n \<le> length cs \<Longrightarrow> crc_tail n (crc, cs) = Inr (foldl CRC32_ProcessByte crc (take n cs))"
proof (cases "4 \<le> n")
  case True
  assume n: "n \<le> length cs"
  have "consumes ((n - 4) * 1 + 4) (\<lambda>st. bindE (repeatE (n - 4) crc_byte st) crc_word)"
    by (intro consumes_seq consumes_repeat consumes_byte consumes_word)
  then show ?thesis
    using n True by (auto simp: crc_tail_def consumes_def bindE_assoc [symmetric])
next
  case False
  assume n: "n \<le> length cs"
  have "consumes (n * 1) (repeatE n crc_byte)"
    by (intro consumes_repeat consumes_byte)
  then show ?thesis
    using n False by (simp add: crc_tail_def consumes_def)
qed

lemma crc_tail_rest:
  "m + r \<le> length cs \<Longrightarrow> crc_tail r (foldl CRC32_ProcessByte crc (take m cs), drop m cs)
    = Inr (foldl CRC32_ProcessByte crc (take (m + r) cs))"
  by (simp add: crc_tail_bytes take_add)

lemma CRC32_ProcessBuffer_aux:
  assumes "unat n \<le> length buf" and "0 \<le> sint n"
  shows "CRC32_ProcessBuffer crc addr buf n = Inr (foldl CRC32_ProcessByte crc (take (unat n) buf))"
proof (cases "sint n > 7")
  case False
  then show ?thesis
    using assms crc_tail_bytes [OF assms(1)] by (simp add: CRC32_ProcessBuffer_def)
next
  case True
  let ?odd = "addr AND 3" and ?n = "unat n"
  let ?n' = "n - ?odd"
  have n7: "7 < ?n"
    using True sint_u32_between [OF assms(2)] by linarith
  have o3: "unat ?odd \<le> 3"
    using word_and_le1 [of addr 3] by (simp add: word_le_nat_alt)
  then have n': "unat ?n' = ?n - unat ?odd"
    using n7 by (simp add: unat_sub word_le_nat_alt)
  let ?k = "unat ?n' div 8"
  have "consumes (unat ?odd * 1 + ?k * (4 + 4)) (\<lambda>st. bindE (repeatE (unat ?odd) crc_byte st)
      (repeatE ?k (\<lambda>st. bindE (crc_word st) crc_word)))"
    by (intro consumes_seq consumes_repeat consumes_byte consumes_word)
  then have run: "bindE (repeatE (unat ?odd) crc_byte (crc, buf)) (repeatE ?k (\<lambda>st. bindE (crc_word st) crc_word))
      = Inr (foldl CRC32_ProcessByte crc (take (unat ?odd + ?k * 8) buf), drop (unat ?odd + ?k * 8) buf)"
    using assms(1) n7 o3 n' unfolding consumes_def by simp
  have rest: "unat (?n' AND 7) = unat ?n' mod 8"
    using unat_and_7 .
  have split: "?n = unat ?odd + ?k * 8 + unat ?n' mod 8"
    using n' n7 o3 by simp
  have "crc_tail (unat ?n' mod 8) (foldl CRC32_ProcessByte crc (take (unat ?odd + ?k * 8) buf),
      drop (unat ?odd + ?k * 8) buf) = Inr (foldl CRC32_ProcessByte crc (take ?n buf))"
    using crc_tail_rest [of "unat ?odd + ?k * 8" "unat ?n' mod 8" buf crc] assms(1) by (simp only: split [symmetric])
  then show ?thesis
    using True run rest by (simp add: CRC32_ProcessBuffer_def Let_def bindE_assoc [symmetric])
qed

text \<open>
  C12. The unrolled buffer loop is the byte-by-byte checksum: for every alignment of the buffer and
  every non-negative length inside it, \<^verbatim>\<open>CRC32_ProcessBuffer\<close> returns what \<^verbatim>\<open>CRC32_ProcessByte\<close> gives on
  the bytes one after the other, reading nothing beyond them.
\<close>

theorem CRC32_ProcessBuffer_bytes:
  assumes "unat n \<le> length buf" and "0 \<le> sint n"
  shows "CRC32_ProcessBuffer crc addr buf n = Inr (foldl CRC32_ProcessByte crc (take (unat n) buf))"
  by (rule CRC32_ProcessBuffer_aux [OF assms])

theorem CRC32_ProcessBuffer_bytes_witness:
  "CRC32_ProcessBuffer 7 3 [1, 2, 3, 4, 5, 6, 7, 8, 9, 10, 11, 12] 12
     = Inr (foldl CRC32_ProcessByte 7 [1, 2, 3, 4, 5, 6, 7, 8, 9, 10, 11, 12])"
  using CRC32_ProcessBuffer_bytes [of 12 "[1, 2, 3, 4, 5, 6, 7, 8, 9, 10, 11, 12]" 7 3]
  by (simp add: sint_u32 del: foldl.simps)

section \<open>Files\<close>

text \<open>
  The file system is outside the model: a run of a file loop is given by the results of its
  \<^verbatim>\<open>FS_Read\<close> calls, each with what \<^verbatim>\<open>FS_EndOfFile\<close> and \<^verbatim>\<open>FS_IsOk\<close> answer after it. \<open>hash_file\<close> is
  the loop of \<^verbatim>\<open>CRC_File\<close> and \<^verbatim>\<open>MD5_Hash_File\<close> over the update of the checksum; \<open>None\<close> is a loop that is
  still running when the reads given are used up, \<open>Some (state, ok)\<close> one that ended.
\<close>

type_synonym file_read = "u8 list \<times> bool \<times> bool"

fun hash_file :: "('s \<Rightarrow> u8 list \<Rightarrow> 's outcome) \<Rightarrow> 's \<Rightarrow> file_read list \<Rightarrow> ('s \<times> bool) option outcome" where
  "hash_file upd s [] = Inr None"
| "hash_file upd s ((bytes, eof, ok) # reads) =
     bindE (if length bytes > 0 then upd s bytes else Inr s) (\<lambda>s'.
       if eof then Inr (Some (s', True)) else if \<not> ok then Inr (Some (s', False)) else hash_file upd s' reads)"

text \<open>
  The contract of an incremental checksum: \<open>good s m\<close> says the state is that of the message \<open>m\<close>,
  and an update by a piece makes it the state of the longer message. Messages are limited to \<open>bound\<close>
  bytes.
\<close>

locale stream_hash =
  fixes upd :: "'s \<Rightarrow> u8 list \<Rightarrow> 's outcome" and good :: "'s \<Rightarrow> u8 list \<Rightarrow> bool"
  assumes upd_good: "good s m \<Longrightarrow> length xs < 2 ^ 31 \<Longrightarrow> \<exists>s'. upd s xs = Inr s' \<and> good s' (m @ xs)"
begin

lemma upd_pieces:
  "good s m \<Longrightarrow> \<forall>xs \<in> set xss. length xs < 2 ^ 31 \<Longrightarrow> \<exists>s'. foldE upd s xss = Inr s' \<and> good s' (m @ concat xss)"
proof (induction xss arbitrary: s m)
  case (Cons xs xss)
  then obtain s1 where "upd s xs = Inr s1" "good s1 (m @ xs)"
    using upd_good [of s m xs] by auto
  then show ?case
    using Cons.IH [of s1 "m @ xs"] Cons.prems(2) by simp
qed simp

text \<open>A file read in pieces until its end.\<close>

lemma hash_file_good:
  "good s m \<Longrightarrow> \<forall>(bytes, eof, ok) \<in> set reads. length bytes < 2 ^ 31 \<and> \<not> eof \<and> ok \<Longrightarrow> length rest < 2 ^ 31 \<Longrightarrow>
    \<exists>s'. hash_file upd s (reads @ [(rest, True, ok)]) = Inr (Some (s', True)) \<and> good s' (m @ concat (map fst reads) @ rest)"
proof (induction reads arbitrary: s m)
  case Nil
  then show ?case
    using upd_good [of s m rest] by (cases rest) auto
next
  case (Cons r reads)
  obtain bytes where r: "r = (bytes, False, True)" "length bytes < 2 ^ 31"
    using Cons.prems(2) by (cases r) auto
  obtain s1 where s1: "(if length bytes > 0 then upd s bytes else Inr s) = Inr s1" "good s1 (m @ bytes)"
    using upd_good [OF Cons.prems(1) r(2)] Cons.prems(1) by (cases bytes) auto
  have "hash_file upd s ((r # reads) @ x) = hash_file upd s1 (reads @ x)" for x
    using r(1) s1(1) by simp
  then show ?case
    using Cons.IH [OF s1(2)] Cons.prems(2,3) r(1) by simp
qed

end

text \<open>The address of the local buffer of the file loop is arbitrary.\<close>

definition crc_update :: "u32 \<Rightarrow> u32 \<Rightarrow> u8 list \<Rightarrow> u32 outcome" where
  "crc_update addr crc bytes = CRC32_ProcessBuffer crc addr bytes (of_nat (length bytes))"

lemma crc_update_bytes:
  "length bytes < 2 ^ 31 \<Longrightarrow> crc_update addr crc bytes = Inr (foldl CRC32_ProcessByte crc bytes)"
  using CRC32_ProcessBuffer_aux [of "of_nat (length bytes)" bytes crc addr]
  by (simp add: crc_update_def unat_of_nat_u32 sint_u32_pos)

text \<open>\<open>None\<close> as the file is a failed open; the result pairs the checksum with the returned flag.\<close>

definition CRC_File :: "u32 \<Rightarrow> u32 \<Rightarrow> file_read list option \<Rightarrow> (u32 \<times> bool) option outcome" where
  "CRC_File addr crc file =
     (case file of None \<Rightarrow> Inr (Some (crc, False)) | Some reads \<Rightarrow> hash_file (crc_update addr) crc reads)"

interpretation crc_stream: stream_hash "crc_update addr" "\<lambda>s m. s = foldl CRC32_ProcessByte crc m" for addr crc
  by unfold_locales (simp add: crc_update_bytes)

text \<open>
  The block checksum of a datagram: \<open>base\<close> is the readable block. The table is read as bytes, the
  four extra bytes come from position \<^verbatim>\<open>sequence % 0x3FC\<close>.
\<close>

definition crc_tab_bytes :: "u8 list" where
  "crc_tab_bytes = concat (map bytes32 CRC32_m_tab_0)"

definition COM_BlockSequenceCRCByte :: "u32 \<Rightarrow> u8 list \<Rightarrow> u32 \<Rightarrow> u32 \<Rightarrow> u8 outcome" where
  "COM_BlockSequenceCRCByte addr base len seqn =
     (if sint seqn < 0 then Inl SysError
      else (let len = (if sint len > 60 then 60 else len) in
        if sint len < 0 then Inl OutOfBounds
        else
          bindE (peek (unat seqn mod 0x3FC) 4 crc_tab_bytes) (\<lambda>ptr.
          bindE (peek 0 (unat len) base) (\<lambda>b.
          bindE (CRC32_ProcessBuffer CRC32_Init addr (b @ ptr) (len + 4)) (\<lambda>crc.
            Inr (ucast (CRC32_Final crc)))))))"

lemma length_crc_tab_bytes: "length crc_tab_bytes = 1024"
proof -
  have "length (concat (map bytes32 ws)) = 4 * length ws" for ws
    by (induction ws) simp_all
  then show ?thesis
    by (simp add: crc_tab_bytes_def)
qed

text \<open>
  The block checksum never reads outside its table or the block, for any sequence number that
  is not negative: it is the low byte of the CRC-32 of at most sixty bytes of the block followed by
  four bytes of the table chosen by the sequence number.
\<close>

theorem BlockSequenceCRC_value:
  assumes "0 \<le> sint seqn" and "0 \<le> sint len" and "min 60 (unat len) \<le> length base"
  shows "COM_BlockSequenceCRCByte addr base len seqn =
    Inr (ucast (CRC32_Final (foldl CRC32_ProcessByte CRC32_Init
      (take (min 60 (unat len)) base @ take 4 (drop (unat seqn mod 1020) crc_tab_bytes)))))"
proof -
  define l :: u32 where "l = (if sint len > 60 then 60 else len)"
  have l: "unat l = min 60 (unat len)" and l0: "0 \<le> sint l"
  proof -
    have "sint len > 60 \<longleftrightarrow> unat len > 60"
      using sint_u32_between [OF assms(2)] by linarith
    then show "unat l = min 60 (unat len)" and "0 \<le> sint l"
      using assms(2) by (simp_all add: l_def sint_u32_small)
  qed
  have "unat seqn mod 1020 < 1020"
    by simp
  then have pt: "peek (unat seqn mod 1020) 4 crc_tab_bytes = Inr (take 4 (drop (unat seqn mod 1020) crc_tab_bytes))"
    and ptl: "length (take 4 (drop (unat seqn mod 1020) crc_tab_bytes)) = 4"
    unfolding peek_def length_take length_drop length_crc_tab_bytes by auto
  have l4: "unat (l + 4) = unat l + 4"
    using l by (simp add: unat_u32_add)
  let ?buf = "take (unat l) base @ take 4 (drop (unat seqn mod 1020) crc_tab_bytes)"
  have blen: "length ?buf = unat (l + 4)"
    using l l4 assms(3) ptl by simp
  have "CRC32_ProcessBuffer CRC32_Init addr ?buf (l + 4) = Inr (foldl CRC32_ProcessByte CRC32_Init ?buf)"
  proof -
    have "unat (l + 4) < 2 ^ 31"
      unfolding l4 l by simp
    then have "0 \<le> sint (l + 4)"
      by (simp only: sint_u32_pos)
    from CRC32_ProcessBuffer_aux [OF eq_refl [OF blen [symmetric]] this] show ?thesis
      unfolding blen [symmetric] by (simp only: take_all_iff order_refl take_all)
  qed
  moreover have "peek 0 (unat l) base = Inr (take (unat l) base)"
    using l assms(3) by (simp add: peek_def)
  ultimately show ?thesis
    using assms(1) l0 pt by (simp add: COM_BlockSequenceCRCByte_def l_def [symmetric] Let_def l)
qed

theorem BlockSequenceCRC_value_witness:
  "COM_BlockSequenceCRCByte 1 [9, 8, 7] 3 5 =
    Inr (ucast (CRC32_Final (foldl CRC32_ProcessByte CRC32_Init ([9, 8, 7] @ take 4 (drop 5 crc_tab_bytes)))))"
  using BlockSequenceCRC_value [of 5 3 "[9, 8, 7]" 1] by (simp add: sint_u32)

end
