(* ===== verification/Crc_Table.thy ===== *)
theory Crc_Table
  imports Crc32
begin

text \<open>
  The table of \<^verbatim>\<open>crc.c\<close> against the definition of CRC-32: division by the reflected polynomial, one
  bit at a time.
\<close>

definition poly_step :: "u32 \<Rightarrow> u32" where
  "poly_step w = (if bit w 0 then drop_bit 1 w XOR 0xEDB88320 else drop_bit 1 w)"

definition poly8 :: "u32 \<Rightarrow> u32" where
  "poly8 w = poly_step (poly_step (poly_step (poly_step (poly_step (poly_step (poly_step (poly_step w)))))))"

fun tab_from :: "u32 \<Rightarrow> u32 list \<Rightarrow> bool" where
  "tab_from b [] \<longleftrightarrow> True"
| "tab_from b (x # xs) \<longleftrightarrow> poly8 b = x \<and> tab_from (b + 1) xs"

lemma tab_from_append: "tab_from b (xs @ ys) \<longleftrightarrow> tab_from b xs \<and> tab_from (b + of_nat (length xs)) ys"
  by (induction xs arbitrary: b) (auto simp: add.assoc)

lemma tab_from_nth: "tab_from b xs \<Longrightarrow> i < length xs \<Longrightarrow> xs ! i = poly8 (b + of_nat i)"
proof (induction xs arbitrary: b i)
  case (Cons x xs)
  then show ?case by (cases i) (auto simp: add.assoc)
qed simp

text \<open>The rows of the table, checked one by one.\<close>

lemma crc_table_checked: "tab_from 0 CRC32_m_tab_0"
  by (simp add: CRC32_m_tab_0_def poly8_def poly_step_def)

lemma poly_step_xor: "poly_step (v XOR w) = poly_step v XOR poly_step w"
  by (auto simp: poly_step_def drop_bit_xor bit_xor_iff xor.assoc xor.commute xor.left_commute)

lemma poly8_xor: "poly8 (v XOR w) = poly8 v XOR poly8 w"
  by (simp add: poly8_def poly_step_xor)

text \<open>Without a bit among the low eight the polynomial never enters.\<close>

lemma poly8_high: "take_bit 8 w = 0 \<Longrightarrow> poly8 w = drop_bit 8 w"
proof -
  assume w: "take_bit 8 w = 0"
  have step: "poly_step (drop_bit k w) = drop_bit (Suc k) w" if "k < 8" for k
  proof -
    have "\<not> bit w k"
      using w that by (metis bit_0_eq bit_take_bit_iff bot_apply bot_bool_def)
    then show ?thesis
      by (simp add: poly_step_def bit_drop_bit_eq add.commute)
  qed
  show ?thesis
    using step [of 0] step [of 1] step [of 2] step [of 3] step [of 4] step [of 5] step [of 6] step [of 7]
    by (simp add: poly8_def numeral_eq_Suc)
qed

lemma crc_shift_poly8: "crc_shift w = poly8 w"
proof -
  let ?lo = "w AND 0xFF" and ?hi = "w AND NOT 0xFF"
  have m: "(0xFF :: u32) = mask 8"
    by (simp add: mask_eq_exp_minus_1)
  have "w = ?lo XOR ?hi" and hi: "take_bit 8 ?hi = 0" and d: "drop_bit 8 ?hi = drop_bit 8 w"
    unfolding m by (rule bit_word_eqI, auto simp only: bit_xor_iff bit_and_iff bit_not_iff bit_mask_iff
        bit_take_bit_iff bit_drop_bit_eq bit_0_eq comp_def bot_apply, auto dest: bit_imp_le_length)+
  then have "poly8 w = poly8 ?lo XOR drop_bit 8 w"
    using poly8_xor [of ?lo ?hi] poly8_high [OF hi] d by simp
  moreover have "unat ?lo < 256"
    using word_and_le1 [of w 255] by (simp add: word_le_nat_alt and.commute)
  then have "CRC32_m_tab_0 ! unat ?lo = poly8 ?lo"
    using tab_from_nth [OF crc_table_checked, of "unat ?lo"] by simp
  ultimately show ?thesis
    by (simp add: crc_shift_def)
qed

text \<open>
  C13. The table-driven update is CRC-32: processing a byte divides the register, with the byte
  added to its low end, by the reflected polynomial \<open>0xEDB88320\<close>, one step per bit.
\<close>

theorem CRC32_ProcessByte_polynomial:
  "CRC32_ProcessByte crc ch = poly8 (crc XOR ucast ch)"
  by (simp add: CRC32_ProcessByte_def crc_shift_poly8)

end
