(* ===== verification/Md5.thy ===== *)
theory Md5
  imports Crc32
begin

text \<open>
  \<^verbatim>\<open>crc.c\<close>, the MD5 half: the context \<^verbatim>\<open>MD5Context_t\<close> (chaining state, 64-bit bit count, partial
  block), the compression function written out round by round, update and final, and the digests of a
  file and of a cached file. The specification \<open>md5_digest\<close> pads the whole message and folds the
  compression function over its blocks; streaming is proved to compute it for every way of cutting
  the message.
\<close>

type_synonym md5_state = "u32 \<times> u32 \<times> u32 \<times> u32"

record md5_context =
  mc_buf :: md5_state
  mc_bits0 :: u32
  mc_bits1 :: u32
  mc_in :: "u8 list"

definition ROTATE_LEFT :: "u32 \<Rightarrow> nat \<Rightarrow> u32" where
  "ROTATE_LEFT x n = push_bit n x OR drop_bit (32 - n) x"

definition FF :: "u32 \<Rightarrow> u32 \<Rightarrow> u32 \<Rightarrow> u32 \<Rightarrow> u32 \<Rightarrow> nat \<Rightarrow> u32 \<Rightarrow> u32" where
  "FF a b c d x s ac = ROTATE_LEFT (a + (((b AND c) OR (NOT b AND d)) + x + ac)) s + b"

definition GG :: "u32 \<Rightarrow> u32 \<Rightarrow> u32 \<Rightarrow> u32 \<Rightarrow> u32 \<Rightarrow> nat \<Rightarrow> u32 \<Rightarrow> u32" where
  "GG a b c d x s ac = ROTATE_LEFT (a + (((b AND d) OR (c AND NOT d)) + x + ac)) s + b"

definition HH :: "u32 \<Rightarrow> u32 \<Rightarrow> u32 \<Rightarrow> u32 \<Rightarrow> u32 \<Rightarrow> nat \<Rightarrow> u32 \<Rightarrow> u32" where
  "HH a b c d x s ac = ROTATE_LEFT (a + ((b XOR c XOR d) + x + ac)) s + b"

definition II :: "u32 \<Rightarrow> u32 \<Rightarrow> u32 \<Rightarrow> u32 \<Rightarrow> u32 \<Rightarrow> nat \<Rightarrow> u32 \<Rightarrow> u32" where
  "II a b c d x s ac = ROTATE_LEFT (a + ((c XOR (b OR NOT d)) + x + ac)) s + b"

definition Encode :: "u32 list \<Rightarrow> u8 list" where
  "Encode ws = concat (map bytes32 ws)"

fun Decode :: "nat \<Rightarrow> u8 list \<Rightarrow> u32 list outcome" where
  "Decode 0 bs = Inr []"
| "Decode (Suc n) bs = bindE (load32 0 bs) (\<lambda>w. bindE (Decode n (drop 4 bs)) (\<lambda>ws. Inr (w # ws)))"

definition md5_round1 :: "u32 list \<Rightarrow> md5_state \<Rightarrow> md5_state" where
  "md5_round1 x = (\<lambda>(a, b, c, d).
     let a = FF a b c d (x ! 0) 7 0xd76aa478;
         d = FF d a b c (x ! 1) 12 0xe8c7b756;
         c = FF c d a b (x ! 2) 17 0x242070db;
         b = FF b c d a (x ! 3) 22 0xc1bdceee;
         a = FF a b c d (x ! 4) 7 0xf57c0faf;
         d = FF d a b c (x ! 5) 12 0x4787c62a;
         c = FF c d a b (x ! 6) 17 0xa8304613;
         b = FF b c d a (x ! 7) 22 0xfd469501;
         a = FF a b c d (x ! 8) 7 0x698098d8;
         d = FF d a b c (x ! 9) 12 0x8b44f7af;
         c = FF c d a b (x ! 10) 17 0xffff5bb1;
         b = FF b c d a (x ! 11) 22 0x895cd7be;
         a = FF a b c d (x ! 12) 7 0x6b901122;
         d = FF d a b c (x ! 13) 12 0xfd987193;
         c = FF c d a b (x ! 14) 17 0xa679438e;
         b = FF b c d a (x ! 15) 22 0x49b40821
     in (a, b, c, d))"

definition md5_round2 :: "u32 list \<Rightarrow> md5_state \<Rightarrow> md5_state" where
  "md5_round2 x = (\<lambda>(a, b, c, d).
     let a = GG a b c d (x ! 1) 5 0xf61e2562;
         d = GG d a b c (x ! 6) 9 0xc040b340;
         c = GG c d a b (x ! 11) 14 0x265e5a51;
         b = GG b c d a (x ! 0) 20 0xe9b6c7aa;
         a = GG a b c d (x ! 5) 5 0xd62f105d;
         d = GG d a b c (x ! 10) 9 0x02441453;
         c = GG c d a b (x ! 15) 14 0xd8a1e681;
         b = GG b c d a (x ! 4) 20 0xe7d3fbc8;
         a = GG a b c d (x ! 9) 5 0x21e1cde6;
         d = GG d a b c (x ! 14) 9 0xc33707d6;
         c = GG c d a b (x ! 3) 14 0xf4d50d87;
         b = GG b c d a (x ! 8) 20 0x455a14ed;
         a = GG a b c d (x ! 13) 5 0xa9e3e905;
         d = GG d a b c (x ! 2) 9 0xfcefa3f8;
         c = GG c d a b (x ! 7) 14 0x676f02d9;
         b = GG b c d a (x ! 12) 20 0x8d2a4c8a
     in (a, b, c, d))"

definition md5_round3 :: "u32 list \<Rightarrow> md5_state \<Rightarrow> md5_state" where
  "md5_round3 x = (\<lambda>(a, b, c, d).
     let a = HH a b c d (x ! 5) 4 0xfffa3942;
         d = HH d a b c (x ! 8) 11 0x8771f681;
         c = HH c d a b (x ! 11) 16 0x6d9d6122;
         b = HH b c d a (x ! 14) 23 0xfde5380c;
         a = HH a b c d (x ! 1) 4 0xa4beea44;
         d = HH d a b c (x ! 4) 11 0x4bdecfa9;
         c = HH c d a b (x ! 7) 16 0xf6bb4b60;
         b = HH b c d a (x ! 10) 23 0xbebfbc70;
         a = HH a b c d (x ! 13) 4 0x289b7ec6;
         d = HH d a b c (x ! 0) 11 0xeaa127fa;
         c = HH c d a b (x ! 3) 16 0xd4ef3085;
         b = HH b c d a (x ! 6) 23 0x04881d05;
         a = HH a b c d (x ! 9) 4 0xd9d4d039;
         d = HH d a b c (x ! 12) 11 0xe6db99e5;
         c = HH c d a b (x ! 15) 16 0x1fa27cf8;
         b = HH b c d a (x ! 2) 23 0xc4ac5665
     in (a, b, c, d))"

definition md5_round4 :: "u32 list \<Rightarrow> md5_state \<Rightarrow> md5_state" where
  "md5_round4 x = (\<lambda>(a, b, c, d).
     let a = II a b c d (x ! 0) 6 0xf4292244;
         d = II d a b c (x ! 7) 10 0x432aff97;
         c = II c d a b (x ! 14) 15 0xab9423a7;
         b = II b c d a (x ! 5) 21 0xfc93a039;
         a = II a b c d (x ! 12) 6 0x655b59c3;
         d = II d a b c (x ! 3) 10 0x8f0ccc92;
         c = II c d a b (x ! 10) 15 0xffeff47d;
         b = II b c d a (x ! 1) 21 0x85845dd1;
         a = II a b c d (x ! 8) 6 0x6fa87e4f;
         d = II d a b c (x ! 15) 10 0xfe2ce6e0;
         c = II c d a b (x ! 6) 15 0xa3014314;
         b = II b c d a (x ! 13) 21 0x4e0811a1;
         a = II a b c d (x ! 4) 6 0xf7537e82;
         d = II d a b c (x ! 11) 10 0xbd3af235;
         c = II c d a b (x ! 2) 15 0x2ad7d2bb;
         b = II b c d a (x ! 9) 21 0xeb86d391
     in (a, b, c, d))"

definition md5_rounds :: "md5_state \<Rightarrow> u32 list \<Rightarrow> md5_state" where
  "md5_rounds st x =
     (case st of (a0, b0, c0, d0) \<Rightarrow>
      case md5_round4 x (md5_round3 x (md5_round2 x (md5_round1 x st))) of (a, b, c, d) \<Rightarrow>
        (a0 + a, b0 + b, c0 + c, d0 + d))"

definition MD5Transform :: "md5_state \<Rightarrow> u8 list \<Rightarrow> md5_state outcome" where
  "MD5Transform st block = bindE (Decode 16 block) (\<lambda>x. Inr (md5_rounds st x))"

definition MD5Init :: "md5_context \<Rightarrow> md5_context" where
  "MD5Init ctx = ctx\<lparr>mc_bits0 := 0, mc_bits1 := 0,
     mc_buf := (0x67452301, 0xefcdab89, 0x98badcfe, 0x10325476)\<rparr>"

text \<open>
  The loop over the whole blocks of the input, from offset \<open>i\<close>; the result is the state and the
  offset where it stopped. The comparison is the 32-bit one of the source.
\<close>

function md5_blocks :: "u8 list \<Rightarrow> u32 \<Rightarrow> nat \<Rightarrow> md5_state \<Rightarrow> (md5_state \<times> nat) outcome" where
  "md5_blocks input len i st =
     (if of_nat i + 63 < len then
        bindE (peek i 64 input) (\<lambda>block.
        bindE (MD5Transform st block) (\<lambda>st'. md5_blocks input len (i + 64) st'))
      else Inr (st, i))"
  by pat_completeness auto

termination
  by (relation "measure (\<lambda>(input, len, i, st). length input - i)") (auto simp: peek_Inr)

declare md5_blocks.simps [simp del]

definition MD5Update :: "md5_context \<Rightarrow> u8 list \<Rightarrow> u32 \<Rightarrow> md5_context outcome" where
  "MD5Update ctx input len =
     (let index = unat (drop_bit 3 (mc_bits0 ctx) AND 0x3F);
          add = push_bit 3 len;
          bits0 = mc_bits0 ctx + add;
          bits1 = (if bits0 < add then mc_bits1 ctx + 1 else mc_bits1 ctx) + drop_bit 29 len;
          partLen = 64 - index in
      bindE
        (if unat len \<ge> partLen then
           bindE (peek 0 partLen input) (\<lambda>part.
           bindE (poke index part (mc_in ctx)) (\<lambda>block.
           bindE (MD5Transform (mc_buf ctx) block) (\<lambda>st.
           bindE (md5_blocks input len partLen st) (\<lambda>(st', i). Inr (st', block, 0, i)))))
         else Inr (mc_buf ctx, mc_in ctx, index, 0))
        (\<lambda>(st, block, index, i).
           bindE (peek i (unat len - i) input) (\<lambda>rest.
           bindE (poke index rest block) (\<lambda>block'.
             Inr \<lparr>mc_buf = st, mc_bits0 = bits0, mc_bits1 = bits1, mc_in = block'\<rparr>))))"

definition PADDING :: "u8 list" where
  "PADDING = 0x80 # replicate 63 0"

text \<open>The result is the digest; the context is cleared.\<close>

definition MD5Final :: "md5_context \<Rightarrow> u8 list outcome" where
  "MD5Final ctx =
     (let bits = Encode [mc_bits0 ctx, mc_bits1 ctx];
          index = drop_bit 3 (mc_bits0 ctx) AND 0x3f;
          padLen = (if index < 56 then 56 - index else 120 - index) in
      bindE (MD5Update ctx PADDING padLen) (\<lambda>ctx1.
      bindE (MD5Update ctx1 bits 8) (\<lambda>ctx2.
        Inr (case mc_buf ctx2 of (a, b, c, d) \<Rightarrow> Encode [a, b, c, d]))))"

definition md5_empty :: md5_context where
  "md5_empty = \<lparr>mc_buf = (0, 0, 0, 0), mc_bits0 = 0, mc_bits1 = 0, mc_in = replicate 64 0\<rparr>"

definition md5_update :: "md5_context \<Rightarrow> u8 list \<Rightarrow> md5_context outcome" where
  "md5_update ctx bytes = MD5Update ctx bytes (of_nat (length bytes))"

definition MD5_Hash_CachedFile :: "u8 list option \<Rightarrow> u32 \<Rightarrow> bool \<Rightarrow> u32 list \<Rightarrow> (u8 list option) outcome" where
  "MD5_Hash_CachedFile cache nFileSize seeded seed =
     (case cache of None \<Rightarrow> Inr None
      | Some bytes \<Rightarrow>
          bindE (if seeded then MD5Update (MD5Init md5_empty) (Encode seed) 16 else Inr (MD5Init md5_empty)) (\<lambda>ctx.
          bindE (MD5Update ctx bytes nFileSize) (\<lambda>ctx1.
          bindE (MD5Final ctx1) (\<lambda>digest. Inr (Some digest)))))"

text \<open>\<open>None\<close> is a loop still running, \<open>Some None\<close> the returned 0.\<close>

definition MD5_Hash_File :: "file_read list option \<Rightarrow> bool \<Rightarrow> u32 list \<Rightarrow> (u8 list option) option outcome" where
  "MD5_Hash_File file seeded seed =
     (case file of None \<Rightarrow> Inr (Some None)
      | Some reads \<Rightarrow>
          bindE (if seeded then MD5Update (MD5Init md5_empty) (Encode seed) 16 else Inr (MD5Init md5_empty)) (\<lambda>ctx.
          bindE (hash_file md5_update ctx reads) (\<lambda>r.
            case r of None \<Rightarrow> Inr None
            | Some (ctx1, ok) \<Rightarrow>
                if ok then bindE (MD5Final ctx1) (\<lambda>digest. Inr (Some (Some digest))) else Inr (Some None))))"

section \<open>The specification\<close>

text \<open>The compression function on a whole block, and its fold over the whole blocks of a message.\<close>

definition compress :: "md5_state \<Rightarrow> u8 list \<Rightarrow> md5_state" where
  "compress st block = (case MD5Transform st block of Inr st' \<Rightarrow> st' | Inl _ \<Rightarrow> st)"

function md5_fold :: "md5_state \<Rightarrow> u8 list \<Rightarrow> md5_state" where
  "md5_fold st m = (if length m < 64 then st else md5_fold (compress st (take 64 m)) (drop 64 m))"
  by pat_completeness auto

termination
  by (relation "measure (\<lambda>(st, m). length m)") auto

declare md5_fold.simps [simp del]

definition md5_tail :: "u8 list \<Rightarrow> u8 list" where
  "md5_tail m = drop (64 * (length m div 64)) m"

definition md5_iv :: md5_state where
  "md5_iv = (0x67452301, 0xefcdab89, 0x98badcfe, 0x10325476)"

text \<open>A one bit, zeros up to eight bytes before the end of a block, and the length in bits.\<close>

definition md5_length :: "nat \<Rightarrow> u8 list" where
  "md5_length n = bytes32 (of_nat (8 * n)) @ bytes32 (of_nat (8 * n div 2 ^ 32))"

definition md5_pad :: "u8 list \<Rightarrow> u8 list" where
  "md5_pad m = m @ 0x80 # replicate ((119 - length m mod 64) mod 64) 0 @ md5_length (length m)"

definition md5_digest :: "u8 list \<Rightarrow> u8 list" where
  "md5_digest m = (case md5_fold md5_iv (md5_pad m) of (a, b, c, d) \<Rightarrow> Encode [a, b, c, d])"

section \<open>Folding over pieces\<close>

lemma Decode_total: "4 * n \<le> length bs \<Longrightarrow> \<exists>ws. Decode n bs = Inr ws"
proof (induction n arbitrary: bs)
  case (Suc n)
  then obtain ws where "Decode n (drop 4 bs) = Inr ws"
    by force
  then show ?case
    using Suc.prems by (simp add: load32_def peek_def)
qed simp

lemma MD5Transform_compress: "64 \<le> length block \<Longrightarrow> MD5Transform st block = Inr (compress st block)"
  using Decode_total [of 16 block] by (auto simp: compress_def MD5Transform_def)

lemma length_md5_tail: "length (md5_tail m) = length m mod 64"
  by (simp add: md5_tail_def modulo_nat_def)

lemma md5_tail_short: "length m < 64 \<Longrightarrow> md5_tail m = m"
  by (simp add: md5_tail_def)

lemma md5_tail_drop: "64 \<le> length m \<Longrightarrow> md5_tail (drop 64 m) = md5_tail m"
proof -
  assume "64 \<le> length m"
  then obtain k where k: "length m = k + 64"
    by (metis add.commute le_Suc_ex)
  have "(k + 64) div 64 = k div 64 + 1"
    by (rule div_add_self2) simp
  then have "64 * (length m div 64) = 64 * (k div 64) + 64"
    using k by simp
  then show ?thesis
    using k by (simp add: md5_tail_def)
qed

lemma md5_fold_append: "md5_fold st (m @ xs) = md5_fold (md5_fold st m) (md5_tail m @ xs)"
proof (induction st m rule: md5_fold.induct)
  case (1 st m)
  show ?case
  proof (cases "length m < 64")
    case True
    then show ?thesis
      by (simp add: md5_fold.simps [of st m] md5_tail_short)
  next
    case False
    then have "md5_fold st (m @ xs) = md5_fold (compress st (take 64 m)) (drop 64 m @ xs)"
      by (simp add: md5_fold.simps [of st "m @ xs"])
    then show ?thesis
      using 1 [OF False] False by (simp add: md5_fold.simps [of st m] md5_tail_drop)
  qed
qed

lemma md5_tail_append: "md5_tail (m @ xs) = md5_tail (md5_tail m @ xs)"
proof (induction m rule: measure_induct_rule [of length])
  case (less m)
  show ?case
  proof (cases "length m < 64")
    case False
    then have "md5_tail (drop 64 m @ xs) = md5_tail (md5_tail (drop 64 m) @ xs)"
      by (intro less) simp
    then show ?thesis
      using False md5_tail_drop [of "m @ xs"] by (simp add: md5_tail_drop)
  qed (simp add: md5_tail_short)
qed

section \<open>Streaming\<close>

definition md5_good :: "md5_context \<Rightarrow> u8 list \<Rightarrow> bool" where
  "md5_good ctx m \<longleftrightarrow>
     mc_buf ctx = md5_fold md5_iv m \<and> length (mc_in ctx) = 64 \<and>
     take (length m mod 64) (mc_in ctx) = md5_tail m \<and>
     mc_bits0 ctx = of_nat (8 * length m) \<and> mc_bits1 ctx = of_nat (8 * length m div 2 ^ 32)"

lemma mod_sum_below: "a < M \<Longrightarrow> b < M \<Longrightarrow> (a + b) mod M < b \<longleftrightarrow> (M :: nat) \<le> a + b"
  by (cases "M \<le> a + b") (auto simp: le_mod_geq)

lemma div_sum_below: "a < M \<Longrightarrow> b < M \<Longrightarrow> (a + b) div M = (if (M :: nat) \<le> a + b then 1 else 0)"
  by (cases "M \<le> a + b") (auto simp: le_div_geq)

text \<open>The carry of the two-word bit count.\<close>

lemma bit_count_add:
  fixes x y :: nat
  shows "(of_nat ((x + y) div 2 ^ 32) :: u32) =
    (if (of_nat x + of_nat y :: u32) < of_nat y then of_nat (x div 2 ^ 32) + 1 else of_nat (x div 2 ^ 32))
      + of_nat (y div 2 ^ 32)"
proof -
  let ?M = "2 ^ 32 :: nat"
  have "unat (of_nat x + of_nat y :: u32) = (x mod ?M + y mod ?M) mod ?M"
    by (simp add: unat_word_ariths unat_of_nat)
  moreover have "unat (of_nat y :: u32) = y mod ?M"
    by (simp add: unat_of_nat)
  ultimately have lt: "(of_nat x + of_nat y :: u32) < of_nat y \<longleftrightarrow> ?M \<le> x mod ?M + y mod ?M"
    unfolding word_less_nat_alt by (simp only: mod_sum_below mod_less_divisor zero_less_power zero_less_numeral)
  have "(x mod ?M + y mod ?M) div ?M = (if ?M \<le> x mod ?M + y mod ?M then 1 else 0)"
    by (rule div_sum_below) simp_all
  then have "(x + y) div ?M = x div ?M + y div ?M + (if ?M \<le> x mod ?M + y mod ?M then 1 else 0)"
    using div_add1_eq [of x y ?M] by simp
  then show ?thesis
    unfolding lt by simp
qed

lemma unat_byte_index: "unat (drop_bit 3 (w :: u32) AND 0x3F) = unat w div 8 mod 64"
proof -
  have "(0x3F :: u32) = mask 6"
    by (simp add: mask_eq_exp_minus_1)
  then have "drop_bit 3 w AND 0x3F = take_bit 6 (drop_bit 3 w)"
    by (simp only: take_bit_eq_mask)
  then show ?thesis
    by (simp add: take_bit_eq_mod drop_bit_eq_div unat_mod unat_div)
qed

lemma md5_index: "unat (drop_bit 3 (of_nat (8 * n) :: u32) AND 0x3F) = n mod 64"
proof -
  have "unat (of_nat (8 * n) :: u32) = 8 * (n mod 2 ^ 29)"
    by (simp only: unat_of_nat) (simp add: mult_mod_right)
  moreover have "8 * (n mod 2 ^ 29) div 8 mod 64 = n mod (64 :: nat)"
    by (simp add: mod_mod_cancel)
  ultimately show ?thesis
    by (simp only: unat_byte_index)
qed

lemma md5_count_add:
  fixes L n :: nat
  assumes "n < 2 ^ 32"
  defines "b0 \<equiv> of_nat (8 * L) + push_bit 3 (of_nat n) :: u32"
  shows "b0 = of_nat (8 * (L + n))"
    and "(if b0 < push_bit 3 (of_nat n) then of_nat (8 * L div 2 ^ 32) + 1 else of_nat (8 * L div 2 ^ 32))
      + drop_bit 29 (of_nat n :: u32) = of_nat (8 * (L + n) div 2 ^ 32)"
proof -
  have p: "push_bit 3 (of_nat n :: u32) = of_nat (8 * n)"
    by (simp add: push_bit_eq_mult)
  have "unat (drop_bit 29 (of_nat n :: u32)) = n div 2 ^ 29"
    using assms(1) by (simp add: drop_bit_eq_div unat_div unat_of_nat_u32)
  moreover have "8 * n div 2 ^ 32 = n div 2 ^ 29"
    using div_mult_mult1 [of 8 n "2 ^ 29"] by simp
  ultimately have d: "drop_bit 29 (of_nat n :: u32) = of_nat (8 * n div 2 ^ 32)"
    using le_less_trans [OF div_le_dividend assms(1), of "2 ^ 29"] by (simp add: word_unat_eq_iff unat_of_nat)
  show "b0 = of_nat (8 * (L + n))"
    unfolding b0_def p by (simp add: distrib_left)
  show "(if b0 < push_bit 3 (of_nat n) then of_nat (8 * L div 2 ^ 32) + 1 else of_nat (8 * L div 2 ^ 32))
      + drop_bit 29 (of_nat n :: u32) = of_nat (8 * (L + n) div 2 ^ 32)"
    unfolding b0_def p d distrib_left [of 8 L n] bit_count_add [of "8 * L" "8 * n"] ..
qed

text \<open>The block loop folds what is left of the input and stops where its tail begins.\<close>

lemma md5_blocks_fold:
  "length input < 2 ^ 31 \<Longrightarrow> i \<le> length input \<Longrightarrow>
    md5_blocks input (of_nat (length input)) i st =
      Inr (md5_fold st (drop i input), length input - length (md5_tail (drop i input)))"
proof (induction input "of_nat (length input) :: u32" i st rule: md5_blocks.induct)
  case (1 input i st)
  have "unat (of_nat i + 63 :: u32) = i + 63"
    using 1(2,3) by (simp add: unat_u32_add unat_of_nat_u32)
  then have lt: "(of_nat i + 63 :: u32) < of_nat (length input) \<longleftrightarrow> i + 64 \<le> length input"
    using 1(2) by (auto simp: word_less_nat_alt unat_of_nat_u32)
  show ?case
  proof (cases "i + 64 \<le> length input")
    case False
    then have "length (drop i input) < 64"
      using 1(3) by simp
    then show ?thesis
      using False lt 1(3) by (simp add: md5_blocks.simps [of input _ i] md5_fold.simps [of st] md5_tail_short)
  next
    case True
    let ?b = "take 64 (drop i input)"
    have pk: "peek i 64 input = Inr ?b"
      using True by (simp add: peek_def)
    have tr: "MD5Transform st ?b = Inr (compress st ?b)"
      using True by (intro MD5Transform_compress) simp
    have "md5_blocks input (of_nat (length input)) (i + 64) (compress st ?b) =
        Inr (md5_fold (compress st ?b) (drop (i + 64) input), length input - length (md5_tail (drop (i + 64) input)))"
      using 1(1) [OF _ pk tr] lt True 1(2) by simp
    moreover have d: "drop (i + 64) input = drop 64 (drop i input)"
      by (simp add: add.commute)
    moreover have long: "64 \<le> length (drop i input)"
      using True by simp
    moreover have "md5_tail (drop (i + 64) input) = md5_tail (drop i input)"
      unfolding d by (rule md5_tail_drop [OF long])
    moreover have "md5_fold st (drop i input) = md5_fold (compress st ?b) (drop (i + 64) input)"
      unfolding d by (subst md5_fold.simps) (use long in \<open>simp del: drop_drop\<close>)
    ultimately show ?thesis
      using True lt pk tr by (simp add: md5_blocks.simps [of input _ i])
  qed
qed

lemma md5_good_counts:
  assumes "md5_good ctx m" and "length xs < 2 ^ 31"
  defines "n \<equiv> of_nat (length xs) :: u32"
  shows "unat n = length xs" and "unat (drop_bit 3 (mc_bits0 ctx) AND 0x3F) = length m mod 64"
    and "mc_bits0 ctx + push_bit 3 n = of_nat (8 * length (m @ xs))"
    and "(if mc_bits0 ctx + push_bit 3 n < push_bit 3 n then mc_bits1 ctx + 1 else mc_bits1 ctx)
      + drop_bit 29 n = of_nat (8 * length (m @ xs) div 2 ^ 32)"
proof -
  have b: "mc_bits0 ctx = of_nat (8 * length m)" "mc_bits1 ctx = of_nat (8 * length m div 2 ^ 32)"
    using assms(1) unfolding md5_good_def by blast+
  have lt: "length xs < 2 ^ 32"
    using assms(2) by simp
  show "unat n = length xs"
    unfolding n_def by (rule unat_of_nat_u32 [OF lt])
  show "unat (drop_bit 3 (mc_bits0 ctx) AND 0x3F) = length m mod 64"
    unfolding b(1) by (rule md5_index)
  show "mc_bits0 ctx + push_bit 3 n = of_nat (8 * length (m @ xs))"
    unfolding b(1) n_def length_append by (rule md5_count_add(1) [OF lt])
  show "(if mc_bits0 ctx + push_bit 3 n < push_bit 3 n then mc_bits1 ctx + 1 else mc_bits1 ctx)
      + drop_bit 29 n = of_nat (8 * length (m @ xs) div 2 ^ 32)"
    unfolding b n_def length_append by (rule md5_count_add(2) [OF lt])
qed

lemma md5_update_short:
  assumes "md5_good ctx m" and "length m mod 64 + length xs < 64"
  shows "\<exists>ctx'. md5_update ctx xs = Inr ctx' \<and> md5_good ctx' (m @ xs)"
proof -
  let ?t = "length m mod 64" and ?y = "md5_tail m @ xs"
  have "length xs < 2 ^ 31"
    using assms(2) by simp
  note c = md5_good_counts [OF assms(1) this]
  have y: "length ?y < 64" "md5_tail (m @ xs) = ?y"
    using assms(2) md5_tail_append [of m xs] by (simp_all add: length_md5_tail md5_tail_short)
  have lin: "length (mc_in ctx) = 64" and tk: "take ?t (mc_in ctx) = md5_tail m"
    and buf: "mc_buf ctx = md5_fold md5_iv m"
    using assms(1) unfolding md5_good_def by blast+
  obtain b where b: "poke ?t xs (mc_in ctx) = Inr b"
    using poke_total [of ?t xs "mc_in ctx"] assms(2) lin by auto
  have "(length m + length xs) mod 64 = ?t + length xs"
    using assms(2) by (metis mod_add_left_eq mod_less)
  moreover have "md5_fold md5_iv (m @ xs) = md5_fold md5_iv m"
    unfolding md5_fold_append [of _ m] by (subst md5_fold.simps) (use y in simp)
  moreover have "md5_update ctx xs = Inr \<lparr>mc_buf = mc_buf ctx,
      mc_bits0 = of_nat (8 * length (m @ xs)), mc_bits1 = of_nat (8 * length (m @ xs) div 2 ^ 32), mc_in = b\<rparr>"
    unfolding md5_update_def MD5Update_def Let_def c(4) unfolding c(1-3) using assms(2) b by (simp add: peek_def)
  ultimately show ?thesis
    using lin tk buf length_poke [OF b] poke_take_through [OF b] y(2) by (simp add: md5_good_def)
qed

text \<open>The bytes after the whole blocks are a suffix of the input.\<close>

lemma drop_to_tail: "i \<le> length xs \<Longrightarrow> drop (length xs - length (md5_tail (drop i xs))) xs = md5_tail (drop i xs)"
proof -
  assume "i \<le> length xs"
  then have "length xs - length (md5_tail (drop i xs)) = 64 * (length (drop i xs) div 64) + i"
    unfolding length_md5_tail using mult_div_mod_eq [of 64 "length (drop i xs)"] unfolding length_drop by linarith
  then show ?thesis
    by (simp add: md5_tail_def)
qed

lemma md5_update_long:
  assumes "md5_good ctx m" and "64 \<le> length m mod 64 + length xs" and "length xs < 2 ^ 31"
  shows "\<exists>ctx'. md5_update ctx xs = Inr ctx' \<and> md5_good ctx' (m @ xs)"
proof -
  let ?t = "length m mod 64" and ?y = "md5_tail m @ xs"
  let ?p = "64 - length m mod 64"
  let ?r = "md5_tail (drop ?p xs)" and ?n = "length xs"
  note c = md5_good_counts [OF assms(1,3)]
  have lin: "length (mc_in ctx) = 64" and tk: "take ?t (mc_in ctx) = md5_tail m"
    and buf: "mc_buf ctx = md5_fold md5_iv m"
    using assms(1) unfolding md5_good_def by blast+
  have t: "?t < 64" by simp
  have p: "?p \<le> ?n" "?p + ?t = 64"
    using assms(2) by simp_all
  let ?block = "md5_tail m @ take ?p xs"
  have lb: "length ?block = 64"
    using p by (simp add: length_md5_tail)
  have y: "take 64 ?y = ?block" "drop 64 ?y = drop ?p xs" "64 \<le> length ?y"
    using p t by (simp_all add: length_md5_tail)
  have tail: "md5_tail (m @ xs) = ?r"
    using md5_tail_append [of m xs] md5_tail_drop [OF y(3)] y(2) by simp
  have fold: "md5_fold md5_iv (m @ xs) = md5_fold (compress (mc_buf ctx) ?block) (drop ?p xs)"
    unfolding md5_fold_append [of _ m] buf by (subst md5_fold.simps) (simp only: y not_less if_False if_not_P)
  have pk: "peek 0 ?p xs = Inr (take ?p xs)"
    using p by (simp add: peek_def)
  have pb: "poke ?t (take ?p xs) (mc_in ctx) = Inr ?block"
    using p lin tk by (simp add: poke_def min_def)
  have tr: "MD5Transform (mc_buf ctx) ?block = Inr (compress (mc_buf ctx) ?block)"
    using lb by (intro MD5Transform_compress) simp
  have lp: "md5_blocks xs (of_nat ?n) ?p (compress (mc_buf ctx) ?block) =
      Inr (md5_fold md5_iv (m @ xs), ?n - length ?r)"
    unfolding fold by (rule md5_blocks_fold [OF assms(3) p(1)])
  have lr: "length ?r \<le> ?n" "length ?r < 64"
    by (simp_all add: length_md5_tail)
  have pr: "peek (?n - length ?r) (?n - (?n - length ?r)) xs = Inr ?r"
    using lr(1) drop_to_tail [OF p(1)] by (simp add: peek_def)
  obtain b where b: "poke 0 ?r ?block = Inr b"
    using poke_total [of 0 ?r ?block] lr(2) lb by auto
  have "md5_update ctx xs = Inr \<lparr>mc_buf = md5_fold md5_iv (m @ xs),
      mc_bits0 = of_nat (8 * length (m @ xs)), mc_bits1 = of_nat (8 * length (m @ xs) div 2 ^ 32), mc_in = b\<rparr>"
    unfolding md5_update_def MD5Update_def Let_def c(4) unfolding c(1-3)
    using p(1) pk pb tr lp pr b by simp
  moreover have "take (length (m @ xs) mod 64) b = ?r"
    using poke_take_through [OF b] tail length_md5_tail [of "m @ xs"] by simp
  moreover have "length b = 64"
    using length_poke [OF b] lb by simp
  ultimately show ?thesis
    using tail by (simp add: md5_good_def)
qed

lemma md5_update_good:
  "md5_good ctx m \<Longrightarrow> length xs < 2 ^ 31 \<Longrightarrow> \<exists>ctx'. md5_update ctx xs = Inr ctx' \<and> md5_good ctx' (m @ xs)"
  using md5_update_short [of ctx m xs] md5_update_long [of ctx m xs] by (meson not_less)

interpretation md5_stream: stream_hash md5_update md5_good
  by unfold_locales (rule md5_update_good)

section \<open>Digests\<close>

text \<open>An update looks at no more than the bytes it is told to.\<close>

lemma peek_take: "i + n \<le> k \<Longrightarrow> k \<le> length xs \<Longrightarrow> peek i n (take k xs) = peek i n xs"
  by (simp add: peek_def drop_take min_absorb1)

lemma md5_blocks_take:
  "unat len \<le> length input \<Longrightarrow> unat len < 2 ^ 31 \<Longrightarrow> i \<le> unat len \<Longrightarrow>
    md5_blocks (take (unat len) input) len i st = md5_blocks input len i st"
proof (induction input len i st rule: md5_blocks.induct)
  case (1 input len i st)
  have u: "unat (of_nat i + 63 :: u32) = i + 63"
    using 1(3,4) by (simp add: unat_u32_add unat_of_nat_u32)
  show ?case
  proof (cases "of_nat i + 63 < len")
    case True
    then have i: "i + 64 \<le> unat len"
      using u by (simp add: word_less_nat_alt)
    have pk: "peek i 64 (take (unat len) input) = peek i 64 input"
      using i 1(2) by (rule peek_take)
    show ?thesis
      unfolding md5_blocks.simps [of "take (unat len) input" len i] md5_blocks.simps [of input len i] pk
      using True 1(1) [OF True] 1(2,3) i by (auto intro!: bindE_cong)
  qed (simp add: md5_blocks.simps [of _ len i])
qed

lemma md5_blocks_stop:
  "md5_blocks input len i st = Inr (st', k) \<Longrightarrow> i \<le> unat len \<Longrightarrow> unat len < 2 ^ 31 \<Longrightarrow> k \<le> unat len"
proof (induction input len i st rule: md5_blocks.induct)
  case (1 input len i st)
  have u: "unat (of_nat i + 63 :: u32) = i + 63"
    using 1(3,4) by (simp add: unat_u32_add unat_of_nat_u32)
  show ?case
  proof (cases "of_nat i + 63 < len")
    case True
    then have "i + 64 \<le> unat len"
      using u by (simp add: word_less_nat_alt)
    then show ?thesis
      using 1(1) [OF True] 1(2,4) True by (auto simp: md5_blocks.simps [of input len i] bindE_eq_Inr)
  qed (use 1(2,3) in \<open>simp add: md5_blocks.simps [of input len i]\<close>)
qed

lemma MD5Update_take:
  assumes "unat len \<le> length input" and "unat len < 2 ^ 31"
  shows "MD5Update ctx input len = md5_update ctx (take (unat len) input)"
proof -
  let ?xs = "take (unat len) input"
  have len: "(of_nat (length ?xs) :: u32) = len"
    using assms(1) by (simp add: min_absorb2)
  have blocks: "md5_blocks ?xs len i st = md5_blocks input len i st" if "i \<le> unat len" for i st
    using md5_blocks_take [OF assms that] .
  have pk: "peek i n ?xs = peek i n input" if "i + n \<le> unat len" for i n
    using that assms(1) by (rule peek_take)
  show ?thesis
    unfolding md5_update_def len MD5Update_def Let_def
    by (rule bindE_cong)
      (auto simp: pk blocks outcome_simps split: if_splits dest!: md5_blocks_stop intro!: bindE_cong assms(2))
qed

lemma unat_pad:
  fixes i :: u32
  assumes "unat i < 64"
  shows "unat (if i < 56 then 56 - i else 120 - i) = (if unat i < 56 then 56 - unat i else 120 - unat i)"
  using assms by (simp add: word_less_nat_alt unat_sub word_le_nat_alt)

lemma length_Encode: "length (Encode ws) = 4 * length ws"
  by (induction ws) (simp_all add: Encode_def)

lemma pad_count:
  assumes "t < (64 :: nat)" and "n = (if t < 56 then 56 - t else 120 - t)"
  shows "1 \<le> n \<and> n \<le> 64 \<and> n - 1 = (119 - t) mod 64"
proof (cases "t < 56")
  case True
  then have "119 - t = (55 - t) + 64"
    by simp
  then have "(119 - t) mod 64 = 55 - t"
    by (simp only: mod_add_self2) simp
  moreover have "n = 56 - t"
    using True assms(2) by simp
  ultimately show ?thesis
    using True by (intro conjI) linarith+
next
  case False
  then show ?thesis
    using assms by (intro conjI) simp_all
qed

lemma PADDING_take: "1 \<le> n \<Longrightarrow> n \<le> 64 \<Longrightarrow> take n PADDING = 0x80 # replicate (n - 1) 0"
  by (cases n) (simp_all add: PADDING_def min_absorb1)

lemma md5_final_digest:
  assumes "md5_good ctx m"
  shows "MD5Final ctx = Inr (md5_digest m)"
proof -
  let ?i = "drop_bit 3 (mc_bits0 ctx) AND 0x3f" and ?t = "length m mod 64"
  let ?len = "if ?i < 56 then 56 - ?i else 120 - ?i"
  have b: "mc_bits0 ctx = of_nat (8 * length m)" "mc_bits1 ctx = of_nat (8 * length m div 2 ^ 32)"
    using assms unfolding md5_good_def by blast+
  have i: "unat ?i = ?t"
    unfolding b(1) by (rule md5_index)
  have t: "?t < 64" by simp
  have len: "unat ?len = (if ?t < 56 then 56 - ?t else 120 - ?t)"
    using unat_pad [of ?i] i t by simp
  then have len1: "1 \<le> unat ?len" "unat ?len \<le> 64" "unat ?len - 1 = (119 - ?t) mod 64"
    using pad_count [OF t len] by blast+
  let ?pad = "0x80 # replicate ((119 - ?t) mod 64) 0"
  have u1: "MD5Update ctx PADDING ?len = md5_update ctx ?pad"
    using MD5Update_take [of ?len PADDING ctx] len1 PADDING_take [OF len1(1,2)] by (simp add: PADDING_def)
  have "length ?pad < 2 ^ 31"
    using mod_less_divisor [of 64 "119 - ?t"] by simp
  then obtain ctx1 where c1: "md5_update ctx ?pad = Inr ctx1" "md5_good ctx1 (m @ ?pad)"
    using md5_update_good [OF assms] by blast
  have bits: "Encode [mc_bits0 ctx, mc_bits1 ctx] = md5_length (length m)"
    unfolding Encode_def md5_length_def b by simp
  have l8: "length (md5_length (length m)) = 8"
    by (simp add: md5_length_def)
  then obtain ctx2 where c2: "md5_update ctx1 (md5_length (length m)) = Inr ctx2"
    "md5_good ctx2 ((m @ ?pad) @ md5_length (length m))"
    using md5_update_good [OF c1(2), of "md5_length (length m)"] by auto
  have u2: "MD5Update ctx1 (md5_length (length m)) 8 = md5_update ctx1 (md5_length (length m))"
    using l8 by (simp add: md5_update_def)
  have "mc_buf ctx2 = md5_fold md5_iv (md5_pad m)"
    using c2(2) by (simp add: md5_good_def md5_pad_def)
  then show ?thesis
    unfolding MD5Final_def Let_def bits u1 c1(1) bindE_simps u2 c2(1) by (simp add: md5_digest_def)
qed

lemma md5_init_good: "length (mc_in ctx) = 64 \<Longrightarrow> md5_good (MD5Init ctx) []"
  by (simp add: md5_good_def MD5Init_def md5_iv_def md5_fold.simps [of _ "[]"] md5_tail_def)

text \<open>
  C14. Streaming MD5 is MD5: for every way of cutting a message into pieces, initialising a context,
  updating it with the pieces in turn and finishing gives the digest of the whole message, that is
  the compression function folded over the blocks of the padded message. No update leaves the block
  buffer or the input.
\<close>

theorem md5_streaming:
  assumes "length (mc_in ctx) = 64" and "\<forall>piece \<in> set pieces. length piece < 2 ^ 31"
  shows "bindE (foldE md5_update (MD5Init ctx) pieces) MD5Final = Inr (md5_digest (concat pieces))"
proof -
  obtain ctx' where "foldE md5_update (MD5Init ctx) pieces = Inr ctx'" "md5_good ctx' (concat pieces)"
    using md5_stream.upd_pieces [OF md5_init_good [OF assms(1)] assms(2)] by auto
  then show ?thesis
    by (simp add: md5_final_digest)
qed

theorem md5_streaming_witness:
  "bindE (foldE md5_update (MD5Init md5_empty) [cstr ''message'', cstr '' digest'']) MD5Final
     = Inr (md5_digest (cstr ''message digest''))"
  using md5_streaming [of md5_empty "[cstr ''message'', cstr '' digest'']"]
  by (simp add: md5_empty_def cstr_def del: foldE.simps)

text \<open>
  Hashing a file in pieces is hashing its contents: if the reads of a file deliver pieces until
  its end without an error, \<^verbatim>\<open>MD5_Hash_File\<close> returns the digest \<^verbatim>\<open>MD5_Hash_CachedFile\<close> returns for
  the whole contents (with or without a seed), and \<^verbatim>\<open>CRC_File\<close> the CRC of the contents.
\<close>

theorem file_hashes_contents:
  assumes "\<forall>(bytes, eof, ok) \<in> set reads. length bytes < 2 ^ 31 \<and> \<not> eof \<and> ok" and "length seed = 4"
    and "length (concat (map fst reads) @ rest) < 2 ^ 31"
    and "file = reads @ [(rest, True, ok)]" and "contents = concat (map fst reads) @ rest"
  shows "CRC_File addr crc (Some file) = Inr (Some (foldl CRC32_ProcessByte crc contents, True)) \<and>
    (\<exists>digest. MD5_Hash_File (Some file) seeded seed = Inr (Some digest) \<and>
      MD5_Hash_CachedFile (Some contents) (of_nat (length contents)) seeded seed = Inr digest)"
proof -
  have rest: "length rest < 2 ^ 31" and c: "length contents < 2 ^ 31"
    using assms(3) by (simp_all add: assms(5))
  have crc: "CRC_File addr crc (Some file) = Inr (Some (foldl CRC32_ProcessByte crc contents, True))"
    using crc_stream.hash_file_good [where s = crc and crc = crc and m = "[]" and ok = ok and addr = addr, OF _ assms(1) rest]
    by (simp add: CRC_File_def assms(4,5))
  let ?s = "if seeded then Encode seed else []"
  let ?start = "if seeded then MD5Update (MD5Init md5_empty) (Encode seed) 16 else Inr (MD5Init md5_empty)"
  have len16: "length (Encode seed) = 16"
    using assms(2) by (simp add: length_Encode)
  have init: "md5_good (MD5Init md5_empty) []"
    by (rule md5_init_good) (simp add: md5_empty_def)
  obtain ctx where ctx: "?start = Inr ctx" "md5_good ctx ?s"
    using md5_update_good [OF init, of "Encode seed"] len16 init by (cases seeded) (auto simp: md5_update_def)
  obtain ctx1 where h: "hash_file md5_update ctx file = Inr (Some (ctx1, True))" "md5_good ctx1 (?s @ contents)"
    using md5_stream.hash_file_good [OF ctx(2) assms(1) rest, of ok] unfolding assms(4,5) by auto
  obtain ctx2 where u: "md5_update ctx contents = Inr ctx2" "md5_good ctx2 (?s @ contents)"
    using md5_update_good [OF ctx(2) c] by blast
  have "MD5_Hash_File (Some file) seeded seed = Inr (Some (Some (md5_digest (?s @ contents))))"
    unfolding MD5_Hash_File_def option.case ctx(1) bindE_simps h(1) prod.case if_True
      md5_final_digest [OF h(2)] ..
  moreover have "MD5_Hash_CachedFile (Some contents) (of_nat (length contents)) seeded seed
      = Inr (Some (md5_digest (?s @ contents)))"
    unfolding MD5_Hash_CachedFile_def option.case ctx(1) bindE_simps u(1) [unfolded md5_update_def]
      md5_final_digest [OF u(2)] ..
  ultimately show ?thesis
    using crc by blast
qed

theorem file_hashes_contents_witness:
  "\<exists>digest. MD5_Hash_File (Some [([1, 2, 3], False, True), ([4], True, True)]) True [1, 2, 3, 4] = Inr (Some digest) \<and>
      MD5_Hash_CachedFile (Some [1, 2, 3, 4]) 4 True [1, 2, 3, 4] = Inr digest"
  using file_hashes_contents [where reads = "[([1, 2, 3], False, True)]" and seed = "[1, 2, 3, 4]" and rest = "[4]"
      and ok = True and seeded = True] by simp

end
