(* ===== verification/Tokens.thy ===== *)
theory Tokens
  imports Prelude "HOL-Library.Sublist"
begin

text \<open>
  The text parsing of \<^verbatim>\<open>common.c\<close>: the command line split into \<^verbatim>\<open>global_com_argv\<close>, the searches in it, and
  the token parsers \<^verbatim>\<open>COM_Parse\<close>, \<^verbatim>\<open>COM_ParseLine\<close> and \<^verbatim>\<open>COM_TokenWaiting\<close>. A \<^verbatim>\<open>const char *\<close> is the list of
  the characters up to the terminator, \<open>None\<close> is \<^verbatim>\<open>NULL\<close>; advancing a pointer drops characters. The
  character classes are those of the C locale, where no character above 126 is printable.
\<close>

definition at0 :: "u8 list \<Rightarrow> u8" where
  "at0 data = (case data of [] \<Rightarrow> 0 | c # _ \<Rightarrow> c)"

definition at1 :: "u8 list \<Rightarrow> u8" where
  "at1 data = at0 (drop 1 data)"

definition TOKENSIZE :: nat where
  "TOKENSIZE = 0x03FF"

section \<open>The token parser\<close>

record tokens =
  tk_token :: "u8 list"
  tk_unget :: bool
  tk_ignorecolons :: bool

definition COM_UngetToken :: "tokens \<Rightarrow> tokens" where
  "COM_UngetToken st = st\<lparr>tk_unget := True\<rparr>"

text \<open>The inner loops that skip white space, a comment to the end of its line, and a block comment.\<close>

fun skip_white :: "u8 list \<Rightarrow> u8 list option" where
  "skip_white [] = None"
| "skip_white (c # cs) = (if isgraph_c c then Some (c # cs) else skip_white cs)"

definition is_return :: "u8 \<Rightarrow> bool" where
  "is_return c \<longleftrightarrow> c = 10 \<or> c = 13"

fun skip_line :: "u8 list \<Rightarrow> u8 list option" where
  "skip_line [] = None"
| "skip_line (c # cs) = (if is_return c then Some (dropWhile is_return cs) else skip_line cs)"

fun skip_block :: "u8 list \<Rightarrow> u8 list option" where
  "skip_block [] = None"
| "skip_block (c # cs) =
     (if c = cchar CHR ''*'' \<and> at0 cs = cchar CHR ''/'' then Some (drop 1 cs) else skip_block cs)"

lemma skip_white_shrinks: "skip_white data = Some rest \<Longrightarrow> length rest \<le> length data"
  by (induction data) (auto split: if_splits)

lemma skip_line_shrinks: "skip_line data = Some rest \<Longrightarrow> length rest < length data"
  by (induction data) (auto split: if_splits simp: le_imp_less_Suc length_dropWhile_le)

lemma skip_block_shrinks: "skip_block data = Some rest \<Longrightarrow> length rest < length data"
  by (induction data) (auto split: if_splits)

text \<open>
  The outer loop runs while a comment was skipped, which is when the pointer moved.
\<close>

function (sequential) skip_blank :: "u8 list \<Rightarrow> u8 list option" where
  "skip_blank data =
     (case skip_white data of
        None \<Rightarrow> None
      | Some d \<Rightarrow>
          if at0 d = cchar CHR ''/'' \<and> at1 d = cchar CHR ''/'' then
            (case skip_line (drop 2 d) of None \<Rightarrow> None | Some d' \<Rightarrow> skip_blank d')
          else if at0 d = cchar CHR ''/'' \<and> at1 d = cchar CHR ''*'' then
            (case skip_block (drop 2 d) of None \<Rightarrow> None | Some d' \<Rightarrow> skip_blank d')
          else Some d)"
  by pat_completeness auto

termination
  by (relation "measure length") (fastforce dest: skip_white_shrinks skip_line_shrinks skip_block_shrinks)+

declare skip_blank.simps [simp del]

definition is_single :: "tokens \<Rightarrow> u8 \<Rightarrow> bool" where
  "is_single st c \<longleftrightarrow> c = cchar CHR ''{'' \<or> c = cchar CHR ''}'' \<or> c = cchar CHR ''('' \<or> c = cchar CHR '')''
     \<or> c = 39 \<or> c = cchar CHR '':'' \<and> \<not> tk_ignorecolons st \<or> c = cchar CHR '',''"

text \<open>The quoted loop: what is stored so far, and where it stops.\<close>

fun quoted :: "u8 list \<Rightarrow> u8 list \<Rightarrow> u8 list \<times> u8 list" where
  "quoted token [] = (token, [])"
| "quoted token (c # cs) =
     (if \<not> length token < TOKENSIZE - 1 then (token, c # cs)
      else if c = cchar CHR ''\"'' then (token, cs)
      else quoted (token @ [c]) cs)"

text \<open>The regular loop after its first character.\<close>

fun regular :: "tokens \<Rightarrow> u8 list \<Rightarrow> u8 list \<Rightarrow> u8 list \<times> u8 list" where
  "regular st token [] = (token, [])"
| "regular st token (c # cs) =
     (if isgraph_c c \<and> \<not> is_single st c \<and> length token < TOKENSIZE - 1 then regular st (token @ [c]) cs
      else (token, c # cs))"

definition COM_Parse :: "tokens \<Rightarrow> u8 list option \<Rightarrow> tokens \<times> u8 list option" where
  "COM_Parse st data =
     (if tk_unget st then (st\<lparr>tk_unget := False\<rparr>, data)
      else (case data of None \<Rightarrow> (st, None)
        | Some text \<Rightarrow>
            (case skip_blank text of
               None \<Rightarrow> (st\<lparr>tk_token := []\<rparr>, None)
             | Some d \<Rightarrow>
                 if at0 d = cchar CHR ''\"'' then
                   (case quoted [] (drop 1 d) of (token, rest) \<Rightarrow> (st\<lparr>tk_token := token\<rparr>, Some rest))
                 else if is_single st (at0 d) then (st\<lparr>tk_token := [at0 d]\<rparr>, Some (drop 1 d))
                 else (case regular st [at0 d] (drop 1 d) of (token, rest) \<Rightarrow>
                   (st\<lparr>tk_token := token\<rparr>, Some rest)))))"

section \<open>Lines\<close>

fun skip_unprintable :: "u8 list \<Rightarrow> u8 list option" where
  "skip_unprintable [] = None"
| "skip_unprintable (c # cs) = (if isprint_c c then Some (c # cs) else skip_unprintable cs)"

fun printables :: "u8 list \<Rightarrow> u8 list \<Rightarrow> u8 list \<times> u8 list" where
  "printables token [] = (token, [])"
| "printables token (c # cs) =
     (if isprint_c c \<and> length token < TOKENSIZE - 1 then printables (token @ [c]) cs else (token, c # cs))"

text \<open>The first \<^verbatim>\<open>do\<close> iteration stores a character unconditionally, the last loop skips one.\<close>

definition COM_ParseLine :: "tokens \<Rightarrow> u8 list option \<Rightarrow> tokens \<times> u8 list option" where
  "COM_ParseLine st data =
     (if tk_unget st then (st\<lparr>tk_unget := False\<rparr>, data)
      else (case data of None \<Rightarrow> (st, None)
        | Some text \<Rightarrow>
            (case skip_unprintable text of
               None \<Rightarrow> (st\<lparr>tk_token := []\<rparr>, None)
             | Some d \<Rightarrow>
                 (case printables [at0 d] (drop 1 d) of (token, rest) \<Rightarrow>
                   (st\<lparr>tk_token := token\<rparr>,
                    (case rest of [] \<Rightarrow> None | _ # rest' \<Rightarrow> skip_unprintable rest'))))))"

fun COM_TokenWaiting :: "u8 list \<Rightarrow> bool" where
  "COM_TokenWaiting [] = False"
| "COM_TokenWaiting (c # cs) =
     (if c = 10 then False else if isprint_c c \<and> c \<noteq> 32 then True else COM_TokenWaiting cs)"

definition PR_IsEmptyString :: "u8 list \<Rightarrow> bool" where
  "PR_IsEmptyString s \<longleftrightarrow> \<not> isprint_c (at0 s)"

definition COM_EntsForPlayerSlots :: "u32 \<Rightarrow> u32" where
  "COM_EntsForPlayerSlots players = 900 + ((players - 1) * 15)"

section \<open>The command line\<close>

text \<open>
  The loop of \<^verbatim>\<open>COM_InitArgv\<close>: \<open>pos\<close> and \<open>start\<close> are the text at \<^verbatim>\<open>argvposition\<close> and \<^verbatim>\<open>startofstring\<close>,
  \<open>count\<close> is \<^verbatim>\<open>lengthcounter\<close>, \<open>used\<close> is \<^verbatim>\<open>com_cmdlinecounter\<close>, \<open>args\<close> what \<^verbatim>\<open>largv\<close> points to. The array
  \<^verbatim>\<open>com_cmdline\<close> starts zeroed and is only appended to, so every pointer keeps its string. A token that
  does not fit leaves \<^verbatim>\<open>lengthcounter\<close> as it is.
\<close>

definition MAX_NUM_ARGVS :: nat where "MAX_NUM_ARGVS = 50"

fun argv_loop :: "u8 list \<Rightarrow> u8 list \<Rightarrow> nat \<Rightarrow> nat \<Rightarrow> u8 list list
    \<Rightarrow> u8 list \<times> u8 list \<times> nat \<times> nat \<times> u8 list list" where
  "argv_loop [] start count used args = ([], start, count, used, args)"
| "argv_loop (c # cs) start count used args =
     (if \<not> length args < MAX_NUM_ARGVS then (c # cs, start, count, used, args)
      else if \<not> isgraph_c c then
        (if count = 0 then argv_loop cs (drop 1 start) 0 used args
         else if used + (count + 1) < 0x100 then
           argv_loop cs cs 0 (used + (count + 1)) (args @ [take count start])
         else argv_loop cs cs (count + 1) used args)
      else argv_loop cs start (count + 1) used args)"

definition strcasecmp_eq :: "u8 list \<Rightarrow> u8 list \<Rightarrow> bool" where
  "strcasecmp_eq s t \<longleftrightarrow> map tolower_c s = map tolower_c t"

definition safeargvs :: "u8 list list" where
  "safeargvs = map cstr [''-dibonly'', ''-stdvid'', ''-nolan'', ''-nosound'', ''-nocdaudio'', ''-nojoy'', ''-nomouse'']"

text \<open>
  \<^verbatim>\<open>com_cmdlinecounter\<close> is reused as the flag of the search for \<^verbatim>\<open>-safe\<close>.
\<close>

definition COM_InitArgv :: "u8 list \<Rightarrow> u8 list list" where
  "COM_InitArgv argvs =
     (case argv_loop argvs argvs 0 0 [[]] of (pos, start, count, used, args) \<Rightarrow>
        let args1 = (if pos = [] \<and> count > 0 \<and> used + count < 0x100 then args @ [take count start] else args);
            flag = (if \<exists>a \<in> set (take MAX_NUM_ARGVS args1). strcasecmp_eq (cstr ''-safe'') a then 1 else used);
            args2 = (if flag = 1 then args1 @ safeargvs else args1)
        in args2 @ [cstr '' ''])"

text \<open>
  The searches: \<open>argv\<close> holds \<^verbatim>\<open>global_com_argv\<close>, a null entry being \<open>None\<close>. The result is the index, 0
  when the argument is absent.
\<close>

function find_arg :: "(u8 list \<Rightarrow> bool) \<Rightarrow> u8 list option list \<Rightarrow> nat \<Rightarrow> nat" where
  "find_arg same argv i =
     (if i < length argv then
        (case argv ! i of Some a \<Rightarrow> if same a then i else find_arg same argv (i + 1)
         | None \<Rightarrow> find_arg same argv (i + 1))
      else 0)"
  by pat_completeness auto

termination
  by (relation "measure (\<lambda>(same, argv, i). length argv - i)") auto

declare find_arg.simps [simp del]

definition COM_CheckNextParm :: "u8 list option list \<Rightarrow> u8 list \<Rightarrow> nat \<Rightarrow> nat" where
  "COM_CheckNextParm argv parm i = find_arg (\<lambda>a. parm = a) argv (i + 1)"

definition COM_CheckParm :: "u8 list option list \<Rightarrow> u8 list option \<Rightarrow> nat outcome" where
  "COM_CheckParm argv parm = (case parm of None \<Rightarrow> Inl SysError | Some p \<Rightarrow> Inr (COM_CheckNextParm argv p 0))"

definition COM_CheckNextParmCase :: "u8 list option list \<Rightarrow> u8 list \<Rightarrow> nat \<Rightarrow> nat" where
  "COM_CheckNextParmCase argv parm i = find_arg (\<lambda>a. strcasecmp_eq parm a) argv (i + 1)"

definition COM_CheckParmCase :: "u8 list option list \<Rightarrow> u8 list option \<Rightarrow> nat outcome" where
  "COM_CheckParmCase argv parm =
     (case parm of None \<Rightarrow> Inl SysError | Some p \<Rightarrow> Inr (COM_CheckNextParmCase argv p 0))"

text \<open>\<open>Some None\<close> is the null pointer an entry can hold.\<close>

definition COM_GetParm :: "u8 list option list \<Rightarrow> nat \<Rightarrow> u8 list option" where
  "COM_GetParm argv i = (if i < length argv then argv ! i else Some [])"

function parm_after :: "(u8 list \<Rightarrow> bool) \<Rightarrow> u8 list option list \<Rightarrow> nat \<Rightarrow> u8 list option" where
  "parm_after same argv i =
     (if i + 1 < length argv then
        (case argv ! i of Some a \<Rightarrow> if same a then argv ! (i + 1) else parm_after same argv (i + 1)
         | None \<Rightarrow> parm_after same argv (i + 1))
      else Some [])"
  by pat_completeness auto

termination
  by (relation "measure (\<lambda>(same, argv, i). length argv - i)") auto

declare parm_after.simps [simp del]

definition COM_GetParmAfterParm :: "u8 list option list \<Rightarrow> u8 list option \<Rightarrow> (u8 list option) outcome" where
  "COM_GetParmAfterParm argv parm =
     (case parm of None \<Rightarrow> Inl SysError | Some p \<Rightarrow> Inr (parm_after (\<lambda>a. p = a) argv 0))"

definition COM_GetParmAfterParmCase :: "u8 list option list \<Rightarrow> u8 list option \<Rightarrow> (u8 list option) outcome" where
  "COM_GetParmAfterParmCase argv parm =
     (case parm of None \<Rightarrow> Inl SysError | Some p \<Rightarrow> Inr (parm_after (\<lambda>a. strcasecmp_eq p a) argv 0))"

section \<open>What the parser returns\<close>

lemma skip_white_suffix: "skip_white data = Some rest \<Longrightarrow> suffix rest data \<and> rest \<noteq> [] \<and> isgraph_c (hd rest)"
  by (induction data) (auto split: if_splits intro: suffix_ConsI)

lemma skip_line_suffix: "skip_line data = Some rest \<Longrightarrow> suffix rest data"
  by (induction data) (auto split: if_splits intro: suffix_ConsI suffix_dropWhile)

lemma skip_block_suffix: "skip_block data = Some rest \<Longrightarrow> suffix rest data"
  by (induction data) (auto split: if_splits intro: suffix_ConsI suffix_drop)

lemma skip_blank_suffix: "skip_blank data = Some rest \<Longrightarrow> suffix rest data \<and> rest \<noteq> [] \<and> isgraph_c (hd rest)"
proof (induction data rule: skip_blank.induct)
  case (1 data)
  show ?case
  proof (cases "skip_white data")
    case None
    then show ?thesis
      using 1(3) by (simp add: skip_blank.simps [of data])
  next
    case (Some d)
    note d = skip_white_suffix [OF Some]
    have sub: "suffix x data" if "suffix x (drop 2 d)" for x
      using that d suffix_drop suffix_order.trans by metis
    show ?thesis
      using 1(1) [OF Some] 1(2) [OF Some] 1(3) Some d sub skip_line_suffix skip_block_suffix
      by (auto simp: skip_blank.simps [of data] split: if_splits option.splits
          intro: suffix_order.trans)
  qed
qed

lemma quoted_spec:
  "quoted token cs = (t, rest) \<Longrightarrow> length token < TOKENSIZE \<Longrightarrow>
    suffix rest cs \<and> length t < TOKENSIZE \<and> (\<exists>s. t = token @ s \<and> prefix s cs)"
proof (induction token cs rule: quoted.induct)
  case (2 token c cs)
  show ?case
  proof (cases "length token < TOKENSIZE - 1 \<and> c \<noteq> cchar CHR ''\"''")
    case True
    then have "suffix rest cs \<and> length t < TOKENSIZE \<and> (\<exists>s. t = (token @ [c]) @ s \<and> prefix s cs)"
      using 2 by auto
    then show ?thesis
      by (auto intro: suffix_ConsI)
  next
    case False
    then show ?thesis
      using 2(2,3) by (auto split: if_splits intro: suffix_ConsI)
  qed
qed auto

lemma regular_spec:
  "regular st token cs = (t, rest) \<Longrightarrow> length token < TOKENSIZE \<Longrightarrow>
    suffix rest cs \<and> length t < TOKENSIZE \<and> (\<forall>c \<in> set t. c \<in> set token \<or> isgraph_c c \<and> \<not> is_single st c)"
proof (induction st token cs rule: regular.induct)
  case (2 st token c cs)
  show ?case
  proof (cases "isgraph_c c \<and> \<not> is_single st c \<and> length token < TOKENSIZE - 1")
    case True
    then show ?thesis
      using 2 by (fastforce intro: suffix_ConsI)
  next
    case False
    then show ?thesis
      using 2(2,3) by auto
  qed
qed auto

lemma COM_Parse_shape:
  assumes "\<not> tk_unget st" and "COM_Parse st (Some data) = (st', r)"
  shows "length (tk_token st') < 1023 \<and>
    (case r of
       None \<Rightarrow> tk_token st' = [] \<and> skip_blank data = None
     | Some rest \<Rightarrow> suffix rest data \<and> length rest < length data \<and>
         (tk_token st' = [] \<or> (\<forall>c \<in> set (tk_token st'). isgraph_c c)
           \<or> (\<exists>d. skip_blank data = Some d \<and> hd d = cchar CHR ''\"'')))"
proof (cases "skip_blank data")
  case None
  then show ?thesis
    using assms by (auto simp: COM_Parse_def)
next
  case (Some d)
  obtain c cs where d: "d = c # cs" "isgraph_c c" "suffix (c # cs) data"
    using skip_blank_suffix [OF Some] by (cases d) auto
  have cs: "suffix x cs \<Longrightarrow> suffix x data \<and> length x < length data" for x
    using suffix_order.trans [of x cs data] suffix_ConsD [OF d(3)] suffix_length_le [of x cs]
      suffix_length_le [OF d(3)] by simp
  consider (quote) "c = cchar CHR ''\"''" | (single) "c \<noteq> cchar CHR ''\"''" "is_single st c"
    | (plain) "c \<noteq> cchar CHR ''\"''" "\<not> is_single st c"
    by blast
  then show ?thesis
  proof cases
    case quote
    then show ?thesis
      using assms Some d quoted_spec [of "[]" cs] cs
      by (auto simp: COM_Parse_def at0_def TOKENSIZE_def split: prod.splits)
  next
    case single
    then show ?thesis
      using assms Some d cs [of cs] by (auto simp: COM_Parse_def at0_def)
  next
    case plain
    then show ?thesis
      using assms Some d regular_spec [of st "[c]" cs] cs
      by (fastforce simp: COM_Parse_def at0_def TOKENSIZE_def split: prod.splits)
  qed
qed

text \<open>
  The token parser stays in its text and its array: every token is shorter than 1023
  characters (the array holds 1024), what remains to be parsed is a proper suffix of the text, an
  unquoted token consists of graphical characters, and \<^verbatim>\<open>NULL\<close> is returned only with an empty token,
  when nothing but white space and comments is left.
\<close>

theorem COM_Parse_result:
  assumes "\<not> tk_unget st" and "COM_Parse st (Some data) = (st', r)"
  shows "length (tk_token st') < 1023 \<and>
    (case r of
       None \<Rightarrow> tk_token st' = [] \<and> skip_blank data = None
     | Some rest \<Rightarrow> suffix rest data \<and> length rest < length data \<and>
         (tk_token st' = [] \<or> (\<forall>c \<in> set (tk_token st'). isgraph_c c)
           \<or> (\<exists>d. skip_blank data = Some d \<and> hd d = cchar CHR ''\"'')))"
  by (rule COM_Parse_shape [OF assms])

theorem COM_Parse_result_witness:
  "suffix (cstr '' 16'') (cstr ''/*limit*/max 16'')"
  using COM_Parse_result [of "\<lparr>tk_token = [], tk_unget = False, tk_ignorecolons = False\<rparr>" "cstr ''/*limit*/max 16''"
      "\<lparr>tk_token = cstr ''max'', tk_unget = False, tk_ignorecolons = False\<rparr>" "Some (cstr '' 16'')"]
  by (simp add: cstr_def cchar_def COM_Parse_def skip_blank.simps isgraph_c_def at0_def at1_def is_return_def
      is_single_def TOKENSIZE_def)

section \<open>Printing and parsing back\<close>

lemma COM_Parse_progress:
  assumes "COM_Parse st (Some data) = (st', Some rest)" and "\<not> tk_unget st"
  shows "length rest < length data \<and> \<not> tk_unget st'"
  using assms COM_Parse_shape [OF assms(2,1)]
  by (auto simp: COM_Parse_def split: option.splits if_splits prod.splits)

text \<open>All the tokens of a text, as the callers that loop over \<^verbatim>\<open>COM_Parse\<close> see them.\<close>

function parse_all :: "tokens \<Rightarrow> u8 list \<Rightarrow> u8 list list" where
  "parse_all st data =
     (if tk_unget st then parse_all (st\<lparr>tk_unget := False\<rparr>) data
      else (case COM_Parse st (Some data) of
          (st', None) \<Rightarrow> []
        | (st', Some rest) \<Rightarrow> tk_token st' # parse_all st' rest))"
  by pat_completeness auto

termination
  by (relation "measure (\<lambda>(st, data). 2 * length data + (if tk_unget st then 1 else 0))")
    (auto dest!: COM_Parse_progress [OF sym])

declare parse_all.simps [simp del]

lemma parse_smaller:
  assumes "COM_Parse tk (Some str) = (tk', Some rest)"
  shows "2 * length rest + (if tk_unget tk' then 1 else 0) < 2 * length str + (if tk_unget tk then 1 else 0)"
proof (cases "tk_unget tk")
  case True
  then show ?thesis
    using assms by (auto simp: COM_Parse_def)
next
  case False
  then show ?thesis
    using COM_Parse_progress [OF assms] by auto
qed


text \<open>A token printed bare or in quotes, followed by a space.\<close>

definition bare :: "tokens \<Rightarrow> u8 list \<Rightarrow> bool" where
  "bare st t \<longleftrightarrow> t \<noteq> [] \<and> (\<forall>c \<in> set t. isgraph_c c \<and> \<not> is_single st c)
     \<and> hd t \<noteq> cchar CHR ''\"'' \<and> hd t \<noteq> cchar CHR ''/''"

definition print_token :: "bool \<times> u8 list \<Rightarrow> u8 list" where
  "print_token = (\<lambda>(quote, t).
     (if quote then cchar CHR ''\"'' # t @ [cchar CHR ''\"''] else t) @ [32])"

definition printable :: "tokens \<Rightarrow> bool \<times> u8 list \<Rightarrow> bool" where
  "printable st = (\<lambda>(quote, t). length t < 1022 \<and>
     (if quote then 0 \<notin> set t \<and> cchar CHR ''\"'' \<notin> set t else bare st t))"

lemma skip_blank_graph: "isgraph_c c \<Longrightarrow> c \<noteq> cchar CHR ''/'' \<Longrightarrow> skip_blank (c # cs) = Some (c # cs)"
  by (simp add: skip_blank.simps at0_def)

lemma skip_blank_space: "skip_blank (32 # cs) = skip_blank cs"
  by (simp add: skip_blank.simps [of "32 # cs"] skip_blank.simps [of cs] isgraph_c_def)

lemma quoted_close:
  "cchar CHR ''\"'' \<notin> set t \<Longrightarrow> length token + length t < TOKENSIZE - 1 \<Longrightarrow>
    quoted token (t @ cchar CHR ''\"'' # rest) = (token @ t, rest)"
  by (induction t arbitrary: token) (auto simp: TOKENSIZE_def)

lemma regular_close:
  "\<forall>c \<in> set t. isgraph_c c \<and> \<not> is_single st c \<Longrightarrow> length token + length t \<le> TOKENSIZE - 1 \<Longrightarrow>
    regular st token (t @ 32 # rest) = (token @ t, 32 # rest)"
  by (induction t arbitrary: token) (auto simp: TOKENSIZE_def isgraph_c_def)

lemma COM_Parse_space: "\<not> tk_unget st \<Longrightarrow> COM_Parse st (Some (32 # cs)) = COM_Parse st (Some cs)"
  by (simp add: COM_Parse_def skip_blank_space)

lemma COM_Parse_print:
  assumes "\<not> tk_unget st" and "printable st (q, t)"
  shows "\<exists>r. COM_Parse st (Some (print_token (q, t) @ rest)) = (st\<lparr>tk_token := t\<rparr>, Some r)
    \<and> length r < length (print_token (q, t) @ rest) \<and> (r = 32 # rest)"
proof (cases q)
  case True
  have "isgraph_c (cchar CHR ''\"'')"
    by (simp add: isgraph_c_def cchar_def)
  moreover have "cchar CHR ''\"'' \<noteq> cchar CHR ''/''"
    by (simp add: cchar_def)
  ultimately show ?thesis
    using True assms quoted_close [of t "[]" "32 # rest"]
    by (simp add: COM_Parse_def print_token_def printable_def skip_blank_graph at0_def TOKENSIZE_def)
next
  case False
  then obtain c cs where t: "t = c # cs" "isgraph_c c" "c \<noteq> cchar CHR ''/''" "c \<noteq> cchar CHR ''\"''" "\<not> is_single st c"
    "\<forall>c \<in> set cs. isgraph_c c \<and> \<not> is_single st c"
    using assms(2) by (cases t) (auto simp: printable_def bare_def)
  then show ?thesis
    using False assms regular_close [of cs st "[c]" rest]
    by (simp add: COM_Parse_def print_token_def printable_def skip_blank_graph at0_def TOKENSIZE_def)
qed

lemma parse_all_space: "\<not> tk_unget st \<Longrightarrow> parse_all st (32 # cs) = parse_all st cs"
  by (simp add: parse_all.simps [of st "32 # cs"] parse_all.simps [of st cs] COM_Parse_space)



section \<open>The command line\<close>

text \<open>The words of a text: its maximal runs of graphical characters.\<close>

function words_of :: "u8 list \<Rightarrow> u8 list list" where
  "words_of s =
     (case dropWhile (\<lambda>c. \<not> isgraph_c c) s of [] \<Rightarrow> []
      | c # cs \<Rightarrow> takeWhile isgraph_c (c # cs) # words_of (dropWhile isgraph_c (c # cs)))"
  by pat_completeness auto

termination
proof (relation "measure length")
  fix s c cs assume d: "dropWhile (\<lambda>c. \<not> isgraph_c c) s = c # cs"
  then have "isgraph_c c"
    by (metis (mono_tags, lifting) dropWhile_eq_Cons_conv)
  moreover have "length (c # cs) \<le> length s"
    by (metis d length_dropWhile_le)
  moreover have "length (dropWhile isgraph_c cs) \<le> length cs"
    by (rule length_dropWhile_le)
  ultimately show "(dropWhile isgraph_c (c # cs), s) \<in> measure length"
    by simp
qed simp

declare words_of.simps [simp del]

lemma words_of_Nil: "words_of [] = []"
  by (simp add: words_of.simps)

lemma words_of_blank: "\<not> isgraph_c c \<Longrightarrow> words_of (c # cs) = words_of cs"
  by (simp add: words_of.simps [of "c # cs"] words_of.simps [of cs])

lemma words_of_word:
  assumes "w \<noteq> []" and "\<forall>c \<in> set w. isgraph_c c" and "rest = [] \<or> \<not> isgraph_c (hd rest)"
  shows "words_of (w @ rest) = w # words_of rest"
proof -
  obtain c cs where w: "w = c # cs" "isgraph_c c"
    using assms(1,2) by (cases w) auto
  have "takeWhile isgraph_c (w @ rest) = w" "dropWhile isgraph_c (w @ rest) = rest"
    using assms(2,3) by (cases rest; simp add: takeWhile_append dropWhile_append3)+
  then show ?thesis
    using w by (simp add: words_of.simps [of "c # cs @ rest"])
qed

definition cost :: "u8 list list \<Rightarrow> nat" where
  "cost ws = sum_list (map (\<lambda>w. length w + 1) ws)"

lemma argv_loop_words:
  "\<forall>c \<in> set w. isgraph_c c \<Longrightarrow> used \<noteq> 1 \<Longrightarrow> length args + length (words_of (w @ pos)) < MAX_NUM_ARGVS \<Longrightarrow>
    used + cost (words_of (w @ pos)) < 0x100 \<Longrightarrow>
    \<exists>start used' w' args'. argv_loop pos (w @ pos) (length w) used args = ([], start, length w', used', args')
      \<and> start = w' \<and> used' \<noteq> 1 \<and> used' + length w' < 0x100
      \<and> args' @ (if w' = [] then [] else [w']) = args @ words_of (w @ pos)"
proof (induction pos arbitrary: w used args)
  case Nil
  then show ?case
    using words_of_word [of w "[]"] by (cases w) (auto simp: words_of_Nil cost_def)
next
  case (Cons c cs)
  show ?case
  proof (cases "isgraph_c c")
    case True
    then show ?thesis
      using Cons.IH [of "w @ [c]" used args] Cons.prems by simp
  next
    case False
    show ?thesis
    proof (cases w)
      case Nil
      then show ?thesis
        using Cons.IH [of "[]" used args] Cons.prems False by (simp add: words_of_blank)
    next
      case (Cons a w1)
      then have ws: "words_of (w @ c # cs) = w # words_of cs"
        using words_of_word [of w "c # cs"] words_of_blank [OF False] Cons.prems(1) False by simp
      then have "used + (length w + 1) + cost (words_of cs) < 0x100"
        using Cons.prems(4) by (simp add: cost_def)
      then show ?thesis
        using Cons.IH [of "[]" "used + (length w + 1)" "args @ [w]"] Cons.prems ws False Cons
        by (simp add: MAX_NUM_ARGVS_def)
    qed
  qed
qed

lemma safe_not_blank: "strcasecmp_eq (cstr ''-safe'') [] = False"
  by (simp add: strcasecmp_eq_def cstr_def)

lemma COM_InitArgv_words_aux:
  assumes "cost (words_of argvs) < 0x100" and "length (words_of argvs) < 49"
  shows "COM_InitArgv argvs = [] # words_of argvs @
    (if \<exists>w \<in> set (words_of argvs). strcasecmp_eq (cstr ''-safe'') w then safeargvs else []) @ [cstr '' '']"
proof -
  obtain w' used' args' where l:
    "argv_loop argvs argvs 0 0 [[]] = ([], w', length w', used', args')" "used' \<noteq> 1" "used' + length w' < 0x100"
    "args' @ (if w' = [] then [] else [w']) = [[]] @ words_of argvs"
    using argv_loop_words [of "[]" 0 "[[]]" argvs] assms by (auto simp: MAX_NUM_ARGVS_def)
  have args1: "(if length w' > 0 \<and> used' + length w' < 0x100 then args' @ [take (length w') w'] else args')
      = [] # words_of argvs"
    using l(3,4) by (cases "w' = []") auto
  have t: "take MAX_NUM_ARGVS ([] # words_of argvs) = [] # words_of argvs"
    using assms(2) by (simp add: MAX_NUM_ARGVS_def)
  show ?thesis
    unfolding COM_InitArgv_def l(1) prod.case Let_def using args1 l(2) t
    by (simp add: safe_not_blank)
qed

text \<open>However long the line: no more than fifty entries come out of the loop.\<close>

lemma argv_loop_bound:
  "argv_loop pos start count used args = (pos', start', count', used', args') \<Longrightarrow> length args \<le> MAX_NUM_ARGVS \<Longrightarrow>
    (length args = MAX_NUM_ARGVS \<longrightarrow> count = 0) \<Longrightarrow>
    length args' \<le> MAX_NUM_ARGVS \<and> (length args' = MAX_NUM_ARGVS \<longrightarrow> count' = 0)"
proof (induction pos arbitrary: start count used args)
  case (Cons c cs)
  show ?case
  proof (cases "length args < MAX_NUM_ARGVS")
    case True
    then show ?thesis
      using Cons.prems(1) Cons.IH [of "drop 1 start" 0 used args]
        Cons.IH [of cs 0 "used + (count + 1)" "args @ [take count start]"]
        Cons.IH [of cs "count + 1" used args] Cons.IH [of start "count + 1" used args]
      by (auto split: if_splits)
  qed (use Cons.prems in auto)
qed simp

lemma COM_InitArgv_bound: "length (COM_InitArgv argvs) \<le> 58"
proof -
  obtain pos start count used args where l: "argv_loop argvs argvs 0 0 [[]] = (pos, start, count, used, args)"
    by (metis prod_cases5)
  have "length args \<le> 50 \<and> (length args = 50 \<longrightarrow> count = 0)"
    using argv_loop_bound [OF l] by (simp add: MAX_NUM_ARGVS_def)
  then show ?thesis
    unfolding COM_InitArgv_def l prod.case Let_def by (auto simp: safeargvs_def)
qed

text \<open>
  The argument vector never has more entries than the 58 of its array. If the words of the
  command line and their terminators fit the 256-byte array and there are fewer than 49 of them, it
  is the empty program name, the words in order, the seven safe-mode arguments exactly when one of the
  words is \<^verbatim>\<open>-safe\<close> in any case, and a blank.
\<close>

theorem COM_InitArgv_words:
  "length (COM_InitArgv argvs) \<le> 58 \<and>
    (cost (words_of argvs) < 0x100 \<and> length (words_of argvs) < 49 \<longrightarrow>
      COM_InitArgv argvs = [] # words_of argvs @
        (if \<exists>w \<in> set (words_of argvs). strcasecmp_eq (cstr ''-safe'') w then safeargvs else []) @ [cstr '' ''])"
  using COM_InitArgv_words_aux COM_InitArgv_bound by blast

theorem COM_InitArgv_words_witness:
  "length (COM_InitArgv (cstr ''+map c0'')) = 4"
  using COM_InitArgv_words [of "cstr ''+map c0''"]
  by (simp add: words_of.simps cstr_def cchar_def isgraph_c_def cost_def strcasecmp_eq_def)

definition first_at :: "u8 list option list \<Rightarrow> u8 list \<Rightarrow> nat \<Rightarrow> nat" where
  "first_at argv p k =
     (if \<exists>i. k \<le> i \<and> i < length argv \<and> argv ! i = Some p
      then LEAST i. k \<le> i \<and> i < length argv \<and> argv ! i = Some p else 0)"

lemma first_at_step:
  "first_at argv p i = (if i < length argv then if argv ! i = Some p then i else first_at argv p (i + 1) else 0)"
proof (cases "i < length argv \<and> argv ! i \<noteq> Some p")
  case True
  then have "(\<lambda>j. i \<le> j \<and> j < length argv \<and> argv ! j = Some p)
      = (\<lambda>j. i + 1 \<le> j \<and> j < length argv \<and> argv ! j = Some p)"
    by (auto simp: fun_eq_iff Suc_le_eq le_less)
  from arg_cong [OF this, of "\<lambda>P. if Ex P then Least P else 0"] show ?thesis
    using True unfolding first_at_def by simp
next
  case False
  then show ?thesis
    by (auto simp: first_at_def intro!: Least_equality)
qed

lemma find_arg_first: "find_arg (\<lambda>a. p = a) argv k = first_at argv p k"
proof (induction "\<lambda>a. p = a" argv k rule: find_arg.induct)
  case (1 argv i)
  then show ?case
    by (subst find_arg.simps, subst first_at_step) (auto split: option.splits)
qed

text \<open>
  \<^verbatim>\<open>COM_CheckParm\<close> returns the position of the first argument after the program name that equals
  the one sought, and 0 exactly when there is none; null entries are passed over and a null argument
  ends the process.
\<close>

theorem COM_CheckParm_first:
  "COM_CheckParm argv parm =
    (case parm of None \<Rightarrow> Inl SysError
     | Some p \<Rightarrow> Inr (if \<exists>i. 1 \<le> i \<and> i < length argv \<and> argv ! i = Some p
         then LEAST i. 1 \<le> i \<and> i < length argv \<and> argv ! i = Some p else 0))"
  by (cases parm) (simp_all only: COM_CheckParm_def COM_CheckNextParm_def option.case find_arg_first first_at_def add_0)

end
