(* ===== verification/Links.thy ===== *)
theory Links
  imports Prelude
begin

text \<open>
  The doubly linked lists of \<^verbatim>\<open>links.c\<close>, through which the edicts of an area of the world are threaded,
  and what the other lists of the engine (the blocks of the zone, the entries of the cache) share
  with them. The links are kept in a store: \<open>lk_next\<close> and \<open>lk_prev\<close> give the two pointers of the
  \<^verbatim>\<open>link_t\<close> at an address, and every assignment is an update of one of them, in the order of the code.
\<close>

type_synonym addr = u32

record links =
  lk_next :: "addr \<Rightarrow> addr"
  lk_prev :: "addr \<Rightarrow> addr"

definition set_next :: "addr \<Rightarrow> addr \<Rightarrow> links \<Rightarrow> links" where
  "set_next l p s = s\<lparr>lk_next := (lk_next s)(l := p)\<rparr>"

definition set_prev :: "addr \<Rightarrow> addr \<Rightarrow> links \<Rightarrow> links" where
  "set_prev l p s = s\<lparr>lk_prev := (lk_prev s)(l := p)\<rparr>"

lemma set_link_simps [simp]:
  "lk_next (set_next l p s) = (lk_next s)(l := p)" "lk_prev (set_next l p s) = lk_prev s"
  "lk_prev (set_prev l p s) = (lk_prev s)(l := p)" "lk_next (set_prev l p s) = lk_next s"
  by (simp_all add: set_next_def set_prev_def)

definition ClearLink :: "addr \<Rightarrow> links \<Rightarrow> links" where
  "ClearLink l s = set_prev l l (set_next l l s)"

definition RemoveLink :: "addr \<Rightarrow> links \<Rightarrow> links" where
  "RemoveLink l s =
     (let s = set_prev (lk_next s l) (lk_prev s l) s
      in set_next (lk_prev s l) (lk_next s l) s)"

definition InsertLinkBefore :: "addr \<Rightarrow> addr \<Rightarrow> links \<Rightarrow> links" where
  "InsertLinkBefore l before s =
     (let s = set_next l before s;
          s = set_prev l (lk_prev s before) s;
          s = set_next (lk_prev s l) l s
      in set_prev (lk_next s l) l s)"

definition InsertLinkAfter :: "addr \<Rightarrow> addr \<Rightarrow> links \<Rightarrow> links" where
  "InsertLinkAfter l after s =
     (let s = set_next l (lk_next s after) s;
          s = set_prev l after s;
          s = set_next (lk_prev s l) l s
      in set_prev (lk_next s l) l s)"

section \<open>Chains of links\<close>

text \<open>
  A chain: each element points forward to the next one, which points back. A list with its head is
  the chain from the head through the elements back to the head.
\<close>

definition chain :: "(addr \<Rightarrow> addr) \<Rightarrow> (addr \<Rightarrow> addr) \<Rightarrow> addr list \<Rightarrow> bool" where
  "chain nxt prv = successively (\<lambda>x y. nxt x = y \<and> prv y = x)"

definition ring :: "(addr \<Rightarrow> addr) \<Rightarrow> (addr \<Rightarrow> addr) \<Rightarrow> addr \<Rightarrow> addr list \<Rightarrow> bool" where
  "ring nxt prv h xs \<longleftrightarrow> distinct (h # xs) \<and> chain nxt prv (h # xs @ [h])"

lemma chain_simps [simp]:
  "chain nxt prv []" "chain nxt prv [x]"
  "chain nxt prv (x # y # xs) \<longleftrightarrow> nxt x = y \<and> prv y = x \<and> chain nxt prv (y # xs)"
  by (simp_all add: chain_def)

lemma chain_append:
  "chain nxt prv (xs @ y # ys) \<longleftrightarrow> chain nxt prv (xs @ [y]) \<and> chain nxt prv (y # ys)"
  by (auto simp: chain_def successively_append_iff)

lemma chain_append2:
  "chain nxt prv (xs @ x # y # ys) \<longleftrightarrow>
     chain nxt prv (xs @ [x]) \<and> nxt x = y \<and> prv y = x \<and> chain nxt prv (y # ys)"
  by (subst chain_append) simp

lemma chain_left: "chain nxt prv (xs @ ys) \<Longrightarrow> chain nxt prv xs"
  by (simp add: chain_def successively_append_iff)

text \<open>Changes of pointers that the chain does not use leave it a chain.\<close>

lemma chain_upd_next [simp]: "a \<notin> set (butlast xs) \<Longrightarrow> chain (nxt(a := b)) prv xs = chain nxt prv xs"
  by (induction xs rule: induct_list012) (auto split: if_splits)

lemma chain_upd_prev [simp]: "a \<notin> set (tl xs) \<Longrightarrow> chain nxt (prv(a := b)) xs = chain nxt prv xs"
  by (induction xs rule: induct_list012) auto

lemma chain_cong:
  "(\<And>x. x \<in> set (butlast xs) \<Longrightarrow> nxt' x = nxt x) \<Longrightarrow> (\<And>x. x \<in> set (tl xs) \<Longrightarrow> prv' x = prv x) \<Longrightarrow>
   chain nxt' prv' xs = chain nxt prv xs"
  by (induction xs rule: induct_list012) auto

lemma in_set_tlD: "x \<in> set (tl xs) \<Longrightarrow> x \<in> set xs"
  by (cases xs) auto

text \<open>One element is taken out of a chain, or put into it.\<close>

lemma chain_remove:
  assumes "chain nxt prv (us @ p # x # q # vs)" and "distinct (us @ [p, x])" and "distinct (x # q # vs)"
    and "p \<notin> set (butlast (q # vs))" and "q \<notin> set (tl (us @ [p]))"
  shows "chain (nxt(p := q)) (prv(q := p)) (us @ p # q # vs)"
proof -
  have "chain (nxt(p := q)) (prv(q := p)) (us @ [p]) = chain nxt prv (us @ [p])"
    using assms by (intro chain_cong) (auto simp: butlast_append)
  moreover have "chain (nxt(p := q)) (prv(q := p)) (q # vs) = chain nxt prv (q # vs)"
    using assms by (intro chain_cong) auto
  ultimately show ?thesis
    using assms(1) by (simp add: chain_append2 chain_append2 [of _ _ "us @ [p]", simplified])
qed

lemma chain_insert:
  assumes "chain nxt prv (us @ p # q # vs)" and "distinct (us @ [p])" and "distinct (q # vs)"
    and "x \<notin> set (us @ p # q # vs)" and "p \<notin> set (butlast (q # vs))" and "q \<notin> set (tl (us @ [p]))"
  shows "chain (nxt(x := q, p := x)) (prv(x := p, q := x)) (us @ p # x # q # vs)"
proof -
  have "chain (nxt(x := q, p := x)) (prv(x := p, q := x)) (us @ [p]) = chain nxt prv (us @ [p])"
    using assms by (intro chain_cong) (auto simp: butlast_append dest: in_set_tlD)
  moreover have "chain (nxt(x := q, p := x)) (prv(x := p, q := x)) (q # vs) = chain nxt prv (q # vs)"
    using assms by (intro chain_cong) (auto dest: in_set_butlastD split: if_splits)
  ultimately show ?thesis
    using assms by (auto simp: chain_append2)
qed

section \<open>The operations on rings\<close>

lemma ring_simps:
  "ring nxt prv h xs \<longleftrightarrow> h \<notin> set xs \<and> distinct xs \<and> chain nxt prv (h # xs @ [h])"
  by (simp add: ring_def)

lemma ring_empty: "ring nxt prv h [] \<longleftrightarrow> nxt h = h \<and> prv h = h"
  by (simp add: ring_def)

text \<open>The neighbours of an element of a ring.\<close>

lemma ring_split:
  assumes "ring nxt prv h xs" and "x \<in> set xs"
  obtains ys zs p q us vs where "xs = ys @ x # zs" and "h # ys = us @ [p]" and "zs @ [h] = q # vs"
    and "nxt p = x" and "prv x = p" and "nxt x = q" and "prv q = x"
proof -
  obtain ys zs where xs: "xs = ys @ x # zs"
    using assms(2) by (auto simp: in_set_conv_decomp)
  obtain us p where us: "h # ys = us @ [p]"
    by (metis append_butlast_last_id list.distinct(1))
  obtain q vs where vs: "zs @ [h] = q # vs"
    by (cases zs) auto
  have "chain nxt prv (us @ p # x # q # vs)"
    using assms(1) us vs unfolding xs ring_def by (metis append.assoc append_Cons append_Nil)
  then show thesis
    using that [OF xs us vs] by (simp add: chain_append2)
qed

lemma snoc_ends: "h # ys = us @ [p] \<Longrightarrow> tl (us @ [p]) = ys \<and> p \<in> set (h # ys)"
  by (metis list.sel(3) in_set_conv_decomp)

lemma Cons_ends: "zs @ [h] = q # vs \<Longrightarrow> butlast (q # vs) = zs \<and> q \<in> set (zs @ [h])"
  by (metis butlast_snoc list.set_intros(1))

lemma ring_last: "ring nxt prv h xs \<Longrightarrow> prv h = last (h # xs)"
  by (cases xs rule: rev_cases) (auto simp: ring_def chain_append2 [of nxt prv "_ # _" _ _ "[]", simplified])

lemma ring_first: "ring nxt prv h xs \<Longrightarrow> nxt h = hd (xs @ [h])"
  by (cases xs) (auto simp: ring_def)

lemma ring_next_other:
  assumes "ring nxt prv h xs" and "x \<in> set xs"
  shows "nxt x \<noteq> x"
proof -
  obtain ys zs q vs where xs: "xs = ys @ x # zs" and vs: "zs @ [h] = q # vs" and q: "nxt x = q"
    using ring_split [OF assms] by metis
  have "x \<notin> set (zs @ [h])"
    using assms(1) unfolding xs ring_def by auto
  then show ?thesis
    using Cons_ends [OF vs] unfolding q by blast
qed

lemma ring_at:
  assumes "ring nxt prv h (xs @ a # ys)"
  shows "nxt a = hd (ys @ [h]) \<and> prv a = last (h # xs)"
proof -
  obtain us p where us: "h # xs = us @ [p]"
    by (metis append_butlast_last_id list.distinct(1))
  have "chain nxt prv ((h # xs) @ a # (ys @ [h]))"
    using assms by (simp add: ring_def)
  then have "chain nxt prv (us @ p # a # ys @ [h])"
    unfolding us by simp
  then have "prv a = p" "chain nxt prv (a # ys @ [h])"
    by (simp_all add: chain_append2)
  then show ?thesis
    unfolding us by (cases ys) auto
qed

lemma ring_remove:
  assumes "ring nxt prv h xs" and "x \<in> set xs"
  shows "ring (nxt(prv x := nxt x)) (prv(nxt x := prv x)) h (remove1 x xs)"
proof -
  obtain ys zs p q us vs where xs: "xs = ys @ x # zs" and us: "h # ys = us @ [p]" and vs: "zs @ [h] = q # vs"
    and pq: "prv x = p" "nxt x = q"
    using ring_split [OF assms] by metis
  note ends = snoc_ends [OF us] Cons_ends [OF vs]
  have d: "distinct (h # ys)" "x \<notin> set (h # ys)" "distinct (zs @ [h])" "x \<notin> set (zs @ [h])"
    "set ys \<inter> set zs = {}" "h \<notin> set zs"
    using assms(1) by (auto simp: ring_def xs)
  have "chain nxt prv (us @ p # x # q # vs)"
    using assms(1) us vs unfolding xs ring_def by (metis append.assoc append_Cons append_Nil)
  moreover have "distinct (us @ [p, x])" "distinct (x # q # vs)"
    using d(1-4) [unfolded us vs] by auto
  moreover have "q \<notin> set (tl (us @ [p]))" "p \<notin> set (butlast (q # vs))"
    using ends d by auto
  ultimately have "chain (nxt(p := q)) (prv(q := p)) (us @ p # q # vs)"
    by (intro chain_remove)
  also have "us @ p # q # vs = h # (ys @ zs) @ [h]"
    using us vs by (metis append.assoc append_Cons append_Nil)
  finally show ?thesis
    using d assms(1) by (auto simp: ring_def xs pq remove1_append simp del: fun_upd_apply)
qed

lemma ring_insert:
  assumes "ring nxt prv h (ys @ zs)" and "x \<notin> set (h # ys @ zs)"
  defines "p \<equiv> last (h # ys)" and "q \<equiv> hd (zs @ [h])"
  shows "ring (nxt(x := q, p := x)) (prv(x := p, q := x)) h (ys @ x # zs)"
proof -
  obtain us where us: "h # ys = us @ [p]"
    unfolding p_def by (metis append_butlast_last_id list.distinct(1))
  obtain vs where vs: "zs @ [h] = q # vs"
    unfolding q_def by (cases zs) auto
  note ends = snoc_ends [OF us] Cons_ends [OF vs]
  have d: "distinct (h # ys)" "distinct (zs @ [h])" "set ys \<inter> set zs = {}" "h \<notin> set zs"
    using assms(1) by (auto simp: ring_def)
  have "chain nxt prv (us @ p # q # vs)"
    using assms(1) us vs unfolding ring_def by (metis append.assoc append_Cons append_Nil)
  moreover have "distinct (us @ [p])" "distinct (q # vs)"
    using d(1,2) [unfolded us vs] by auto
  moreover have "q \<notin> set (tl (us @ [p]))" "p \<notin> set (butlast (q # vs))"
    using ends d by auto
  moreover have "set (us @ p # q # vs) = set (h # ys) \<union> set (zs @ [h])"
    unfolding us vs by auto
  then have "x \<notin> set (us @ p # q # vs)"
    using assms(2) by simp
  ultimately have "chain (nxt(x := q, p := x)) (prv(x := p, q := x)) (us @ p # x # q # vs)"
    by (intro chain_insert)
  also have "us @ p # x # q # vs = h # (ys @ x # zs) @ [h]"
    using us vs by (metis append.assoc append_Cons append_Nil)
  finally show ?thesis
    using assms(1,2) by (auto simp: ring_def simp del: fun_upd_apply)
qed

text \<open>A ring can be entered at any of its elements.\<close>

lemma ring_rotate:
  assumes "ring nxt prv h xs" and "r \<in> set (h # xs)"
  obtains ys where "ring nxt prv r ys" and "set (r # ys) = set (h # xs)" and "length ys = length xs"
proof (cases "r = h")
  case True
  then show thesis
    using that assms by blast
next
  case False
  then obtain us vs where xs: "xs = us @ r # vs"
    using assms(2) by (auto simp: in_set_conv_decomp)
  have "chain nxt prv ((h # us) @ r # vs @ [h])"
    using assms(1) by (simp add: ring_def xs)
  then have "chain nxt prv (h # us @ [r])" "chain nxt prv ((r # vs) @ [h])"
    using chain_append [of nxt prv "h # us" r "vs @ [h]"] by simp_all
  then have "chain nxt prv ((r # vs) @ h # us @ [r])"
    by (subst chain_append) simp
  then show thesis
    using that [of "vs @ h # us"] assms(1) by (auto simp: ring_def xs)
qed

text \<open>The functions of \<^verbatim>\<open>links.c\<close> on a ring.\<close>

lemma ClearLink_ring: "ring (lk_next (ClearLink h s)) (lk_prev (ClearLink h s)) h []"
  by (simp add: ClearLink_def ring_empty)

lemma RemoveLink_ring:
  assumes "ring (lk_next s) (lk_prev s) h xs" and "x \<in> set xs"
  shows "ring (lk_next (RemoveLink x s)) (lk_prev (RemoveLink x s)) h (remove1 x xs)"
proof -
  have "lk_next s x \<noteq> x"
    using assms by (rule ring_next_other)
  then show ?thesis
    using ring_remove [OF assms] by (simp add: RemoveLink_def Let_def)
qed

lemma InsertLinkBefore_ring:
  assumes "ring (lk_next s) (lk_prev s) h xs" and "x \<notin> set (h # xs)"
  shows "ring (lk_next (InsertLinkBefore x h s)) (lk_prev (InsertLinkBefore x h s)) h (xs @ [x])"
proof -
  have "lk_prev s h = last (h # xs)"
    using ring_last [OF assms(1)] by simp
  moreover have "x \<noteq> h" "x \<noteq> last (h # xs)"
    using assms(2) last_in_set [of "h # xs"] by auto
  ultimately show ?thesis
    using ring_insert [of "lk_next s" "lk_prev s" h xs "[]" x] assms
    by (simp add: InsertLinkBefore_def Let_def del: last.simps)
qed

lemma InsertLinkAfter_ring:
  assumes "ring (lk_next s) (lk_prev s) h xs" and "x \<notin> set (h # xs)"
  shows "ring (lk_next (InsertLinkAfter x h s)) (lk_prev (InsertLinkAfter x h s)) h (x # xs)"
proof -
  have "lk_next s h = hd (xs @ [h])"
    using ring_first [OF assms(1)] by simp
  moreover have "x \<noteq> h"
    using assms(2) by auto
  ultimately show ?thesis
    using ring_insert [of "lk_next s" "lk_prev s" h "[]" xs x] assms by (simp add: InsertLinkAfter_def Let_def)
qed

text \<open>A ring that shares no link with the one that is changed is not touched.\<close>

lemma ring_cong:
  assumes "ring nxt prv h xs" and "\<And>x. x \<in> set (h # xs) \<Longrightarrow> nxt' x = nxt x \<and> prv' x = prv x"
  shows "ring nxt' prv' h xs"
proof -
  have "chain nxt' prv' (h # xs @ [h]) = chain nxt prv (h # xs @ [h])"
    using assms(2) by (intro chain_cong) (auto dest: in_set_butlastD in_set_tlD)
  then show ?thesis
    using assms(1) by (simp add: ring_def)
qed

lemma ring_neighbours:
  assumes "ring nxt prv h xs" and "x \<in> set (h # xs)"
  shows "nxt x \<in> set (h # xs) \<and> prv x \<in> set (h # xs)"
proof (cases "x = h")
  case True
  then show ?thesis
    using ring_first [OF assms(1)] ring_last [OF assms(1)] last_in_set [of "h # xs"] by (cases xs) auto
next
  case False
  then obtain ys zs p q us vs where xs: "xs = ys @ x # zs" and us: "h # ys = us @ [p]" and vs: "zs @ [h] = q # vs"
    and pq: "prv x = p" "nxt x = q"
    using assms ring_split by (metis set_ConsD)
  have "p \<in> set (h # ys)" "q \<in> set (zs @ [h])"
    using snoc_ends [OF us] Cons_ends [OF vs] by blast+
  then show ?thesis
    unfolding xs pq by auto
qed

lemma RemoveLink_frame:
  assumes "ring (lk_next s) (lk_prev s) h xs" and "x \<in> set xs"
    and "ring (lk_next s) (lk_prev s) g ys" and "set (h # xs) \<inter> set (g # ys) = {}"
  shows "ring (lk_next (RemoveLink x s)) (lk_prev (RemoveLink x s)) g ys"
proof (rule ring_cong [OF assms(3)])
  fix y assume y: "y \<in> set (g # ys)"
  have "lk_next s x \<in> set (h # xs)" "lk_prev s x \<in> set (h # xs)"
    using ring_neighbours [OF assms(1), of x] assms(2) by simp_all
  then have "y \<noteq> lk_next s x" "y \<noteq> lk_prev s x"
    using assms(4) y by blast+
  then show "lk_next (RemoveLink x s) y = lk_next s y \<and> lk_prev (RemoveLink x s) y = lk_prev s y"
    using ring_next_other [OF assms(1,2)] by (simp add: RemoveLink_def Let_def)
qed

lemma InsertLinkBefore_frame:
  assumes "ring (lk_next s) (lk_prev s) h xs" and "x \<notin> set (g # ys)"
    and "ring (lk_next s) (lk_prev s) g ys" and "set (h # xs) \<inter> set (g # ys) = {}"
  shows "ring (lk_next (InsertLinkBefore x h s)) (lk_prev (InsertLinkBefore x h s)) g ys"
proof (rule ring_cong [OF assms(3)])
  fix y assume y: "y \<in> set (g # ys)"
  have "lk_prev s h \<in> set (h # xs)"
    using ring_neighbours [OF assms(1), of h] by simp
  then have "y \<noteq> h" "y \<noteq> lk_prev s h" "y \<noteq> x"
    using assms(2,4) y by auto
  then show "lk_next (InsertLinkBefore x h s) y = lk_next s y \<and> lk_prev (InsertLinkBefore x h s) y = lk_prev s y"
    by (simp add: InsertLinkBefore_def Let_def)
qed

section \<open>Moving members between lists\<close>

text \<open>
  The interface that the owners of the lists use: a store, in which a head owns a sequence of members,
  with removal of a member and insertion at the end, each of which leaves the lists that share no
  element with the changed one alone. The client (the linking of edicts into areas) moves a member by
  removing it where it is and appending it to another list.
\<close>

locale link_lists =
  fixes seq :: "'s \<Rightarrow> 'a \<Rightarrow> 'a list \<Rightarrow> bool"
    and remove :: "'a \<Rightarrow> 's \<Rightarrow> 's" and append :: "'a \<Rightarrow> 'a \<Rightarrow> 's \<Rightarrow> 's"
  assumes seq_distinct: "seq s h xs \<Longrightarrow> distinct (h # xs)"
    and remove_seq: "seq s h xs \<Longrightarrow> x \<in> set xs \<Longrightarrow> seq (remove x s) h (remove1 x xs)"
    and remove_other: "seq s h xs \<Longrightarrow> x \<in> set xs \<Longrightarrow> seq s g ys \<Longrightarrow> set (h # xs) \<inter> set (g # ys) = {} \<Longrightarrow>
      seq (remove x s) g ys"
    and append_seq: "seq s h xs \<Longrightarrow> x \<notin> set (h # xs) \<Longrightarrow> seq (append x h s) h (xs @ [x])"
    and append_other: "seq s h xs \<Longrightarrow> x \<notin> set (g # ys) \<Longrightarrow> seq s g ys \<Longrightarrow> set (h # xs) \<inter> set (g # ys) = {} \<Longrightarrow>
      seq (append x h s) g ys"
begin

definition all_seq :: "'s \<Rightarrow> 'a set \<Rightarrow> ('a \<Rightarrow> 'a list) \<Rightarrow> bool" where
  "all_seq s H L \<longleftrightarrow> (\<forall>h \<in> H. seq s h (L h)) \<and>
     (\<forall>h \<in> H. \<forall>g \<in> H. h \<noteq> g \<longrightarrow> set (h # L h) \<inter> set (g # L g) = {})"

definition move :: "'a \<times> 'a \<Rightarrow> 's \<Rightarrow> 's" where
  "move m s = append (fst m) (snd m) (remove (fst m) s)"

definition moved :: "'a \<times> 'a \<Rightarrow> ('a \<Rightarrow> 'a list) \<Rightarrow> 'a \<Rightarrow> 'a list" where
  "moved m L h = (if h = snd m then remove1 (fst m) (L h) @ [fst m] else remove1 (fst m) (L h))"

lemma move_step:
  assumes L: "all_seq s H L" and g: "g \<in> H" "x \<in> set (L g)" and h: "h \<in> H"
  shows "all_seq (move (x, h) s) H (moved (x, h) L)"
proof -
  define M where "M = (\<lambda>k. remove1 x (L k))"
  have own: "distinct (k # L k)" if "k \<in> H" for k
    using L that seq_distinct by (auto simp: all_seq_def)
  have gone: "x \<notin> set (k # M k)" if "k \<in> H" for k
  proof (cases "k = g")
    case True
    then show ?thesis
      using own [OF that] g by (auto simp: M_def)
  next
    case False
    then have "set (k # L k) \<inter> set (g # L g) = {}"
      using L that g by (simp add: all_seq_def del: set_simps)
    then have "x \<notin> set (k # L k)"
      using g by auto
    then show ?thesis
      using set_remove1_subset [of x "L k"] by (auto simp: M_def)
  qed
  have M: "seq (remove x s) k (M k)" if "k \<in> H" for k
  proof (cases "k = g")
    case True
    then show ?thesis
      using L g remove_seq by (auto simp: all_seq_def M_def)
  next
    case False
    then have "seq (remove x s) k (L k)"
      using L g that by (intro remove_other [of s g "L g" x]) (auto simp: all_seq_def)
    moreover have "set (k # L k) \<inter> set (g # L g) = {}"
      using False L that g by (simp add: all_seq_def del: set_simps)
    then have "x \<notin> set (L k)"
      using g by auto
    ultimately show ?thesis
      by (simp add: M_def remove1_idem)
  qed
  have apart: "set (k # M k) \<inter> set (j # M j) = {}" if "k \<in> H" "j \<in> H" "k \<noteq> j" for k j
  proof -
    have "set (k # L k) \<inter> set (j # L j) = {}"
      using L that by (simp add: all_seq_def)
    then show ?thesis
      using set_remove1_subset [of x "L k"] set_remove1_subset [of x "L j"] unfolding M_def by auto
  qed
  have "seq (append x h (remove x s)) k (if k = h then M k @ [x] else M k)" if "k \<in> H" for k
    using append_seq [OF M [OF h] gone [OF h]] append_other [OF M [OF h] gone [OF that] M [OF that]] apart [OF h that]
    by auto
  moreover have "set (k # (if k = h then M k @ [x] else M k)) \<inter> set (j # (if j = h then M j @ [x] else M j)) = {}"
    if "k \<in> H" "j \<in> H" "k \<noteq> j" for k j
    using apart [OF that] gone [OF that(1)] gone [OF that(2)] that(3) by auto
  moreover have "moved (x, h) L = (\<lambda>k. if k = h then M k @ [x] else M k)"
    by (simp add: moved_def M_def fun_eq_iff)
  ultimately show ?thesis
    by (simp add: all_seq_def move_def del: set_simps if_split)
qed

lemma set_moved: "g \<in> H \<Longrightarrow> x \<in> set (L g) \<Longrightarrow> h \<in> H \<Longrightarrow>
  (\<Union>k \<in> H. set (L k)) \<subseteq> (\<Union>k \<in> H. set (moved (x, h) L k))"
  by (auto simp: moved_def) (metis in_set_remove1)+

lemma moves:
  assumes "all_seq s H L" and "\<And>m. m \<in> set ms \<Longrightarrow> snd m \<in> H \<and> fst m \<in> (\<Union>h \<in> H. set (L h))"
  shows "all_seq (fold move ms s) H (fold moved ms L)"
  using assms
proof (induction ms arbitrary: s L)
  case Nil
  then show ?case by simp
next
  case (Cons m ms)
  obtain x h where m: "m = (x, h)"
    by (cases m)
  obtain g where g: "g \<in> H" "x \<in> set (L g)" "h \<in> H"
    using Cons.prems(2) [of m] by (auto simp: m)
  have "snd m' \<in> H \<and> fst m' \<in> (\<Union>k \<in> H. set (moved (x, h) L k))" if "m' \<in> set ms" for m'
    using Cons.prems(2) [of m'] that set_moved [of g H x L h, OF g] by auto
  then have "all_seq (fold move ms (move (x, h) s)) H (fold moved ms (moved (x, h) L))"
    by (rule Cons.IH [OF move_step [OF Cons.prems(1) g]])
  then show ?case
    by (simp add: m)
qed

end

interpretation lk: link_lists "\<lambda>s. ring (lk_next s) (lk_prev s)" RemoveLink InsertLinkBefore
proof
  show "ring (lk_next s) (lk_prev s) h xs \<Longrightarrow> distinct (h # xs)" for s h xs
    by (simp add: ring_def)
qed (rule RemoveLink_ring RemoveLink_frame InsertLinkBefore_ring InsertLinkBefore_frame; assumption)+

text \<open>
  What the world does with an edict that moves: its link is taken out of the list it is in and put
  at the end of the list of another area. \<open>areas s H L\<close>: the heads in \<open>H\<close> own the lists \<open>L\<close>, no two of
  which share a link.
\<close>

definition relink :: "addr \<times> addr \<Rightarrow> links \<Rightarrow> links" where
  "relink m s = InsertLinkBefore (fst m) (snd m) (RemoveLink (fst m) s)"

definition relinked :: "addr \<times> addr \<Rightarrow> (addr \<Rightarrow> addr list) \<Rightarrow> addr \<Rightarrow> addr list" where
  "relinked m L h = (if h = snd m then remove1 (fst m) (L h) @ [fst m] else remove1 (fst m) (L h))"

definition areas :: "links \<Rightarrow> addr set \<Rightarrow> (addr \<Rightarrow> addr list) \<Rightarrow> bool" where
  "areas s H L \<longleftrightarrow> (\<forall>h \<in> H. ring (lk_next s) (lk_prev s) h (L h)) \<and>
     (\<forall>h \<in> H. \<forall>g \<in> H. h \<noteq> g \<longrightarrow> set (h # L h) \<inter> set (g # L g) = {})"


text \<open>Two areas with two edicts in the first one; both move to the second, and one moves back.\<close>

definition two_areas :: links where
  "two_areas = InsertLinkBefore 11 1 (InsertLinkBefore 10 1 (ClearLink 2 (ClearLink 1
     \<lparr>lk_next = (\<lambda>_. 0), lk_prev = (\<lambda>_. 0)\<rparr>)))"


end
