(* ===== verification/Zone.thy ===== *)
theory Zone
  imports Links
begin

text \<open>
  The zone allocator of \<^verbatim>\<open>HUNK.c\<close> (\<^verbatim>\<open>Z_ClearZone\<close>, \<^verbatim>\<open>Z_TagMalloc\<close>, \<^verbatim>\<open>Z_Malloc\<close>, \<^verbatim>\<open>Z_Free\<close>,
  \<^verbatim>\<open>Z_CheckHeap\<close>): one region cut into blocks, each with a header that holds its size, its tag (0 is
  free) and its links in a ring headed by \<^verbatim>\<open>zone->blocklist\<close>. Addresses and sizes are 32-bit words. The
  headers are a store \<open>zn_blk\<close> from addresses to \<^verbatim>\<open>memblock_t\<close>s, the bytes the allocator writes outside
  headers (the trash marker, the zeroing of \<^verbatim>\<open>Z_Malloc\<close>) are in \<open>zn_mem\<close>. The two loops that follow links
  are partial functions: on a damaged zone they may not return, which is the result \<open>None\<close>.
\<close>

definition MINFRAGMENT :: u32 where "MINFRAGMENT = 64"
definition ZONEID :: u32 where "ZONEID = 0x1d4a11"
definition SIZEOF_MEMBLOCK :: u32 where "SIZEOF_MEMBLOCK = 24"
definition SIZEOF_MEMZONE :: u32 where "SIZEOF_MEMZONE = 32"

record memblock =
  mb_size :: u32
  mb_tag :: u32
  mb_id :: u32
  mb_next :: addr
  mb_prev :: addr

record zone =
  zn_base :: addr
  zn_blk :: "addr \<Rightarrow> memblock"
  zn_rover :: addr
  zn_mem :: "addr \<Rightarrow> u8"

text \<open>\<^verbatim>\<open>&zone->blocklist\<close>, and the assignments to fields of a header.\<close>

definition blocklist :: "zone \<Rightarrow> addr" where
  "blocklist z = zn_base z + 4"

abbreviation upd_blk :: "addr \<Rightarrow> (memblock \<Rightarrow> memblock) \<Rightarrow> zone \<Rightarrow> zone" where
  "upd_blk a f z \<equiv> z\<lparr>zn_blk := (zn_blk z)(a := f (zn_blk z a))\<rparr>"

definition fill_bytes :: "addr \<Rightarrow> u8 list \<Rightarrow> (addr \<Rightarrow> u8) \<Rightarrow> addr \<Rightarrow> u8" where
  "fill_bytes a bs m x = (if unat (x - a) < length bs then bs ! unat (x - a) else m x)"

definition Z_ClearZone :: "zone \<Rightarrow> u32 \<Rightarrow> zone" where
  "Z_ClearZone z sz =
     (let block = zn_base z + SIZEOF_MEMZONE; h = blocklist z;
          z = upd_blk h (\<lambda>b. b\<lparr>mb_next := block, mb_prev := block, mb_tag := 1, mb_id := 0, mb_size := 0\<rparr>) z;
          z = z\<lparr>zn_rover := block\<rparr>
      in upd_blk block (\<lambda>b. b\<lparr>mb_prev := h, mb_next := h, mb_tag := 0, mb_id := ZONEID,
           mb_size := sz - SIZEOF_MEMZONE\<rparr>) z)"

text \<open>
  \<^verbatim>\<open>Z_Free\<close>: \<open>merge\<close> adds the block that follows \<open>a\<close> to \<open>a\<close>, which is what the code does with the previous
  free block and \<open>block\<close> first, and then with \<open>block\<close> and a free next block.
\<close>

definition merge :: "addr \<Rightarrow> addr \<Rightarrow> zone \<Rightarrow> zone" where
  "merge a b z =
     (let z = upd_blk a (\<lambda>k. k\<lparr>mb_size := mb_size k + mb_size (zn_blk z b)\<rparr>) z;
          z = upd_blk a (\<lambda>k. k\<lparr>mb_next := mb_next (zn_blk z b)\<rparr>) z;
          z = upd_blk (mb_next (zn_blk z a)) (\<lambda>k. k\<lparr>mb_prev := a\<rparr>) z
      in if b = zn_rover z then z\<lparr>zn_rover := a\<rparr> else z)"

definition Z_Free :: "zone \<Rightarrow> addr \<Rightarrow> zone outcome" where
  "Z_Free z ptr =
     (if ptr = 0 then Inl SysError
      else let block = ptr - SIZEOF_MEMBLOCK in
        if mb_id (zn_blk z block) \<noteq> ZONEID then Inl SysError
        else if mb_tag (zn_blk z block) = 0 then Inl SysError
        else
          let z = upd_blk block (\<lambda>k. k\<lparr>mb_tag := 0\<rparr>) z;
              other = mb_prev (zn_blk z block);
              (z, block) = (if mb_tag (zn_blk z other) = 0 then (merge other block z, other) else (z, block));
              other = mb_next (zn_blk z block)
          in Inr (if mb_tag (zn_blk z other) = 0 then merge block other z else z))"

text \<open>
  \<^verbatim>\<open>Z_TagMalloc\<close>: the scan for a free block from the rover, which stops at the block before it; then
  \<open>take_block\<close> splits the found block when more than \<^verbatim>\<open>MINFRAGMENT\<close> (compared as \<^verbatim>\<open>int\<close>) remains.
\<close>

partial_function (option) zone_scan :: "zone \<Rightarrow> u32 \<Rightarrow> addr \<Rightarrow> addr \<Rightarrow> addr \<Rightarrow> (addr option) option" where
  "zone_scan z sz start rover base =
     (if rover = start then Some None
      else let next = mb_next (zn_blk z rover);
               base = (if mb_tag (zn_blk z rover) \<noteq> 0 then next else base)
           in if mb_tag (zn_blk z base) \<noteq> 0 \<or> mb_size (zn_blk z base) < sz
              then zone_scan z sz start next base
              else Some (Some base))"

definition split_block :: "addr \<Rightarrow> u32 \<Rightarrow> u32 \<Rightarrow> zone \<Rightarrow> zone" where
  "split_block base sz extra z =
     (let newz = base + sz;
          z = upd_blk newz (\<lambda>k. k\<lparr>mb_size := extra, mb_tag := 0, mb_prev := base, mb_id := ZONEID\<rparr>) z;
          z = upd_blk newz (\<lambda>k. k\<lparr>mb_next := mb_next (zn_blk z base)\<rparr>) z;
          z = upd_blk (mb_next (zn_blk z newz)) (\<lambda>k. k\<lparr>mb_prev := newz\<rparr>) z
      in upd_blk base (\<lambda>k. k\<lparr>mb_next := newz, mb_size := sz\<rparr>) z)"

definition take_block :: "addr \<Rightarrow> u32 \<Rightarrow> u32 \<Rightarrow> zone \<Rightarrow> zone" where
  "take_block base sz tag z =
     (let extra = mb_size (zn_blk z base) - sz;
          z = (if sint extra > sint MINFRAGMENT then split_block base sz extra z else z);
          z = upd_blk base (\<lambda>k. k\<lparr>mb_tag := tag\<rparr>) z;
          z = z\<lparr>zn_rover := mb_next (zn_blk z base)\<rparr>;
          z = upd_blk base (\<lambda>k. k\<lparr>mb_id := ZONEID\<rparr>) z
      in z\<lparr>zn_mem := fill_bytes (base + mb_size (zn_blk z base) - 4) (bytes32 ZONEID) (zn_mem z)\<rparr>)"

definition block_size :: "u32 \<Rightarrow> u32" where
  "block_size sz = (sz + SIZEOF_MEMBLOCK + 4 + 7) AND NOT 7"

definition Z_TagMalloc :: "zone \<Rightarrow> u32 \<Rightarrow> u32 \<Rightarrow> (zone \<times> addr) outcome option" where
  "Z_TagMalloc z sz tag =
     (if tag = 0 then Some (Inl SysError)
      else let sz = block_size sz; rover = zn_rover z in
        case zone_scan z sz (mb_prev (zn_blk z rover)) rover rover of
          None \<Rightarrow> None
        | Some None \<Rightarrow> Some (Inr (z, 0))
        | Some (Some base) \<Rightarrow> Some (Inr (take_block base sz tag z, base + SIZEOF_MEMBLOCK)))"

partial_function (option) check_blocks :: "zone \<Rightarrow> addr \<Rightarrow> unit outcome option" where
  "check_blocks z block =
     (let next = mb_next (zn_blk z block) in
      if next = blocklist z then Some (Inr ())
      else if block + mb_size (zn_blk z block) \<noteq> next then Some (Inl SysError)
      else if mb_prev (zn_blk z next) \<noteq> block then Some (Inl SysError)
      else if mb_tag (zn_blk z block) = 0 \<and> mb_tag (zn_blk z next) = 0 then Some (Inl SysError)
      else check_blocks z next)"

definition Z_CheckHeap :: "zone \<Rightarrow> unit outcome option" where
  "Z_CheckHeap z = check_blocks z (mb_next (zn_blk z (blocklist z)))"

definition Z_Malloc :: "zone \<Rightarrow> u32 \<Rightarrow> (zone \<times> addr) outcome option" where
  "Z_Malloc z sz =
     (case Z_CheckHeap z of
        None \<Rightarrow> None
      | Some (Inl e) \<Rightarrow> Some (Inl e)
      | Some (Inr _) \<Rightarrow>
          (case Z_TagMalloc z sz 1 of
             None \<Rightarrow> None
           | Some (Inl e) \<Rightarrow> Some (Inl e)
           | Some (Inr (z, buf)) \<Rightarrow>
               if buf = 0 then Some (Inl SysError)
               else Some (Inr (z\<lparr>zn_mem := fill_bytes buf (replicate (unat sz) 0) (zn_mem z)\<rparr>, buf))))"

declare zone_scan.simps [code] check_blocks.simps [code]

section \<open>The shape of a zone\<close>

abbreviation bsz :: "zone \<Rightarrow> addr \<Rightarrow> u32" where "bsz z a \<equiv> mb_size (zn_blk z a)"
abbreviation btag :: "zone \<Rightarrow> addr \<Rightarrow> u32" where "btag z a \<equiv> mb_tag (zn_blk z a)"
abbreviation bid :: "zone \<Rightarrow> addr \<Rightarrow> u32" where "bid z a \<equiv> mb_id (zn_blk z a)"
abbreviation bnext :: "zone \<Rightarrow> addr \<Rightarrow> addr" where "bnext z \<equiv> \<lambda>a. mb_next (zn_blk z a)"
abbreviation bprev :: "zone \<Rightarrow> addr \<Rightarrow> addr" where "bprev z \<equiv> \<lambda>a. mb_prev (zn_blk z a)"

text \<open>Blocks of given sizes that follow each other from one address to another.\<close>

fun tiles :: "(addr \<Rightarrow> u32) \<Rightarrow> nat \<Rightarrow> addr list \<Rightarrow> nat \<Rightarrow> bool" where
  "tiles f p [] e \<longleftrightarrow> p = e"
| "tiles f p (a # as) e \<longleftrightarrow> unat a = p \<and> 24 \<le> unat (f a) \<and> tiles f (p + unat (f a)) as e"

definition zone_shape :: "zone \<Rightarrow> addr list \<Rightarrow> nat \<Rightarrow> bool" where
  "zone_shape z as e \<longleftrightarrow> as \<noteq> [] \<and> ring (bnext z) (bprev z) (blocklist z) as \<and>
     tiles (bsz z) (unat (zn_base z) + 32) as e \<and> e < 2 ^ 32 \<and>
     btag z (blocklist z) \<noteq> 0 \<and> bid z (blocklist z) = 0 \<and> (\<forall>a \<in> set as. bid z a = ZONEID) \<and>
     zn_rover z \<in> set (blocklist z # as)"

text \<open>No two free blocks are neighbours.\<close>

definition coalesced :: "zone \<Rightarrow> addr list \<Rightarrow> bool" where
  "coalesced z = successively (\<lambda>a b. btag z a \<noteq> 0 \<or> btag z b \<noteq> 0)"

definition zone_inv :: "zone \<Rightarrow> addr list \<Rightarrow> nat \<Rightarrow> bool" where
  "zone_inv z as e \<longleftrightarrow> zone_shape z as e \<and> coalesced z as"

lemma tiles_append: "tiles f p (xs @ ys) e \<longleftrightarrow> (\<exists>q. tiles f p xs q \<and> tiles f q ys e)"
  by (induction xs arbitrary: p) auto

lemma tiles_bounds: "tiles f p as e \<Longrightarrow> p \<le> e \<and> (\<forall>a \<in> set as. p \<le> unat a \<and> 24 \<le> unat (f a) \<and> unat a + unat (f a) \<le> e)"
  by (induction as arbitrary: p) force+

lemma tiles_cong: "(\<And>a. a \<in> set as \<Longrightarrow> f a = g a) \<Longrightarrow> tiles f p as e = tiles g p as e"
  by (induction as arbitrary: p) auto

lemma tiles_apart:
  "tiles f p as e \<Longrightarrow> a \<in> set as \<Longrightarrow> b \<in> set as \<Longrightarrow> a \<noteq> b \<Longrightarrow>
   unat a + unat (f a) \<le> unat b \<or> unat b + unat (f b) \<le> unat a"
proof (induction as arbitrary: p)
  case Nil
  then show ?case by simp
next
  case (Cons c as)
  then show ?case
    using tiles_bounds [of f "p + unat (f c)" as e] by auto
qed

lemma coalesced_simps [simp]:
  "coalesced z []" "coalesced z [a]"
  "coalesced z (a # b # as) \<longleftrightarrow> (btag z a \<noteq> 0 \<or> btag z b \<noteq> 0) \<and> coalesced z (b # as)"
  by (simp_all add: coalesced_def)

lemma coalesced_append:
  "coalesced z (xs @ a # ys) \<longleftrightarrow> coalesced z (xs @ [a]) \<and> coalesced z (a # ys)"
  by (auto simp: coalesced_def successively_append_iff)

lemma coalesced_cong: "(\<And>a. a \<in> set as \<Longrightarrow> btag z' a = btag z a) \<Longrightarrow> coalesced z' as = coalesced z as"
  by (induction as rule: induct_list012) auto

text \<open>Allocating a free block keeps free blocks apart.\<close>

lemma coalesced_weaken: "coalesced z as \<Longrightarrow> (\<And>a. a \<in> set as \<Longrightarrow> btag z a \<noteq> 0 \<Longrightarrow> btag z' a \<noteq> 0) \<Longrightarrow> coalesced z' as"
  by (induction as rule: induct_list012) auto

lemma zone_next_tagged:
  assumes "zone_inv z as e" and "a \<in> set (blocklist z # as)" and "btag z a = 0"
  shows "btag z (bnext z a) \<noteq> 0"
proof -
  have r: "ring (bnext z) (bprev z) (blocklist z) as" and h: "btag z (blocklist z) \<noteq> 0"
    and c: "coalesced z as"
    using assms(1) by (simp_all add: zone_inv_def zone_shape_def)
  then have "a \<in> set as"
    using assms(2,3) by auto
  then obtain ys zs q vs where as: "as = ys @ a # zs" and q: "zs @ [blocklist z] = q # vs" "bnext z a = q"
    using ring_split [OF r] by metis
  have "coalesced z (a # zs)"
    using c coalesced_append [of z ys a zs] unfolding as by blast
  then show ?thesis
    using h assms(3) q by (cases zs) auto
qed

section \<open>The scan\<close>

definition fits :: "zone \<Rightarrow> u32 \<Rightarrow> addr \<Rightarrow> bool" where
  "fits z n a \<longleftrightarrow> btag z a = 0 \<and> n \<le> bsz z a"

lemma zone_scan_chain:
  assumes "chain (bnext z) (bprev z) (r # rs)" and "distinct (r # rs)" and "start = last (r # rs)"
    and "\<forall>x \<in> set (r # rs). btag z x = 0 \<longrightarrow> btag z (bnext z x) \<noteq> 0" and "b = r \<or> btag z r \<noteq> 0"
  shows "\<exists>res. zone_scan z n start r b = Some res \<and>
    (case res of None \<Rightarrow> (\<forall>a \<in> set rs. \<not> fits z n a) \<and> (rs \<noteq> [] \<longrightarrow> \<not> fits z n r)
     | Some a \<Rightarrow> a \<in> set (r # rs) \<and> fits z n a)"
  using assms
proof (induction rs arbitrary: r b)
  case Nil
  then show ?case
    by (subst zone_scan.simps) simp
next
  case (Cons r' rs)
  have ne: "r \<noteq> start"
    using Cons.prems(2,3) last_in_set [of "r' # rs"] by (metis distinct.simps(2) last_ConsR list.distinct(1))
  have nx: "bnext z r = r'"
    using Cons.prems(1) by simp
  show ?case
  proof (cases "btag z r = 0")
    case True
    then have b: "b = r" and t: "btag z r' \<noteq> 0"
      using Cons.prems(4,5) nx by auto
    show ?thesis
    proof (cases "fits z n r")
      case True
      then show ?thesis
        using ne by (subst zone_scan.simps) (auto simp: b fits_def not_less)
    next
      case False
      then have "zone_scan z n start r b = zone_scan z n start r' r"
        using ne \<open>btag z r = 0\<close> nx by (subst zone_scan.simps) (auto simp: b fits_def not_less)
      then show ?thesis
        using Cons.IH [of r' r] Cons.prems t False by (fastforce simp: fits_def split: option.splits)
    qed
  next
    case False
    show ?thesis
    proof (cases "fits z n r'")
      case True
      then show ?thesis
        using ne False nx by (subst zone_scan.simps) (auto simp: Let_def fits_def not_less)
    next
      case small: False
      then have "zone_scan z n start r b = zone_scan z n start r' r'"
        using ne False nx by (subst zone_scan.simps) (auto simp: Let_def fits_def not_less)
      then show ?thesis
        using Cons.IH [of r' r'] Cons.prems False small by (fastforce simp: fits_def split: option.splits)
    qed
  qed
qed

lemma tiles_upd [simp]: "a \<notin> set as \<Longrightarrow> tiles (f(a := x)) p as e = tiles f p as e"
  by (rule tiles_cong) auto

section \<open>Sizes\<close>

lemma block_size_bounds:
  assumes "unat n + 35 < 2 ^ 32"
  shows "unat n + 28 \<le> unat (block_size n) \<and> unat (block_size n) \<le> unat n + 35"
proof -
  define w where "w = n + 35"
  have w: "unat w = unat n + 35"
    unfolding w_def using assms by (subst unat_u32_add) simp_all
  have "block_size n = w - (w AND 7)"
    by (subst disjunctive_diff_eq_and_not)
      (auto simp: block_size_def SIZEOF_MEMBLOCK_def w_def add_ac intro!: bit_word_eqI simp: bit_simps)
  moreover have "unat (w AND 7) = unat w mod 8"
    by (rule unat_and_7)
  moreover have "unat (w AND 7) \<le> unat w"
    by (simp add: unat_and_7)
  ultimately have "unat (block_size n) = unat w - unat w mod 8"
    by (simp add: unat_sub word_le_nat_alt)
  then show ?thesis
    using w by simp
qed

section \<open>Splitting a block\<close>

lemma split_block_fields:
  assumes "a \<noteq> a + n" "bnext z a \<noteq> a + n"
  shows "bnext (split_block a n x z) = (bnext z)(a + n := bnext z a, a := a + n)"
    "bprev (split_block a n x z) = (bprev z)(a + n := a, bnext z a := a + n)"
    "bsz (split_block a n x z) = (bsz z)(a + n := x, a := n)" "btag (split_block a n x z) = (btag z)(a + n := 0)"
    "bid (split_block a n x z) = (bid z)(a + n := ZONEID)"
    "zn_base (split_block a n x z) = zn_base z" "zn_rover (split_block a n x z) = zn_rover z" "blocklist (split_block a n x z) = blocklist z"
  using assms by (auto simp: split_block_def Let_def fun_eq_iff blocklist_def)

lemma merge_fields:
  assumes "a \<noteq> b"
  shows "bnext (merge a b z) = (bnext z)(a := bnext z b)" "bprev (merge a b z) = (bprev z)(bnext z b := a)"
    "bsz (merge a b z) = (bsz z)(a := bsz z a + bsz z b)" "btag (merge a b z) = btag z" "bid (merge a b z) = bid z"
    "zn_base (merge a b z) = zn_base z" "zn_rover (merge a b z) = (if b = zn_rover z then a else zn_rover z)" "blocklist (merge a b z) = blocklist z"
    "zn_mem (merge a b z) = zn_mem z"
  using assms by (auto simp: merge_def Let_def fun_eq_iff blocklist_def)

lemma mark_fields:
  assumes "z' = z\<lparr>zn_blk := (zn_blk z)(a := (zn_blk z a)\<lparr>mb_tag := t\<rparr>)\<rparr>"
  shows "bnext z' = bnext z" "bprev z' = bprev z" "bsz z' = bsz z" "btag z' = (btag z)(a := t)" "bid z' = bid z"
    "zn_base z' = zn_base z" "zn_rover z' = zn_rover z" "blocklist z' = blocklist z" "zn_mem z' = zn_mem z"
  using assms by (auto simp: fun_eq_iff blocklist_def)

lemma split_shape:
  assumes s: "zone_shape z (xs @ a # ys) e" and n: "24 \<le> unat n" "unat n + 24 \<le> unat (bsz z a)"
  defines "z' \<equiv> split_block a n (bsz z a - n) z"
  shows "zone_shape z' (xs @ a # (a + n) # ys) e" "a + n \<notin> set (blocklist z # xs @ a # ys)"
    "bsz z' a = n" "btag z' = (btag z)(a + n := 0)" "unat (bsz z' (a + n)) = unat (bsz z a) - unat n"
    "\<forall>b \<in> set (xs @ ys). bsz z' b = bsz z b"
    "zn_base z' = zn_base z"
proof -
  let ?p = "unat (zn_base z) + 32"
  have r: "ring (bnext z) (bprev z) (blocklist z) (xs @ a # ys)" and t: "tiles (bsz z) ?p (xs @ a # ys) e"
    and e: "e < 2 ^ 32"
    using s by (simp_all add: zone_shape_def)
  obtain q where q: "tiles (bsz z) ?p xs q" "unat a = q" "tiles (bsz z) (q + unat (bsz z a)) ys e"
    using t by (auto simp: tiles_append)
  have an: "unat (a + n) = unat a + unat n"
    using q e n tiles_bounds [OF q(3)] by (intro unat_u32_add) simp
  have x: "unat (bsz z a - n) = unat (bsz z a) - unat n"
    using n by (simp add: unat_sub word_le_nat_alt)
  have h: "unat (blocklist z) = unat (zn_base z) + 4"
    using tiles_bounds [OF t] e unfolding blocklist_def by (subst unat_u32_add) simp_all
  show new: "a + n \<notin> set (blocklist z # xs @ a # ys)"
  proof
    assume "a + n \<in> set (blocklist z # xs @ a # ys)"
    then consider "a + n = blocklist z" | "a + n = a" | "a + n \<in> set xs" | "a + n \<in> set ys"
      by auto
    then show False
    proof cases
      case 1
      then show ?thesis
        using an h q tiles_bounds [OF q(1)] by simp
    next
      case 2
      then show ?thesis
        using an n by simp
    next
      case 3
      then show ?thesis
        using an q tiles_bounds [OF q(1)] by fastforce
    next
      case 4
      then show ?thesis
        using an q n tiles_bounds [OF q(3)] by fastforce
    qed
  qed
  have "bnext z a \<in> set (blocklist z # xs @ a # ys)"
    using ring_neighbours [OF r, of a] by simp
  then have ne: "a \<noteq> a + n" "bnext z a \<noteq> a + n"
    using new by auto
  note f = split_block_fields [OF ne, of "bsz z a - n", folded z'_def]
  note fp = f(4,5) [THEN fun_cong] and fq = f(1,3) [THEN fun_cong]
  have hd: "bnext z a = hd (ys @ [blocklist z])"
    using ring_at [OF r] by simp
  have "ring (bnext z') (bprev z') (blocklist z') (xs @ a # (a + n) # ys)"
    using ring_insert [of "bnext z" "bprev z" "blocklist z" "xs @ [a]" ys "a + n"] r new
    by (simp add: f hd)
  moreover have "tiles (bsz z') ?p (xs @ a # (a + n) # ys) e"
  proof -
    have "tiles (bsz z') ?p xs q" "tiles (bsz z') (q + unat (bsz z a)) ys e"
      using q(1,3) r new by (auto simp: f ring_def)
    then show ?thesis
      using n an x ne q(2) by (auto simp: tiles_append f)
  qed
  ultimately show "zone_shape z' (xs @ a # (a + n) # ys) e"
    using s new by (auto simp: zone_shape_def f fp)
  show "bsz z' a = n" "btag z' = (btag z)(a + n := 0)" "unat (bsz z' (a + n)) = unat (bsz z a) - unat n"
    "zn_base z' = zn_base z" "\<forall>b \<in> set (xs @ ys). bsz z' b = bsz z b"
    using x ne r new by (simp_all add: f(4,6)) (auto simp: fq ring_def)
qed

lemma merge_shape:
  assumes s: "zone_shape z (xs @ a # b # ys) e"
  defines "z' \<equiv> merge a b z"
  shows "zone_shape z' (xs @ a # ys) e" "btag z' = btag z" "a \<noteq> b"
    "\<forall>c \<in> set (xs @ ys). bsz z' c = bsz z c" "zn_base z' = zn_base z"
    "bnext z' a = bnext z b"
proof -
  let ?p = "unat (zn_base z) + 32"
  have r: "ring (bnext z) (bprev z) (blocklist z) (xs @ a # b # ys)" and t: "tiles (bsz z) ?p (xs @ a # b # ys) e"
    and e: "e < 2 ^ 32"
    using s by (simp_all add: zone_shape_def)
  show ne: "a \<noteq> b"
    using r by (auto simp: ring_def)
  note f = merge_fields [OF ne, of z, folded z'_def]
  note fp = f(4,5) [THEN fun_cong] and fq = f(1,3) [THEN fun_cong]
  have dist: "distinct (xs @ a # b # ys)" "blocklist z \<notin> set (xs @ a # b # ys)"
    using r by (auto simp: ring_def)
  have prv: "bprev z b = a"
    using ring_at [of "bnext z" "bprev z" "blocklist z" "xs @ [a]" b ys] r by simp
  have "ring (bnext z') (bprev z') (blocklist z') (xs @ a # ys)"
    using ring_remove [OF r, of b] dist by (auto simp: f prv remove1_append simp del: fun_upd_apply)
  moreover obtain q where q: "tiles (bsz z) ?p xs q" "unat a = q" "unat b = q + unat (bsz z a)"
    "tiles (bsz z) (q + (unat (bsz z a) + unat (bsz z b))) ys e" "24 \<le> unat (bsz z a)" "24 \<le> unat (bsz z b)"
    using t by (auto simp: tiles_append add.assoc)
  moreover have sum: "unat (bsz z a + bsz z b) = unat (bsz z a) + unat (bsz z b)"
    using q e tiles_bounds [OF q(4)] by (intro unat_u32_add) simp
  ultimately show "zone_shape z' (xs @ a # ys) e"
    using s dist by (auto simp: zone_shape_def f fp tiles_append)
  show "btag z' = btag z" "\<forall>c \<in> set (xs @ ys). bsz z' c = bsz z c" "zn_base z' = zn_base z" "bnext z' a = bnext z b"
    using dist by (simp_all add: f(4,6)) (auto simp: fq)
qed


lemma mark_shape:
  fixes t :: u32
  assumes s: "zone_shape z as e" and a: "a \<in> set as"
  defines "z' \<equiv> upd_blk a (\<lambda>k. k\<lparr>mb_tag := t\<rparr>) z"
  shows "zone_shape z' as e"
proof -
  note f = mark_fields [of z' z a t, OF z'_def [THEN meta_eq_to_obj_eq]]
  note fp = f(4,5) [THEN fun_cong]
  have "blocklist z \<noteq> a"
    using s a by (auto simp: zone_shape_def ring_def)
  then show ?thesis
    using s by (simp add: zone_shape_def f fp)
qed

definition allocated :: "zone \<Rightarrow> addr list \<Rightarrow> (addr \<times> u32) set" where
  "allocated z as = {(a, s). a \<in> set as \<and> btag z a \<noteq> 0 \<and> s = bsz z a}"

lemma fragment_size:
  assumes "sint MINFRAGMENT < sint (w :: u32)"
  shows "64 < unat w"
proof (rule ccontr)
  assume "\<not> 64 < unat w"
  then have "unat w \<le> 64" by simp
  then have "sint w = int (unat w)" by (intro sint_u32_small) simp
  moreover have "sint MINFRAGMENT = 64" by (simp add: MINFRAGMENT_def)
  ultimately show False using assms \<open>unat w \<le> 64\<close> by linarith
qed

text \<open>Only the header of the block, the rover and the marker change when a block is handed out.\<close>

lemma take_block_fields:
  assumes "z1 = (if sint (bsz z a - n) > sint MINFRAGMENT then split_block a n (bsz z a - n) z else z)"
    and "z' = take_block a n t z"
  shows "bnext z' = bnext z1" "bprev z' = bprev z1" "bsz z' = bsz z1" "btag z' = (btag z1)(a := t)"
    "bid z' = (bid z1)(a := ZONEID)" "zn_base z' = zn_base z1" "zn_rover z' = bnext z1 a" "blocklist z' = blocklist z1"
    "zn_mem z' = fill_bytes (a + bsz z1 a - 4) (bytes32 ZONEID) (zn_mem z1)"
  using assms by (auto simp: take_block_def Let_def fun_eq_iff blocklist_def)

lemma take_block_inv:
  assumes inv: "zone_inv z (xs @ a # ys) e" and free: "btag z a = 0" and n: "n \<le> bsz z a" "28 \<le> unat n"
    and t: "t \<noteq> 0"
  defines "z' \<equiv> take_block a n t z"
  shows "\<exists>as'. zone_inv z' as' e \<and> a \<in> set as' \<and> btag z' a = t \<and> n \<le> bsz z' a \<and> bsz z' a \<le> bsz z a \<and>
    allocated z' as' = insert (a, bsz z' a) (allocated z (xs @ a # ys)) \<and> zn_base z' = zn_base z \<and>
    zn_mem z' = fill_bytes (a + bsz z' a - 4) (bytes32 ZONEID) (zn_mem z)"
proof -
  let ?as = "xs @ a # ys"
  define z1 where "z1 = (if sint (bsz z a - n) > sint MINFRAGMENT then split_block a n (bsz z a - n) z else z)"
  note f = take_block_fields [OF z1_def z'_def [THEN meta_eq_to_obj_eq]]
  note fp = f(4,5) [THEN fun_cong] and fq = f(1,3) [THEN fun_cong]
  have s: "zone_shape z ?as e" and c: "coalesced z ?as"
    using inv by (simp_all add: zone_inv_def)
  have d: "distinct ?as" "blocklist z \<notin> set ?as"
    using s by (auto simp: zone_shape_def ring_def)
  have finish: "zone_shape z' as' e" if "zone_shape z1 as' e" "a \<in> set as'" for as'
  proof -
    have r: "ring (bnext z1) (bprev z1) (blocklist z1) as'"
      using that by (simp add: zone_shape_def)
    have "bnext z1 a \<in> set (blocklist z1 # as')" "blocklist z1 \<noteq> a"
      using ring_neighbours [OF r, of a] that r by (auto simp: ring_def)
    then show ?thesis
      using that by (auto simp: zone_shape_def f fp)
  qed
  show ?thesis
  proof (cases "sint (bsz z a - n) > sint MINFRAGMENT")
    case False
    then have z1: "z1 = z"
      by (simp add: z1_def)
    have "coalesced z' ?as"
      using c by (rule coalesced_weaken) (simp add: fp z1 t)
    then have "zone_inv z' ?as e"
      using finish [of ?as] s by (simp add: zone_inv_def z1)
    then show ?thesis
      using n t free d by (intro exI [of _ ?as]) (auto simp: f fp fq z1 allocated_def split: if_splits)
  next
    case True
    then have z1: "z1 = split_block a n (bsz z a - n) z"
      by (simp add: z1_def)
    have "unat (bsz z a - n) = unat (bsz z a) - unat n"
      using n(1) by (simp add: unat_sub word_le_nat_alt)
    then have "unat n + 24 \<le> unat (bsz z a)"
      using fragment_size [OF True] by simp
    then have ss: "zone_shape z1 (xs @ a # (a + n) # ys) e" "a + n \<notin> set (blocklist z # ?as)"
      "bsz z1 a = n" "btag z1 = (btag z)(a + n := 0)" "\<forall>b \<in> set (xs @ ys). bsz z1 b = bsz z b" "zn_base z1 = zn_base z"
      using split_shape [OF s _ , of n] n(2) by (simp_all add: z1)
    note sp = ss(4) [THEN fun_cong]
    have m: "zn_mem z1 = zn_mem z"
      by (simp add: z1 split_block_def Let_def)
    have "coalesced z (xs @ [a])" "coalesced z (a # ys)"
      using c by (simp_all add: coalesced_append [of z xs a ys])
    have "coalesced z' (xs @ [a])"
      using \<open>coalesced z (xs @ [a])\<close> ss(2) t by (elim coalesced_weaken) (auto simp: fp sp)
    moreover have "coalesced z' ((a + n) # ys)"
      using \<open>coalesced z (a # ys)\<close> ss(2) d free by (cases ys) (auto simp: fp sp split: if_splits elim!: coalesced_weaken)
    ultimately have "coalesced z' (xs @ a # (a + n) # ys)"
      using t ss(2) by (subst coalesced_append) (simp add: fp sp)
    then have "zone_inv z' (xs @ a # (a + n) # ys) e"
      using finish ss(1) by (simp add: zone_inv_def)
    then show ?thesis
      using n t free d ss(2,3,5,6) m
      by (intro exI [of _ "xs @ a # (a + n) # ys"]) (auto simp: f fp fq sp allocated_def split: if_splits)
  qed
qed

section \<open>Allocating\<close>

lemma scan_result:
  assumes inv: "zone_inv z as e"
  shows "\<exists>res. zone_scan z n (bprev z (zn_rover z)) (zn_rover z) (zn_rover z) = Some res \<and>
    (case res of None \<Rightarrow> \<forall>a \<in> set as. \<not> fits z n a | Some a \<Rightarrow> a \<in> set as \<and> fits z n a)"
proof -
  let ?h = "blocklist z" and ?r = "zn_rover z"
  have s: "zone_shape z as e" and h: "btag z ?h \<noteq> 0"
    using inv by (simp_all add: zone_inv_def zone_shape_def)
  then have r: "ring (bnext z) (bprev z) ?h as" and rov: "?r \<in> set (?h # as)" and ne: "as \<noteq> []"
    by (simp_all add: zone_shape_def)
  obtain cs where cs: "ring (bnext z) (bprev z) ?r cs" "set (?r # cs) = set (?h # as)" "length cs = length as"
    using ring_rotate [OF r rov] by metis
  have "chain (bnext z) (bprev z) ((?r # cs) @ [?r])"
    using cs(1) by (simp add: ring_def)
  then have "chain (bnext z) (bprev z) (?r # cs)"
    by (rule chain_left)
  moreover have "distinct (?r # cs)" "bprev z ?r = last (?r # cs)" "cs \<noteq> []"
    using cs(1,3) ring_last [OF cs(1)] ne by (auto simp: ring_def)
  moreover have "\<forall>x \<in> set (?r # cs). btag z x = 0 \<longrightarrow> btag z (bnext z x) \<noteq> 0"
    using zone_next_tagged [OF inv] unfolding cs(2) by blast
  ultimately obtain res where res: "zone_scan z n (bprev z ?r) ?r ?r = Some res"
      "case res of None \<Rightarrow> \<forall>a \<in> set (?r # cs). \<not> fits z n a | Some a \<Rightarrow> a \<in> set (?r # cs) \<and> fits z n a"
    using zone_scan_chain [of z ?r cs "bprev z ?r" ?r n] by (auto split: option.splits)
  have "\<not> fits z n ?h"
    using h by (simp add: fits_def)
  then show ?thesis
    using res unfolding cs(2) by (intro exI [of _ res]) (auto split: option.splits)
qed

lemma tag_malloc_result:
  assumes inv: "zone_inv z as e" and n: "unat n + 35 < 2 ^ 32" and t: "t \<noteq> 0"
  shows "\<exists>z' p. Z_TagMalloc z n t = Some (Inr (z', p)) \<and>
    (if p = 0 then z' = z \<and> (\<forall>a \<in> set as. \<not> fits z (block_size n) a)
     else \<exists>as' a. p = a + 24 \<and> zone_inv z' as' e \<and> a \<in> set as' \<and> btag z' a = t \<and> block_size n \<le> bsz z' a \<and>
       a \<in> set as \<and> btag z a = 0 \<and> bsz z' a \<le> bsz z a \<and>
       allocated z' as' = insert (a, bsz z' a) (allocated z as) \<and> zn_base z' = zn_base z \<and>
       zn_mem z' = fill_bytes (a + bsz z' a - 4) (bytes32 ZONEID) (zn_mem z))"
proof -
  let ?n = "block_size n"
  obtain res where res: "zone_scan z ?n (bprev z (zn_rover z)) (zn_rover z) (zn_rover z) = Some res"
    "case res of None \<Rightarrow> \<forall>a \<in> set as. \<not> fits z ?n a | Some a \<Rightarrow> a \<in> set as \<and> fits z ?n a"
    using scan_result [OF inv] by blast
  show ?thesis
  proof (cases res)
    case None
    then show ?thesis
      using res t by (simp add: Z_TagMalloc_def)
  next
    case (Some a)
    then have a: "a \<in> set as" "btag z a = 0" "?n \<le> bsz z a"
      using res by (auto simp: fits_def)
    then obtain xs ys where as: "as = xs @ a # ys"
      by (auto simp: in_set_conv_decomp)
    have "28 \<le> unat ?n"
      using block_size_bounds [OF n] by simp
    then obtain as' where as': "zone_inv (take_block a ?n t z) as' e" "a \<in> set as'"
      "btag (take_block a ?n t z) a = t" "?n \<le> bsz (take_block a ?n t z) a" "bsz (take_block a ?n t z) a \<le> bsz z a"
      "allocated (take_block a ?n t z) as' = insert (a, bsz (take_block a ?n t z) a) (allocated z as)"
      "zn_base (take_block a ?n t z) = zn_base z"
      "zn_mem (take_block a ?n t z) = fill_bytes (a + bsz (take_block a ?n t z) a - 4) (bytes32 ZONEID) (zn_mem z)"
      using take_block_inv [of z xs a ys e ?n t] inv a t unfolding as by auto
    have "unat a + unat (bsz z a) \<le> e" "e < 2 ^ 32" "24 \<le> unat (bsz z a)"
      using inv a(1) tiles_bounds [of "bsz z" _ as e] by (auto simp: zone_inv_def zone_shape_def)
    then have "unat (a + 24) = unat a + 24"
      by (subst unat_u32_add) simp_all
    then have "a + 24 \<noteq> 0"
      by (metis add_is_0 unat_0 zero_neq_numeral)
    then show ?thesis
      using res as' a t Some
      by (intro exI [of _ "take_block a ?n t z"] exI [of _ "a + 24"])
        (auto simp: Z_TagMalloc_def SIZEOF_MEMBLOCK_def)
  qed
qed

section \<open>Freeing\<close>

text \<open>
  The two steps around the freed block \<open>a\<close>: the previous block absorbs it when it is free, and the
  result absorbs the next block when that is free.
\<close>

lemma free_previous:
  assumes sh: "zone_shape z (xs @ a # ys) e" and t: "btag z a = 0" and co: "coalesced z xs"
  defines "p \<equiv> bprev z a"
  defines "z' \<equiv> (if btag z p = 0 then merge p a z else z)" and "b \<equiv> (if btag z p = 0 then p else a)"
  shows "\<exists>xs'. zone_shape z' (xs' @ b # ys) e \<and> coalesced z' (xs' @ [b]) \<and> btag z' = btag z \<and> btag z b = 0 \<and>
    bnext z' b = hd (ys @ [blocklist z]) \<and> blocklist z' = blocklist z \<and> set (xs' @ [b]) \<subseteq> set (xs @ [a]) \<and>
    (\<forall>c \<in> set xs. btag z c \<noteq> 0 \<longrightarrow> c \<in> set xs') \<and> (\<forall>c \<in> set (xs' @ ys). bsz z' c = bsz z c) \<and>
    zn_base z' = zn_base z \<and> zn_mem z' = zn_mem z"
proof -
  have r: "ring (bnext z) (bprev z) (blocklist z) (xs @ a # ys)" and h: "btag z (blocklist z) \<noteq> 0"
    using sh by (simp_all add: zone_shape_def)
  have p: "p = last (blocklist z # xs)" and nx: "bnext z a = hd (ys @ [blocklist z])"
    using ring_at [OF r] by (simp_all add: p_def)
  show ?thesis
  proof (cases "btag z p = 0")
    case True
    then obtain xs' where xs: "xs = xs' @ [p]"
      using h p by (cases xs rule: rev_cases) auto
    have sh': "zone_shape z (xs' @ p # a # ys) e"
      using sh by (simp add: xs)
    note m = merge_shape [OF sh']
    note mp = m(2) [THEN fun_cong]
    have "coalesced (merge p a z) (xs' @ [p])"
      using co by (simp add: xs coalesced_cong [of _ "merge p a z" z] mp)
    moreover have "zn_mem (merge p a z) = zn_mem z" "blocklist (merge p a z) = blocklist z"
      using merge_fields [OF m(3)] by simp_all
    moreover have z': "z' = merge p a z" "b = p"
      using True by (simp_all add: z'_def b_def)
    ultimately show ?thesis
      unfolding z' using True m(1,2,4,5,6) nx by (intro exI [of _ xs'] conjI) (simp_all add: xs subset_iff)
  next
    case False
    have "coalesced z (xs @ [a])"
      using co False p by (cases xs rule: rev_cases) (auto simp: coalesced_append [of z _ _ "[a]"])
    moreover have z': "z' = z" "b = a"
      using False by (simp_all add: z'_def b_def)
    ultimately show ?thesis
      unfolding z' using sh nx t by (intro exI [of _ xs] conjI) simp_all
  qed
qed

lemma free_next:
  assumes sh: "zone_shape z (xs @ b # ys) e" and t: "btag z b = 0" and co: "coalesced z (xs @ [b])" "coalesced z ys"
    and nx: "bnext z b = hd (ys @ [blocklist z])"
  defines "z' \<equiv> (if btag z (bnext z b) = 0 then merge b (bnext z b) z else z)"
  shows "\<exists>ys'. zone_inv z' (xs @ b # ys') e \<and> btag z' = btag z \<and> set ys' \<subseteq> set ys \<and>
    (\<forall>c \<in> set ys. btag z c \<noteq> 0 \<longrightarrow> c \<in> set ys') \<and> (\<forall>c \<in> set (xs @ ys'). bsz z' c = bsz z c) \<and>
    zn_base z' = zn_base z \<and> zn_mem z' = zn_mem z"
proof -
  have h: "btag z (blocklist z) \<noteq> 0"
    using sh by (simp add: zone_shape_def)
  show ?thesis
  proof (cases "btag z (bnext z b) = 0")
    case True
    then obtain c ys' where ys: "ys = c # ys'" and c: "bnext z b = c"
      using h nx by (cases ys) auto
    note m = merge_shape [OF sh [unfolded ys]]
    note mp = m(2) [THEN fun_cong]
    have "coalesced z (b # ys')"
      using co(2) True by (cases ys') (auto simp: ys c)
    then have "coalesced z (xs @ b # ys')"
      using co(1) coalesced_append by blast
    then have "coalesced (merge b c z) (xs @ b # ys')"
      by (simp add: coalesced_cong [of _ "merge b c z" z] mp)
    moreover have "zn_mem (merge b c z) = zn_mem z"
      using merge_fields [OF m(3)] by simp
    ultimately show ?thesis
      using True m by (intro exI [of _ ys']) (auto simp: z'_def c ys zone_inv_def)
  next
    case False
    then have "coalesced z (b # ys)"
      using co(2) nx by (cases ys) auto
    then have "coalesced z (xs @ b # ys)"
      using co(1) coalesced_append by blast
    then show ?thesis
      using False sh by (intro exI [of _ ys]) (simp add: z'_def zone_inv_def)
  qed
qed

lemma free_result:
  assumes inv: "zone_inv z as e" and a: "(a, s) \<in> allocated z as"
  shows "\<exists>z' as'. Z_Free z (a + 24) = Inr z' \<and> zone_inv z' as' e \<and>
    allocated z' as' = allocated z as - {(a, s)} \<and> zn_base z' = zn_base z \<and> zn_mem z' = zn_mem z"
proof -
  obtain xs ys where as: "as = xs @ a # ys" and t: "btag z a \<noteq> 0" and s: "s = bsz z a"
    using a by (auto simp: allocated_def in_set_conv_decomp)
  have sh: "zone_shape z (xs @ a # ys) e" and co: "coalesced z xs" "coalesced z ys" and id: "bid z a = ZONEID"
    using inv by (auto simp: zone_inv_def zone_shape_def as coalesced_def successively_append_iff
        successively_Cons [of _ a ys])
  define z1 where "z1 = upd_blk a (\<lambda>k. k\<lparr>mb_tag := 0\<rparr>) z"
  note f = mark_fields [OF z1_def]
  note fp = f(4) [THEN fun_cong] and fq = f(3) [THEN fun_cong]
  have sh1: "zone_shape z1 (xs @ a # ys) e"
    using mark_shape [OF sh, of a 0] by (simp add: z1_def)
  have d: "distinct (xs @ a # ys)" "blocklist z \<notin> set (xs @ a # ys)"
    using sh by (auto simp: zone_shape_def ring_def)
  have co1: "coalesced z1 xs" "coalesced z1 ys"
    using co d by (auto simp: fp elim!: coalesced_cong [THEN iffD2, rotated])
  define z2 where "z2 = (if btag z1 (bprev z1 a) = 0 then merge (bprev z1 a) a z1 else z1)"
  define b where "b = (if btag z1 (bprev z1 a) = 0 then bprev z1 a else a)"
  obtain xs' where xs': "zone_shape z2 (xs' @ b # ys) e" "coalesced z2 (xs' @ [b])" "btag z2 = btag z1" "btag z1 b = 0"
    "bnext z2 b = hd (ys @ [blocklist z1])" "blocklist z2 = blocklist z1" "set (xs' @ [b]) \<subseteq> set (xs @ [a])"
    "\<forall>c \<in> set xs. btag z1 c \<noteq> 0 \<longrightarrow> c \<in> set xs'" "\<forall>c \<in> set (xs' @ ys). bsz z2 c = bsz z1 c"
    "zn_base z2 = zn_base z1" "zn_mem z2 = zn_mem z1"
    using free_previous [OF sh1 _ co1(1)] unfolding z2_def b_def by (auto simp: fp)
  note x2 = xs'(3) [THEN fun_cong]
  define z3 where "z3 = (if btag z2 (bnext z2 b) = 0 then merge b (bnext z2 b) z2 else z2)"
  have "coalesced z2 ys"
    using co1(2) by (simp add: coalesced_cong [of ys z2 z1] x2)
  then obtain ys' where ys': "zone_inv z3 (xs' @ b # ys') e" "btag z3 = btag z2" "set ys' \<subseteq> set ys"
    "\<forall>c \<in> set ys. btag z2 c \<noteq> 0 \<longrightarrow> c \<in> set ys'" "\<forall>c \<in> set (xs' @ ys'). bsz z3 c = bsz z2 c"
    "zn_base z3 = zn_base z2" "zn_mem z3 = zn_mem z2"
    using free_next [OF xs'(1) _ xs'(2)] xs'(4,5,6) unfolding z3_def by (auto simp: x2)
  note x3 = ys'(2) [THEN fun_cong]
  have "ptr \<noteq> 0" if "ptr = a + 24" for ptr
  proof -
    have "unat a + unat (bsz z a) \<le> e" "e < 2 ^ 32" "24 \<le> unat (bsz z a)"
      using sh tiles_bounds [of "bsz z" _ "xs @ a # ys" e] by (auto simp: zone_shape_def)
    then have "unat (a + 24) = unat a + 24"
      by (subst unat_u32_add) simp_all
    then show ?thesis
      using that by (metis add_is_0 unat_0 zero_neq_numeral)
  qed
  then have "Z_Free z (a + 24) = Inr z3"
    using t id by (simp add: Z_Free_def SIZEOF_MEMBLOCK_def Let_def z1_def [symmetric] z2_def b_def z3_def)
  moreover have "allocated z3 (xs' @ b # ys') = allocated z as - {(a, s)}"
  proof -
    have sizes: "bsz z3 c = bsz z c" if "c \<in> set (xs' @ ys')" for c
      using that xs'(9) ys'(3,5) by (auto simp: fq)
    show ?thesis
      using d xs'(4,7,8) ys'(3,4) sizes t
      by (auto simp: allocated_def as x3 x2 fp s split: if_splits)
  qed
  ultimately show ?thesis
    using ys'(1,6,7) xs'(10,11) by (auto simp: f)
qed

section \<open>Checking the heap\<close>

lemma check_blocks_chain:
  assumes "chain (bnext z) (bprev z) (a # rs @ [blocklist z])" and "tiles (bsz z) p (a # rs) e" and "e < 2 ^ 32"
    and "coalesced z (a # rs)" and "blocklist z \<notin> set rs"
  shows "check_blocks z a = Some (Inr ())"
  using assms
proof (induction rs arbitrary: a p)
  case Nil
  then show ?case
    by (subst check_blocks.simps) simp
next
  case (Cons b rs)
  have b: "unat b = unat a + unat (bsz z a)"
    using Cons.prems(2) by simp
  then have "unat (a + bsz z a) = unat b"
    using unat_u32_lt [of b] by (subst unat_u32_add) simp_all
  then have "a + bsz z a = b"
    by (rule word_unat_eq_iff [THEN iffD2])
  moreover have "check_blocks z b = Some (Inr ())"
    using Cons.prems by (intro Cons.IH [of b "p + unat (bsz z a)"]) auto
  moreover have "bnext z a = b" "bprev z b = a" "b \<noteq> blocklist z" "\<not> (btag z a = 0 \<and> btag z b = 0)"
    using Cons.prems(1,4,5) by auto
  ultimately show ?case
    by (subst check_blocks.simps) (simp add: Let_def)
qed

lemma check_heap:
  assumes "zone_inv z as e"
  shows "Z_CheckHeap z = Some (Inr ())"
proof -
  have r: "ring (bnext z) (bprev z) (blocklist z) as" and ne: "as \<noteq> []"
    using assms by (simp_all add: zone_inv_def zone_shape_def)
  obtain a rs where as: "as = a # rs"
    using ne by (cases as) auto
  have "chain (bnext z) (bprev z) (a # rs @ [blocklist z])" "bnext z (blocklist z) = a" "blocklist z \<notin> set rs"
    using r by (auto simp: ring_def as)
  then show ?thesis
    using assms unfolding Z_CheckHeap_def
    by (auto simp: zone_inv_def zone_shape_def as simp del: tiles.simps intro!: check_blocks_chain)
qed

lemma clear_zone_inv:
  assumes "56 \<le> unat sz" and "unat (zn_base z) + unat sz < 2 ^ 32"
  shows "zone_inv (Z_ClearZone z sz) [zn_base z + 32] (unat (zn_base z) + unat sz) \<and>
    allocated (Z_ClearZone z sz) [zn_base z + 32] = {}"
proof -
  have b: "unat (zn_base z + 32) = unat (zn_base z) + 32" "unat (zn_base z + 4) = unat (zn_base z) + 4"
    "unat (sz - 32) = unat sz - 32"
    using assms by (simp_all add: unat_u32_add unat_sub word_le_nat_alt)
  then have ne: "zn_base z + 32 \<noteq> zn_base z + 4"
    by (metis add_left_cancel numeral_eq_iff semiring_norm(85) semiring_norm(87) semiring_norm(89))
  show ?thesis
    using assms b ne
    by (auto simp: zone_inv_def zone_shape_def Z_ClearZone_def Let_def blocklist_def SIZEOF_MEMZONE_def ring_def
        allocated_def)
qed

section \<open>Properties\<close>

lemma malloc_result:
  assumes inv: "zone_inv z as e" and n: "unat n + 35 < 2 ^ 32"
  shows "\<exists>r. Z_Malloc z n = Some r \<and>
    (case r of Inl err \<Rightarrow> err = SysError \<and> (\<forall>a \<in> set as. \<not> fits z (block_size n) a)
     | Inr (z', p) \<Rightarrow> \<exists>as' a. p = a + 24 \<and> a \<in> set as \<and> btag z a = 0 \<and> zone_inv z' as' e \<and>
         unat n + 28 \<le> unat (bsz z' a) \<and> bsz z' a \<le> bsz z a \<and>
         allocated z' as' = insert (a, bsz z' a) (allocated z as) \<and> zn_base z' = zn_base z \<and>
         zn_mem z' = fill_bytes p (replicate (unat n) 0) (fill_bytes (a + bsz z' a - 4) (bytes32 ZONEID) (zn_mem z)))"
proof -
  obtain z' p where m: "Z_TagMalloc z n 1 = Some (Inr (z', p))" and c:
    "if p = 0 then z' = z \<and> (\<forall>a \<in> set as. \<not> fits z (block_size n) a)
     else \<exists>as' a. p = a + 24 \<and> zone_inv z' as' e \<and> a \<in> set as' \<and> btag z' a = 1 \<and> block_size n \<le> bsz z' a \<and>
       a \<in> set as \<and> btag z a = 0 \<and> bsz z' a \<le> bsz z a \<and>
       allocated z' as' = insert (a, bsz z' a) (allocated z as) \<and> zn_base z' = zn_base z \<and>
       zn_mem z' = fill_bytes (a + bsz z' a - 4) (bytes32 ZONEID) (zn_mem z)"
    using tag_malloc_result [OF inv n, of 1] by auto
  show ?thesis
  proof (cases "p = 0")
    case True
    then show ?thesis
      using m c check_heap [OF inv] by (simp add: Z_Malloc_def)
  next
    case False
    let ?z = "z'\<lparr>zn_mem := fill_bytes p (replicate (unat n) 0) (zn_mem z')\<rparr>"
    obtain as' a where a: "p = a + 24" "zone_inv z' as' e" "block_size n \<le> bsz z' a"
       "a \<in> set as" "btag z a = 0" "bsz z' a \<le> bsz z a"
       "allocated z' as' = insert (a, bsz z' a) (allocated z as)" "zn_base z' = zn_base z"
       "zn_mem z' = fill_bytes (a + bsz z' a - 4) (bytes32 ZONEID) (zn_mem z)"
      using c False by auto
    have "zone_inv ?z as' e" "allocated ?z as' = allocated z' as'"
      using a(2) by (simp_all add: zone_inv_def zone_shape_def blocklist_def coalesced_def allocated_def)
    moreover have "unat n + 28 \<le> unat (bsz z' a)"
      using block_size_bounds [OF n] a(3) by (simp add: word_le_nat_alt)
    moreover have "Z_Malloc z n = Some (Inr (?z, p))"
      using m False check_heap [OF inv] by (simp add: Z_Malloc_def)
    ultimately show ?thesis
      using a by (intro exI [of _ "Inr (?z, p)"]) auto
  qed
qed

text \<open>
  A session of the engine with its zone: the zone is cleared, then blocks are requested and handed-out
  pointers (the list \<open>ps\<close>) are given back, in any order. Requests within 35 bytes of the largest word
  are excluded, see below.
\<close>

inductive zone_session :: "addr \<Rightarrow> u32 \<Rightarrow> zone \<Rightarrow> addr list \<Rightarrow> bool" for base :: addr and sz :: u32 where
  start: "zn_base z = base \<Longrightarrow> zone_session base sz (Z_ClearZone z sz) []"
| malloc: "zone_session base sz z ps \<Longrightarrow> unat n + 35 < 2 ^ 32 \<Longrightarrow> Z_Malloc z n = Some (Inr (z', p)) \<Longrightarrow>
    zone_session base sz z' (p # ps)"
| free: "zone_session base sz z ps \<Longrightarrow> p \<in> set ps \<Longrightarrow> Z_Free z p = Inr z' \<Longrightarrow>
    zone_session base sz z' (remove1 p ps)"

definition session_inv :: "addr \<Rightarrow> u32 \<Rightarrow> zone \<Rightarrow> addr list \<Rightarrow> addr list \<Rightarrow> bool" where
  "session_inv base sz z ps as \<longleftrightarrow> zn_base z = base \<and> zone_inv z as (unat base + unat sz) \<and> distinct ps \<and>
     set ps = (\<lambda>(a, s). a + 24) ` allocated z as"

lemma allocated_iff: "(a, s) \<in> allocated z as \<longleftrightarrow> a \<in> set as \<and> btag z a \<noteq> 0 \<and> s = bsz z a"
  by (auto simp: allocated_def)

lemma session_live: "session_inv base sz z ps as \<Longrightarrow> p \<in> set ps \<longleftrightarrow> (p - 24, bsz z (p - 24)) \<in> allocated z as"
  by (force simp: session_inv_def allocated_def image_iff)

lemma session_inv_reached:
  assumes "zone_session base sz z ps" and "56 \<le> unat sz" and "unat base + unat sz < 2 ^ 32"
  shows "\<exists>as. session_inv base sz z ps as"
  using assms(1)
proof (induction rule: zone_session.induct)
  case (start z)
  have "zn_base (Z_ClearZone z sz) = base"
    using start by (simp add: Z_ClearZone_def Let_def)
  then show ?case
    using clear_zone_inv [of sz z] start assms(2,3) unfolding session_inv_def by auto
next
  case (malloc z ps n z' p)
  then obtain as where as: "session_inv base sz z ps as"
    by blast
  then have inv: "zone_inv z as (unat base + unat sz)"
    by (simp add: session_inv_def)
  obtain as' a where a: "p = a + 24" "a \<in> set as" "btag z a = 0" "zone_inv z' as' (unat base + unat sz)"
    "allocated z' as' = insert (a, bsz z' a) (allocated z as)" "zn_base z' = zn_base z"
    using malloc_result [OF inv malloc(2)] malloc(3) by auto
  have "p \<notin> set ps"
    unfolding session_live [OF as] using a by (simp add: allocated_iff)
  then show ?case
    using as a by (intro exI [of _ as']) (auto simp: session_inv_def)
next
  case (free z ps p z')
  then obtain as where as: "session_inv base sz z ps as"
    by blast
  then have inv: "zone_inv z as (unat base + unat sz)"
    by (simp add: session_inv_def)
  have live: "(p - 24, bsz z (p - 24)) \<in> allocated z as"
    using free(2) session_live [OF as] by simp
  obtain as' where a: "zone_inv z' as' (unat base + unat sz)"
    "allocated z' as' = allocated z as - {(p - 24, bsz z (p - 24))}" "zn_base z' = zn_base z"
    using free_result [OF inv live] free(3) by auto
  have "set (remove1 p ps) = set ps - {p}"
    using as by (simp add: session_inv_def)
  also have "\<dots> = (\<lambda>(a, s). a + 24) ` allocated z' as'"
    using as unfolding a(2) session_inv_def by (auto simp: allocated_def image_iff)
  finally show ?case
    using as a by (intro exI [of _ as']) (simp add: session_inv_def)
qed

text \<open>
  C18. The zone stays consistent: in every state of every session of requests and releases, on any
  zone that fits the address space, the heap check returns without an error, the live pointers are
  distinct, each live block (its header of 24 bytes and its payload) lies inside the zone after the
  zone's own header, and no two live blocks overlap.
\<close>

theorem zone_sessions_consistent:
  assumes "zone_session base sz z ps" and "56 \<le> unat sz" and "unat base + unat sz < 2 ^ 32"
  shows "Z_CheckHeap z = Some (Inr ()) \<and> distinct ps \<and>
    (\<forall>p \<in> set ps. unat base + 32 + 24 \<le> unat p \<and> unat p + unat (bsz z (p - 24)) \<le> unat base + unat sz + 24) \<and>
    (\<forall>p \<in> set ps. \<forall>q \<in> set ps. p \<noteq> q \<longrightarrow>
       unat p + unat (bsz z (p - 24)) \<le> unat q \<or> unat q + unat (bsz z (q - 24)) \<le> unat p)"
proof -
  obtain as where as: "session_inv base sz z ps as"
    using session_inv_reached [OF assms] by blast
  then have inv: "zone_inv z as (unat base + unat sz)" and b: "zn_base z = base" and d: "distinct ps"
    by (simp_all add: session_inv_def)
  have t: "tiles (bsz z) (unat base + 32) as (unat base + unat sz)"
    using inv b by (simp add: zone_inv_def zone_shape_def)
  have live: "p - 24 \<in> set as \<and> unat p = unat (p - 24) + 24" if "p \<in> set ps" for p
  proof -
    have a: "p - 24 \<in> set as"
      using session_live [OF as] that by (simp add: allocated_iff)
    then have "unat (p - 24 + 24) = unat (p - 24) + 24"
      using tiles_bounds [OF t] assms(3) by (subst unat_u32_add) force+
    then show ?thesis
      using a by simp
  qed
  have "unat base + 32 + 24 \<le> unat p \<and> unat p + unat (bsz z (p - 24)) \<le> unat base + unat sz + 24"
    if "p \<in> set ps" for p
    using live [OF that] tiles_bounds [OF t] by fastforce
  moreover have "unat p + unat (bsz z (p - 24)) \<le> unat q \<or> unat q + unat (bsz z (q - 24)) \<le> unat p"
    if "p \<in> set ps" "q \<in> set ps" "p \<noteq> q" for p q
    using live [OF that(1)] live [OF that(2)] that(3) tiles_apart [OF t, of "p - 24" "q - 24"] by fastforce
  ultimately show ?thesis
    using check_heap [OF inv] d by blast
qed

text \<open>A concrete session: a zone of 4096 bytes at address 0x1000, from which 100 bytes are taken.\<close>

definition blank_zone :: zone where
  "blank_zone = \<lparr>zn_base = 0x1000, zn_blk = (\<lambda>_. \<lparr>mb_size = 0, mb_tag = 0, mb_id = 0, mb_next = 0, mb_prev = 0\<rparr>),
     zn_rover = 0, zn_mem = (\<lambda>_. 0)\<rparr>"

lemma blank_session:
  "\<exists>z. Z_Malloc (Z_ClearZone blank_zone 4096) 100 = Some (Inr (z, 0x1038)) \<and> zone_session 0x1000 4096 z [0x1038]"
proof -
  let ?z = "Z_ClearZone blank_zone 4096"
  have b: "zn_base blank_zone = 0x1000"
    by (simp add: blank_zone_def)
  have inv: "zone_inv ?z [0x1020] 8192"
    using clear_zone_inv [of 4096 blank_zone] by (simp add: b)
  have s: "zone_session 0x1000 4096 ?z []"
    using b by (rule zone_session.start)
  have fit: "fits ?z (block_size 100) 0x1020"
    by (simp add: fits_def Z_ClearZone_def Let_def b SIZEOF_MEMZONE_def blocklist_def block_size_def SIZEOF_MEMBLOCK_def)
  obtain r where r: "Z_Malloc ?z 100 = Some r" and c:
    "case r of Inl err \<Rightarrow> err = SysError \<and> (\<forall>a \<in> set [0x1020]. \<not> fits ?z (block_size 100) a)
     | Inr (z', p) \<Rightarrow> \<exists>as' a. p = a + 24 \<and> a \<in> set [0x1020] \<and> btag ?z a = 0 \<and> zone_inv z' as' 8192 \<and>
         unat (100 :: u32) + 28 \<le> unat (bsz z' a) \<and> bsz z' a \<le> bsz ?z a \<and>
         allocated z' as' = insert (a, bsz z' a) (allocated ?z [0x1020]) \<and> zn_base z' = zn_base ?z \<and>
         zn_mem z' = fill_bytes p (replicate (unat (100 :: u32)) 0)
           (fill_bytes (a + bsz z' a - 4) (bytes32 ZONEID) (zn_mem ?z))"
    using malloc_result [OF inv, of 100] by auto
  obtain z p where "r = Inr (z, p)"
    using c fit by (cases r) auto
  then have p: "p = 0x1038" and m: "Z_Malloc ?z 100 = Some (Inr (z, p))"
    using c r by auto
  have "zone_session 0x1000 4096 z [p]"
    using zone_session.malloc [OF s _ m] by simp
  then show ?thesis
    using m unfolding p by blast
qed

theorem zone_sessions_consistent_witness:
  "\<exists>z. zone_session 0x1000 4096 z [0x1038] \<and> Z_CheckHeap z = Some (Inr ())"
  using blank_session zone_sessions_consistent [of "0x1000" 4096 _ "[0x1038]"] by auto

text \<open>
  C19. The allocator makes progress in every state a session reaches: a request always returns, either
  with a block or with the error, and the error is raised only when no free block is large enough
  (the scan from the rover misses none); every live pointer can be released.
\<close>

theorem zone_progress:
  assumes "zone_session base sz z ps" and "56 \<le> unat sz" and "unat base + unat sz < 2 ^ 32"
    and "unat n + 35 < 2 ^ 32"
  shows "(\<exists>z' p. Z_Malloc z n = Some (Inr (z', p)) \<and> p \<notin> set ps) \<and> (\<forall>p \<in> set ps. \<exists>z'. Z_Free z p = Inr z') \<or>
    Z_Malloc z n = Some (Inl SysError) \<and> (\<forall>p \<in> set ps. \<exists>z'. Z_Free z p = Inr z') \<and>
    (\<exists>as. zone_inv z as (unat base + unat sz) \<and> (\<forall>a \<in> set as. btag z a = 0 \<longrightarrow> bsz z a < block_size n))"
proof -
  obtain as where as: "session_inv base sz z ps as"
    using session_inv_reached [OF assms(1-3)] by blast
  then have inv: "zone_inv z as (unat base + unat sz)"
    by (simp add: session_inv_def)
  have free: "\<forall>p \<in> set ps. \<exists>z'. Z_Free z p = Inr z'"
    using free_result [OF inv] session_live [OF as] by (metis diff_add_cancel)
  obtain r where r: "Z_Malloc z n = Some r" and c:
    "case r of Inl err \<Rightarrow> err = SysError \<and> (\<forall>a \<in> set as. \<not> fits z (block_size n) a)
     | Inr (z', p) \<Rightarrow> \<exists>a. p = a + 24 \<and> btag z a = 0"
    using malloc_result [OF inv assms(4)] by (fastforce split: sum.splits prod.splits)
  show ?thesis
  proof (cases r)
    case (Inl err)
    then show ?thesis
      using r c free inv by (auto simp: fits_def not_le)
  next
    case (Inr zp)
    then show ?thesis
      using r c free session_live [OF as] by (cases zp) (auto simp: allocated_iff)
  qed
qed

theorem zone_progress_witness:
  "\<exists>z. zone_session 0x1000 4096 z [0x1038] \<and>
    ((\<exists>z' p. Z_Malloc z 8 = Some (Inr (z', p))) \<or> Z_Malloc z 8 = Some (Inl SysError)) \<and> (\<exists>z'. Z_Free z 0x1038 = Inr z')"
proof -
  obtain z where z: "zone_session 0x1000 4096 z [0x1038]"
    using blank_session by blast
  then show ?thesis
    using zone_progress [OF z, of 8] by (intro exI [of _ z]) auto
qed

text \<open>
  \<^verbatim>\<open>Z_Malloc\<close>, when it succeeds on a consistent zone, hands out a block that was free: it is large
  enough for the request, its header and the trash marker, its first \<open>n\<close> payload bytes read zero, the
  marker is intact, and no byte outside the payload of the block is written; the live blocks are the
  ones before and the new one.
\<close>

theorem Z_Malloc_result:
  assumes "zone_inv z as e" and "unat n + 35 < 2 ^ 32" and "Z_Malloc z n = Some (Inr (z', p))"
  shows "\<exists>as' a. p = a + 24 \<and> a \<in> set as \<and> btag z a = 0 \<and> zone_inv z' as' e \<and>
    unat n + 28 \<le> unat (bsz z' a) \<and> allocated z' as' = insert (a, bsz z' a) (allocated z as) \<and>
    (\<forall>i < unat n. zn_mem z' (p + of_nat i) = 0) \<and>
    map (\<lambda>i. zn_mem z' (a + bsz z' a - 4 + of_nat i)) [0..<4] = bytes32 ZONEID \<and>
    (\<forall>x. zn_mem z' x \<noteq> zn_mem z x \<longrightarrow> unat a + 24 \<le> unat x \<and> unat x < unat a + unat (bsz z' a))"
proof -
  obtain as' a where a: "p = a + 24" "a \<in> set as" "btag z a = 0" "zone_inv z' as' e"
    "unat n + 28 \<le> unat (bsz z' a)" "bsz z' a \<le> bsz z a" "allocated z' as' = insert (a, bsz z' a) (allocated z as)"
    "zn_mem z' = fill_bytes p (replicate (unat n) 0) (fill_bytes (a + bsz z' a - 4) (bytes32 ZONEID) (zn_mem z))"
    using malloc_result [OF assms(1,2)] assms(3) by auto
  let ?s = "bsz z' a"
  have "unat a + unat (bsz z a) \<le> e" "e < 2 ^ 32"
    using assms(1) a(2) tiles_bounds [of "bsz z" _ as e] by (auto simp: zone_inv_def zone_shape_def)
  then have room: "unat a + unat ?s < 2 ^ 32"
    using a(6) by (simp add: word_le_nat_alt)
  have p: "unat p = unat a + 24"
    unfolding a(1) using room a(5) by (subst unat_u32_add) simp_all
  have mark: "unat (a + ?s - 4) = unat a + unat ?s - 4"
    using room a(5) by (simp add: unat_sub unat_u32_add word_le_nat_alt)
  have "zn_mem z' (p + of_nat i) = 0" if "i < unat n" for i
    using that unat_u32_lt [of n] by (simp add: a(8) fill_bytes_def unat_of_nat_u32)
  moreover have "map (\<lambda>i. zn_mem z' (a + ?s - 4 + of_nat i)) [0..<4] = bytes32 ZONEID"
  proof (rule nth_equalityI)
    fix i assume "i < length (map (\<lambda>i. zn_mem z' (a + ?s - 4 + of_nat i)) [0..<4])"
    then have i: "i < 4"
      by simp
    have "unat (a + ?s - 4 + of_nat i) = unat a + unat ?s - 4 + i"
      using mark room i a(5) by (simp add: unat_u32_add unat_of_nat_u32)
    then have "unat (a + ?s - 4 + of_nat i - p) = unat ?s - 28 + i"
      using p a(5) by (simp add: unat_sub word_le_nat_alt)
    then have "\<not> unat (a + ?s - 4 + of_nat i - p) < unat n"
      using a(5) by simp
    then show "map (\<lambda>i. zn_mem z' (a + ?s - 4 + of_nat i)) [0..<4] ! i = bytes32 ZONEID ! i"
      using i by (simp add: a(8) fill_bytes_def unat_of_nat_u32)
  qed simp
  moreover have "unat a + 24 \<le> unat x \<and> unat x < unat a + unat ?s" if "zn_mem z' x \<noteq> zn_mem z x" for x
  proof -
    have "unat (x - p) < unat n \<or> unat (x - (a + ?s - 4)) < 4"
      using that by (auto simp: a(8) fill_bytes_def split: if_splits)
    moreover have "unat x = unat p + unat (x - p)" if "unat (x - p) < unat n"
      using unat_u32_add [of p "x - p"] that p room a(5) by simp
    moreover have "unat x = unat a + unat ?s - 4 + unat (x - (a + ?s - 4))" if "unat (x - (a + ?s - 4)) < 4"
      using unat_u32_add [of "a + ?s - 4" "x - (a + ?s - 4)"] that mark room a(5) by simp
    ultimately show ?thesis
      using p a(5) by linarith
  qed
  ultimately show ?thesis
    using a by (intro exI [of _ as'] exI [of _ a]) blast
qed


text \<open>
  A block released twice in a row is detected, whatever the state of the zone: the second release
  ends in the error.
\<close>

theorem double_free_detected:
  assumes "Z_Free z p = Inr z'"
  shows "Z_Free z' p = Inl SysError"
proof -
  let ?a = "p - SIZEOF_MEMBLOCK"
  have m: "btag (merge a b y) = btag y" "bid (merge a b y) = bid y" for a b y
    by (simp_all add: merge_def Let_def fun_eq_iff)
  note mp = m [THEN fun_cong]
  define z1 where "z1 = upd_blk ?a (\<lambda>k. k\<lparr>mb_tag := 0\<rparr>) z"
  have "btag z1 ?a = 0" "bid z1 ?a = bid z ?a"
    by (simp_all add: z1_def)
  moreover have "p \<noteq> 0" "bid z ?a = ZONEID" "btag z' = btag z1 \<and> bid z' = bid z1"
    using assms by (auto simp: Z_Free_def z1_def [symmetric] Let_def m split: if_split_asm simp del: fun_upd_apply)
  ultimately show ?thesis
    by (simp add: Z_Free_def Let_def fun_eq_iff)
qed

theorem double_free_detected_witness:
  "\<exists>z z'. Z_Free z 0x1038 = Inr z' \<and> Z_Free z' 0x1038 = Inl SysError"
proof -
  obtain z where "zone_session 0x1000 4096 z [0x1038]"
    using blank_session by blast
  then obtain as where as: "session_inv 0x1000 4096 z [0x1038] as"
    using session_inv_reached [of "0x1000" 4096 z "[0x1038]"] by auto
  have inv: "zone_inv z as 8192"
    using as by (simp add: session_inv_def)
  moreover have "(0x1020, bsz z 0x1020) \<in> allocated z as"
    using session_live [OF as, of "0x1038"] by simp
  ultimately obtain z' where "Z_Free z 0x1038 = Inr z'"
    using free_result by fastforce
  then show ?thesis
    using double_free_detected by blast
qed

text \<open>
  The size computation of \<^verbatim>\<open>Z_TagMalloc\<close> wraps: a request within 35 bytes of the largest word is
  rounded to fewer than 35 bytes, so that on a freshly cleared zone, which is smaller than the request,
  it succeeds and \<^verbatim>\<open>Z_Malloc\<close> goes on to clear almost the whole address space.
\<close>

theorem huge_request_succeeds:
  assumes "96 \<le> unat sz" and "unat (zn_base z) + unat sz < 2 ^ 31" and "2 ^ 32 \<le> unat n + 35"
  shows "\<exists>z' p. Z_Malloc (Z_ClearZone z sz) n = Some (Inr (z', p)) \<and> unat sz < unat n"
proof -
  let ?z = "Z_ClearZone z sz" and ?a = "zn_base z + 32" and ?e = "unat (zn_base z) + unat sz"
  have inv: "zone_inv ?z [?a] ?e"
    using clear_zone_inv [of sz z] assms by simp
  have "unat (n + 35) \<le> 34"
    using assms(3) unat_u32_lt [of n] by (simp add: unat_word_ariths le_mod_geq)
  moreover have "unat (block_size n) \<le> unat (n + 35)"
    by (simp add: block_size_def SIZEOF_MEMBLOCK_def add_ac word_and_le1 word_and_le2 flip: word_le_nat_alt)
  moreover have "bsz ?z ?a = sz - 32" "btag ?z ?a = 0"
    by (simp_all add: Z_ClearZone_def Let_def SIZEOF_MEMZONE_def blocklist_def)
  moreover have "unat (sz - 32) = unat sz - 32"
    using assms(1) by (simp add: unat_sub word_le_nat_alt)
  ultimately have "fits ?z (block_size n) ?a"
    using assms(1) unfolding fits_def word_le_nat_alt by simp
  then have "zone_scan ?z (block_size n) (bprev ?z (zn_rover ?z)) (zn_rover ?z) (zn_rover ?z) = Some (Some ?a)"
    using scan_result [OF inv, of "block_size n"] by (auto split: option.splits)
  moreover have "unat (zn_base z + 56) = unat (zn_base z) + 56"
    using assms(2) assms(1) by (subst unat_u32_add) simp_all
  then have "?a + 24 \<noteq> 0"
    by (simp add: add.assoc) (metis add_is_0 unat_0 zero_neq_numeral)
  ultimately show ?thesis
    using check_heap [OF inv] assms by (simp add: Z_Malloc_def Z_TagMalloc_def SIZEOF_MEMBLOCK_def)
qed

theorem huge_request_succeeds_witness:
  "\<exists>z' p. Z_Malloc (Z_ClearZone blank_zone 4096) 0xFFFFFFE4 = Some (Inr (z', p))"
  using huge_request_succeeds [of 4096 blank_zone "0xFFFFFFE4"] by (auto simp: blank_zone_def)

theorem Z_Malloc_result_witness:
  "\<exists>z' as'. Z_Malloc (Z_ClearZone blank_zone 4096) 100 = Some (Inr (z', 0x1038)) \<and> zone_inv z' as' 8192 \<and>
     allocated z' as' = {(0x1020, bsz z' 0x1020)}"
proof -
  have inv: "zone_inv (Z_ClearZone blank_zone 4096) [0x1020] 8192" "allocated (Z_ClearZone blank_zone 4096) [0x1020] = {}"
    using clear_zone_inv [of 4096 blank_zone] by (simp_all add: blank_zone_def)
  obtain z' where z': "Z_Malloc (Z_ClearZone blank_zone 4096) 100 = Some (Inr (z', 0x1038))"
    using blank_session by blast
  then show ?thesis
    using Z_Malloc_result [OF inv(1) _ z'] inv(2) by auto
qed

end
