(* ===== verification/NetAddr.thy ===== *)
theory NetAddr
  imports Tokens
begin

text \<open>
  The network addresses of \<^verbatim>\<open>NET.c\<close>: conversion between \<^verbatim>\<open>netadr_t\<close> and the socket addresses of the
  system, comparison, classification, printing and parsing. The four bytes of an IP address are a
  tuple in network order, the port is kept in network order as in the C structure. \<^verbatim>\<open>inet_addr\<close> and
  \<^verbatim>\<open>gethostbyname\<close> belong to the system and are parameters.
\<close>

datatype netadrtype = NA_UNUSED | NA_LOOPBACK | NA_BROADCAST | NA_IP | NA_IPX | NA_IPX_BROADCAST

type_synonym ip4 = "u8 \<times> u8 \<times> u8 \<times> u8"

record netadr =
  na_type :: netadrtype
  na_ip :: ip4
  na_ipx :: "u8 list"
  na_port :: u16

definition no_adr :: netadr where
  "no_adr = \<lparr>na_type = NA_UNUSED, na_ip = (0, 0, 0, 0), na_ipx = replicate 10 0, na_port = 0\<rparr>"

datatype family = AF_UNSPEC | AF_INET | AF_OTHER

record sockaddr =
  sa_family :: family
  sa_addr :: ip4
  sa_port :: u16

definition NetadrToSockadr :: "netadr \<Rightarrow> sockaddr outcome" where
  "NetadrToSockadr a =
     (case na_type a of
        NA_BROADCAST \<Rightarrow> Inr \<lparr>sa_family = AF_INET, sa_addr = (255, 255, 255, 255), sa_port = na_port a\<rparr>
      | NA_IP \<Rightarrow> Inr \<lparr>sa_family = AF_INET, sa_addr = na_ip a, sa_port = na_port a\<rparr>
      | _ \<Rightarrow> Inl SysError)"

definition SockadrToNetadr :: "sockaddr \<Rightarrow> netadr \<Rightarrow> netadr outcome" where
  "SockadrToNetadr s a =
     (case sa_family s of
        AF_INET \<Rightarrow> Inr (a\<lparr>na_type := NA_IP, na_ip := sa_addr s, na_port := sa_port s\<rparr>)
      | AF_UNSPEC \<Rightarrow> Inr no_adr
      | AF_OTHER \<Rightarrow> Inl SysError)"

section \<open>Printing\<close>

text \<open>\<^verbatim>\<open>%i\<close> of a non-negative number, and the byte swap of \<^verbatim>\<open>htons\<close> and \<^verbatim>\<open>ntohs\<close>.\<close>

fun dec :: "nat \<Rightarrow> u8 list" where
  "dec n = (if n < 10 then [48 + of_nat n] else dec (n div 10) @ [48 + of_nat (n mod 10)])"

declare dec.simps [simp del]

definition swap16 :: "u16 \<Rightarrow> u16" where
  "swap16 w = push_bit 8 w OR drop_bit 8 w"

definition dotted :: "ip4 \<Rightarrow> u8 list" where
  "dotted ip = (case ip of (a, b, c, d) \<Rightarrow>
     dec (unat a) @ cstr ''.'' @ dec (unat b) @ cstr ''.'' @ dec (unat c) @ cstr ''.'' @ dec (unat d))"

definition NET_AdrToString :: "netadr \<Rightarrow> u8 list" where
  "NET_AdrToString a =
     (case na_type a of
        NA_BROADCAST \<Rightarrow> dotted (na_ip a) @ cstr '':'' @ dec (unat (swap16 (na_port a)))
      | NA_IP \<Rightarrow> dotted (na_ip a) @ cstr '':'' @ dec (unat (swap16 (na_port a)))
      | NA_LOOPBACK \<Rightarrow> cstr ''loopback''
      | _ \<Rightarrow> cstr ''invalid netadr_t type'')"

definition NET_BaseAdrToString :: "netadr \<Rightarrow> u8 list outcome" where
  "NET_BaseAdrToString a =
     (case na_type a of
        NA_BROADCAST \<Rightarrow> Inr (dotted (na_ip a))
      | NA_IP \<Rightarrow> Inr (dotted (na_ip a))
      | NA_LOOPBACK \<Rightarrow> Inr (cstr ''loopback'')
      | _ \<Rightarrow> Inl SysError)"

text \<open>
  The result is the returned number and the string in the caller's buffer, cut at \<^verbatim>\<open>bufsize - 1\<close>;
  \<open>null\<close> says that the buffer is \<^verbatim>\<open>NULL\<close>.
\<close>

definition NET_AdrToStringThread :: "netadr \<Rightarrow> bool \<Rightarrow> int \<Rightarrow> (int \<times> u8 list) outcome" where
  "NET_AdrToStringThread a null bufsize =
     (if bufsize < 1 \<or> null then Inl SysError
      else let s = NET_AdrToString a; i = int (length s) in
        Inr (if i \<ge> bufsize then (bufsize, take (nat (bufsize - 1)) s) else (i, s)))"

section \<open>Parsing\<close>

text \<open>\<^verbatim>\<open>atoi\<close>: blanks, a sign, decimal digits.\<close>

fun digits :: "nat \<Rightarrow> u8 list \<Rightarrow> nat" where
  "digits acc [] = acc"
| "digits acc (c # cs) = (if isdigit_c c then digits (acc * 10 + (unat c - 48)) cs else acc)"

definition is_space :: "u8 \<Rightarrow> bool" where
  "is_space c \<longleftrightarrow> c = 32 \<or> (9 \<le> c \<and> c \<le> 13)"

definition atoi :: "u8 list \<Rightarrow> int" where
  "atoi s =
     (case dropWhile is_space s of
        [] \<Rightarrow> 0
      | c # cs \<Rightarrow> if c = 45 then - int (digits 0 cs) else if c = 43 then int (digits 0 cs) else int (digits 0 (c # cs)))"

text \<open>
  \<^verbatim>\<open>strrchr(copy, ':')\<close>: the text before the last colon and, if there is one, the text after it.
\<close>

fun split_colon :: "u8 list \<Rightarrow> u8 list \<times> u8 list option" where
  "split_colon [] = ([], None)"
| "split_colon (c # cs) =
     (case split_colon cs of
        (s, Some t) \<Rightarrow> (c # s, Some t)
      | (s, None) \<Rightarrow> if c = cchar CHR '':'' then ([], Some cs) else (c # s, None))"

definition NET_StringToSockaddr ::
  "(u8 list \<Rightarrow> ip4 option) \<Rightarrow> (u8 list \<Rightarrow> (family \<times> ip4) option) \<Rightarrow> u8 list \<Rightarrow> sockaddr option" where
  "NET_StringToSockaddr inet_addr gethostbyname s =
     (if s = [] then None
      else if length s \<ge> 127 then None
      else let (copy, after) = split_colon s;
               port = (case after of None \<Rightarrow> 0 | Some t \<Rightarrow> swap16 (of_int (atoi t)))
           in case inet_addr copy of
                Some ip \<Rightarrow> Some \<lparr>sa_family = AF_INET, sa_addr = ip, sa_port = port\<rparr>
              | None \<Rightarrow>
                  (case gethostbyname copy of
                     Some (AF_INET, ip) \<Rightarrow> Some \<lparr>sa_family = AF_INET, sa_addr = ip, sa_port = port\<rparr>
                   | _ \<Rightarrow> None))"

definition NET_StringToAdr ::
  "(u8 list \<Rightarrow> ip4 option) \<Rightarrow> (u8 list \<Rightarrow> (family \<times> ip4) option) \<Rightarrow> u8 list \<Rightarrow> netadr \<Rightarrow> (bool \<times> netadr) outcome" where
  "NET_StringToAdr inet_addr gethostbyname s a =
     (if s = cstr ''internalserver'' \<or> s = cstr ''localhost'' \<or> s = cstr ''loopback''
      then Inr (True, no_adr\<lparr>na_type := NA_LOOPBACK\<rparr>)
      else case NET_StringToSockaddr inet_addr gethostbyname s of
        Some sadr \<Rightarrow> bindE (SockadrToNetadr sadr a) (\<lambda>a. Inr (True, a))
      | None \<Rightarrow> Inr (False, a))"

section \<open>Comparison and classification\<close>

text \<open>
  The third test is \<^verbatim>\<open>a.type == NA_IP || NA_BROADCAST\<close>, whose second operand is a non-zero constant:
  the test always holds and the IPX branch is never reached.
\<close>

definition NET_CompareAdr :: "netadr \<Rightarrow> netadr \<Rightarrow> bool" where
  "NET_CompareAdr a b =
     (if na_type a \<noteq> na_type b then False
      else if na_type a = NA_LOOPBACK then True
      else na_ip a = na_ip b \<and> na_port a = na_port b)"

definition NET_CompareBaseAdr :: "netadr \<Rightarrow> netadr \<Rightarrow> bool" where
  "NET_CompareBaseAdr a b =
     (if na_type a \<noteq> na_type b then False
      else if na_type a = NA_LOOPBACK then True
      else na_ip a = na_ip b)"

definition NET_CompareClassBAdr :: "netadr \<Rightarrow> netadr \<Rightarrow> bool" where
  "NET_CompareClassBAdr a b =
     (case (na_ip a, na_ip b) of ((a0, a1, a2, _), (b0, b1, b2, _)) \<Rightarrow>
        na_type a = na_type b \<and> (na_type a = NA_LOOPBACK \<or>
          (a0 = b0 \<and> (a0 < 128 \<or> (a1 = b1 \<and> (a0 < 192 \<or> a2 = b2))))))"

definition NET_IsReservedAdr :: "netadr \<Rightarrow> bool" where
  "NET_IsReservedAdr a =
     (case na_ip a of (a0, a1, _, _) \<Rightarrow>
        if na_type a = NA_LOOPBACK then True
        else na_type a = NA_IP \<and> (a0 = 10 \<or> a0 = 127 \<or> (a0 = 172 \<and> a1 > 15 \<and> a1 < 32) \<or> (a0 = 192 \<and> a1 = 168)))"

definition NET_IsLocalAddress :: "netadr \<Rightarrow> bool" where
  "NET_IsLocalAddress a \<longleftrightarrow> na_type a = NA_LOOPBACK"

section \<open>Properties\<close>

lemma isdigit_dec: "c \<in> set (dec n) \<Longrightarrow> isdigit_c c"
proof (induction n rule: dec.induct)
  case (1 n)
  have d: "isdigit_c (48 + of_nat m)" if "m < 10" for m
  proof -
    have "unat (48 + of_nat m :: u8) = 48 + m"
      using that by (simp add: unat_word_ariths unat_of_nat)
    then show ?thesis
      using that by (simp add: isdigit_c_def word_le_nat_alt)
  qed
  show ?case
  proof (cases "n < 10")
    case True
    then show ?thesis
      using 1(2) d by (subst (asm) dec.simps) auto
  next
    case False
    then show ?thesis
      using 1 d [of "n mod 10"] by (subst (asm) (2) dec.simps) auto
  qed
qed

lemma digits_append: "(\<And>c. c \<in> set ds \<Longrightarrow> isdigit_c c) \<Longrightarrow> digits acc (ds @ cs) = digits (digits acc ds) cs"
  by (induction ds arbitrary: acc) auto

lemma digits_dec: "digits 0 (dec n) = n"
proof (induction n rule: dec.induct)
  case (1 n)
  have d: "digits acc [48 + of_nat m] = acc * 10 + m" if "m < 10" for m acc
  proof -
    have "unat (48 + of_nat m :: u8) = 48 + m"
      using that by (simp add: unat_word_ariths unat_of_nat)
    then show ?thesis
      using that by (simp add: isdigit_c_def word_le_nat_alt)
  qed
  show ?case
  proof (cases "n < 10")
    case True
    then show ?thesis
      using d [of n 0] by (subst dec.simps) simp
  next
    case False
    then show ?thesis
      using 1 d [of "n mod 10"] by (subst dec.simps) (simp add: digits_append isdigit_dec del: digits.simps)
  qed
qed

lemma dec_not_Nil: "dec n \<noteq> []"
  by (subst dec.simps) simp

lemma atoi_dec: "atoi (dec n) = int n"
proof -
  obtain c cs where c: "dec n = c # cs"
    using dec_not_Nil by (cases "dec n") auto
  then have "isdigit_c c"
    using isdigit_dec [of c n] by simp
  then have "\<not> is_space c" "c \<noteq> 45" "c \<noteq> 43"
    by (auto simp: isdigit_c_def is_space_def word_le_nat_alt)
  then show ?thesis
    using digits_dec [of n] by (simp add: atoi_def c del: digits.simps)
qed

lemma swap16_swap16 [simp]: "swap16 (swap16 w) = w"
  unfolding swap16_def by (rule bit_word_eqI) (auto simp: bit_simps)

lemma split_colon_last: "cchar CHR '':'' \<notin> set t \<Longrightarrow> split_colon (s @ cchar CHR '':'' # t) = (s, Some t)"
proof (induction s)
  case Nil
  have "split_colon t = (t, None)"
    using Nil by (induction t) auto
  then show ?case
    by simp
qed simp

lemma colon_not_dec: "cchar CHR '':'' \<notin> set (dec n)"
  using isdigit_dec [of "cchar CHR '':''" n] by (auto simp: isdigit_c_def cchar_def)

lemma length_dec: "n < 1000 \<Longrightarrow> length (dec n) \<le> 3" "n < 100000 \<Longrightarrow> length (dec n) \<le> 5"
  by (simp_all add: dec.simps [of n] dec.simps [of "n div 10"] dec.simps [of "n div 10 div 10"]
      dec.simps [of "n div 10 div 10 div 10"] dec.simps [of "n div 10 div 10 div 10 div 10"])

text \<open>
  C20. Printed addresses are parsed back: what \<^verbatim>\<open>NET_AdrToString\<close> prints for an IP address fits its
  64-byte array, and \<^verbatim>\<open>NET_StringToAdr\<close> reads from it an address that \<^verbatim>\<open>NET_CompareAdr\<close> finds equal,
  with the same bytes and the same port, on every system whose \<^verbatim>\<open>inet_addr\<close> reads the four numbers.
\<close>

theorem address_roundtrip:
  assumes "na_type a = NA_IP" and "inet_addr (dotted (na_ip a)) = Some (na_ip a)"
  shows "length (NET_AdrToString a) < 64 \<and>
    (\<exists>b'. NET_StringToAdr inet_addr gethostbyname (NET_AdrToString a) b = Inr (True, b') \<and>
       NET_CompareAdr b' a \<and> na_ip b' = na_ip a \<and> na_port b' = na_port a)"
proof -
  let ?s = "NET_AdrToString a" and ?colon = "cchar CHR '':''"
  obtain i0 i1 i2 i3 where ip: "na_ip a = (i0, i1, i2, i3)"
    by (cases "na_ip a")
  have s: "?s = dotted (na_ip a) @ ?colon # dec (unat (swap16 (na_port a)))"
    using assms(1) by (simp add: NET_AdrToString_def cstr_def)
  have b: "unat i < 1000" for i :: u8
    using unsigned_less [of i, where ?'a = nat] by simp
  have p: "unat (swap16 (na_port a)) < 100000"
    using unsigned_less [of "swap16 (na_port a)", where ?'a = nat] by simp
  have len: "length ?s < 64"
    using length_dec(1) [OF b [of i0]] length_dec(1) [OF b [of i1]] length_dec(1) [OF b [of i2]]
      length_dec(1) [OF b [of i3]] length_dec(2) [OF p]
    unfolding s by (simp add: dotted_def ip cstr_def)
  have "?colon \<in> set ?s"
    unfolding s by simp
  then have "?s \<notin> {cstr ''internalserver'', cstr ''localhost'', cstr ''loopback'', []}"
    by (auto simp: cstr_def cchar_def)
  moreover have "split_colon ?s = (dotted (na_ip a), Some (dec (unat (swap16 (na_port a)))))"
    unfolding s by (rule split_colon_last [OF colon_not_dec])
  moreover have "swap16 (of_int (atoi (dec (unat (swap16 (na_port a)))))) = na_port a"
    by (simp add: atoi_dec)
  ultimately have "NET_StringToAdr inet_addr gethostbyname ?s b =
      Inr (True, b\<lparr>na_type := NA_IP, na_ip := na_ip a, na_port := na_port a\<rparr>)"
    using len assms(2) by (simp add: NET_StringToAdr_def NET_StringToSockaddr_def SockadrToNetadr_def)
  then show ?thesis
    using len assms(1) by (simp add: NET_CompareAdr_def)
qed

theorem address_roundtrip_witness:
  "\<exists>b'. NET_StringToAdr (\<lambda>s. if s = dotted (192, 168, 0, 1) then Some (192, 168, 0, 1) else None) (\<lambda>_. None)
      (NET_AdrToString (no_adr\<lparr>na_type := NA_IP, na_ip := (192, 168, 0, 1), na_port := 0x8769\<rparr>)) no_adr = Inr (True, b')
    \<and> na_port b' = 0x8769"
  using address_roundtrip [of "no_adr\<lparr>na_type := NA_IP, na_ip := (192, 168, 0, 1), na_port := 0x8769\<rparr>"
    "\<lambda>s. if s = dotted (192, 168, 0, 1) then Some (192, 168, 0, 1) else None" "\<lambda>_. None" no_adr]
  by auto

end
