(* ===== verification/Datagrams.thy ===== *)
theory Datagrams
  imports NetAddr Messages
begin

text \<open>
  The datagram layer of \<^verbatim>\<open>NET.c\<close>: the loopback rings between client and server, sending with the split
  of long datagrams, receiving with their reassembly, and the out-of-band messages. The static
  variables are the record \<open>net\<close>; the socket calls of the system are parameters: what \<^verbatim>\<open>sendto\<close> returns
  for a datagram after the datagrams sent so far, and the results \<^verbatim>\<open>recvfrom\<close> will give, in order. The
  datagrams handed to \<^verbatim>\<open>sendto\<close> are recorded in \<open>nt_sent\<close>.
\<close>

abbreviation MAX_LOOPBACK :: u32 where "MAX_LOOPBACK \<equiv> 4"
abbreviation MAX_UDP_ROUTABLE_SIZE :: nat where "MAX_UDP_ROUTABLE_SIZE \<equiv> 1400"
abbreviation SPLIT_UDP_PACKET_SIZE :: nat where "SPLIT_UDP_PACKET_SIZE \<equiv> 1391"
abbreviation MAX_UDP_PACKET_DATA_SIZE :: nat where "MAX_UDP_PACKET_DATA_SIZE \<equiv> 8346"
abbreviation MAX_NUMBER_OF_SPLIT_PACKETS :: u32 where "MAX_NUMBER_OF_SPLIT_PACKETS \<equiv> 6"

record loopmsg =
  lm_data :: "u8 list"
  lm_len :: u32

record loopback =
  lp_msgs :: "loopmsg list"
  lp_get :: u32
  lp_send :: u32

record splitpacket =
  sp_host :: netadr
  sp_seq :: u32
  sp_total :: u32
  sp_received :: u32
  sp_size :: u32
  sp_offset :: u32
  sp_data :: "u8 list"

type_synonym datagram = "nat \<times> sockaddr \<times> u8 list"

record net =
  nt_loops :: "nat \<Rightarrow> loopback"
  nt_message :: netmsg
  nt_from :: netadr
  nt_split :: "splitpacket list"
  nt_oldest :: u32
  nt_seq :: u32
  nt_socket :: "nat \<Rightarrow> bool"
  nt_sent :: "datagram list"

abbreviation nt_buf :: "net \<Rightarrow> sizebuf" where
  "nt_buf n \<equiv> nm_buf (nt_message n)"

abbreviation set_buf :: "(sizebuf \<Rightarrow> sizebuf) \<Rightarrow> net \<Rightarrow> net" where
  "set_buf f n \<equiv> n\<lparr>nt_message := (nt_message n)\<lparr>nm_buf := f (nt_buf n)\<rparr>\<rparr>"

section \<open>Loopback\<close>

definition NET_SendLoopPacket :: "nat \<Rightarrow> u8 list \<Rightarrow> net \<Rightarrow> net outcome" where
  "NET_SendLoopPacket sock data n =
     (if sock > 1 then Inl OutOfBounds
      else let other = 1 - sock; l = nt_loops n other; i = unat (lp_send l AND (MAX_LOOPBACK - 1));
               l = l\<lparr>lp_send := lp_send l + 1\<rparr>
           in if length data > MAX_UDP_PACKET_DATA_SIZE then Inl SysError
              else bindE (peek i 1 (lp_msgs l)) (\<lambda>ms.
                bindE (poke 0 data (lm_data (hd ms))) (\<lambda>d.
                  let l = l\<lparr>lp_msgs := (lp_msgs l)[i := \<lparr>lm_data = d, lm_len = of_nat (length data)\<rparr>]\<rparr>
                  in Inr (n\<lparr>nt_loops := (nt_loops n)(other := l)\<rparr>))))"

text \<open>The oldest messages are dropped when more than \<^verbatim>\<open>MAX_LOOPBACK\<close> were sent since the last read.\<close>

definition skip_lost :: "loopback \<Rightarrow> loopback" where
  "skip_lost l =
     (if sint (lp_send l - lp_get l) > sint MAX_LOOPBACK then l\<lparr>lp_get := lp_send l - MAX_LOOPBACK\<rparr> else l)"

definition NET_GetLoopPacket :: "nat \<Rightarrow> net \<Rightarrow> (bool \<times> net) outcome" where
  "NET_GetLoopPacket sock n =
     (if sock > 1 then Inl OutOfBounds
      else let l = skip_lost (nt_loops n sock);
               n = n\<lparr>nt_loops := (nt_loops n)(sock := l)\<rparr>
           in if sint (lp_get l) \<ge> sint (lp_send l) then Inr (False, n)
              else let i = unat (lp_get l AND (MAX_LOOPBACK - 1)); l = l\<lparr>lp_get := lp_get l + 1\<rparr>;
                       n = n\<lparr>nt_loops := (nt_loops n)(sock := l)\<rparr>
                   in bindE (peek i 1 (lp_msgs l)) (\<lambda>ms.
                     if sb_maxsize (nt_buf n) < lm_len (hd ms) then Inl SysError
                     else bindE (peek 0 (unat (lm_len (hd ms))) (lm_data (hd ms))) (\<lambda>bs.
                       bindE (poke 0 bs (sb_data (nt_buf n))) (\<lambda>d.
                         Inr (True, (set_buf (\<lambda>b. b\<lparr>sb_data := d, sb_cursize := lm_len (hd ms)\<rparr>) n)
                           \<lparr>nt_from := no_adr\<lparr>na_type := NA_LOOPBACK\<rparr>\<rparr>)))))"

section \<open>Sending\<close>

text \<open>
  \<^verbatim>\<open>NET_SendLong\<close>: \<open>sendto sent dgram\<close> is the number the system returns. \<^verbatim>\<open>length-1 / SPLIT_UDP_PACKET_SIZE\<close>
  is \<^verbatim>\<open>length - (1 / 1391)\<close>, so \<^verbatim>\<open>PacketCount\<close> is \<^verbatim>\<open>length + 1\<close>; the header byte is the sum cut to a byte.
\<close>

definition split_header :: "u32 \<Rightarrow> nat \<Rightarrow> nat \<Rightarrow> u8 list" where
  "split_header seq number count =
     bytes32 0xFFFFFFFE @ bytes32 seq @ [push_bit 4 (of_nat number) + of_nat count]"

function send_chunks ::
  "(datagram list \<Rightarrow> datagram \<Rightarrow> int) \<Rightarrow> nat \<Rightarrow> sockaddr \<Rightarrow> u32 \<Rightarrow> nat \<Rightarrow> u8 list \<Rightarrow> nat \<Rightarrow> nat \<Rightarrow> nat \<Rightarrow> datagram list
    \<Rightarrow> (int \<times> datagram list) outcome" where
  "send_chunks sendto sock to seq count data sent number len trace =
     (if len > 0 then
        let size = (if len > SPLIT_UDP_PACKET_SIZE then SPLIT_UDP_PACKET_SIZE else len) in
        bindE (peek sent size data) (\<lambda>bs.
          let dgram = (sock, to, split_header seq number count @ bs); ret = sendto trace dgram; trace = trace @ [dgram]
          in if ret \<noteq> int (size + 9) then Inr (ret, trace)
             else send_chunks sendto sock to seq count data (sent + size) (number + 1) (len - size) trace)
      else Inr (int sent, trace))"
  by pat_completeness auto

termination
  by (relation "measure (\<lambda>(sendto, sock, to, seq, count, data, sent, number, len, trace). len)") auto

declare send_chunks.simps [simp del]

definition NET_SendLong ::
  "(datagram list \<Rightarrow> datagram \<Rightarrow> int) \<Rightarrow> nat \<Rightarrow> sockaddr \<Rightarrow> u8 list \<Rightarrow> net \<Rightarrow> (int \<times> net) outcome" where
  "NET_SendLong sendto sock to data n =
     (let len = length data in
      if len > MAX_UDP_PACKET_DATA_SIZE then Inr (-2, n)
      else if len > MAX_UDP_ROUTABLE_SIZE then
        let seq = nt_seq n + 1; seq = (if sint seq < 0 then 1 else seq) in
        bindE (send_chunks sendto sock to seq (len + 1) data 0 0 len (nt_sent n)) (\<lambda>(ret, trace).
          Inr (ret, n\<lparr>nt_seq := seq, nt_sent := trace\<rparr>))
      else Inr (sendto (nt_sent n) (sock, to, data), n\<lparr>nt_sent := nt_sent n @ [(sock, to, data)]\<rparr>))"

datatype errno = EWOULDBLOCK | ECONNREFUSED | ECONNRESET | EADDRNOTAVAIL | ENETRESET | E_OTHER

text \<open>\<open>errno\<close> is the error the system reports after a call that returned -1.\<close>

definition NET_SendPacket ::
  "(datagram list \<Rightarrow> datagram \<Rightarrow> int) \<Rightarrow> errno \<Rightarrow> bool \<Rightarrow> nat \<Rightarrow> u8 list \<Rightarrow> netadr \<Rightarrow> net \<Rightarrow> net outcome" where
  "NET_SendPacket sendto errno dedicated netsrc data to n =
     (if na_type to = NA_LOOPBACK then NET_SendLoopPacket netsrc data n
      else if na_type to = NA_BROADCAST \<or> na_type to = NA_IP then
        (if netsrc > 2 then Inl OutOfBounds
         else if \<not> nt_socket n netsrc then Inr n
         else bindE (NetadrToSockadr to) (\<lambda>addr.
           bindE (NET_SendLong sendto netsrc addr data n) (\<lambda>(ret, n).
             if ret = -1 then
               (if errno = EWOULDBLOCK \<or> errno = ECONNREFUSED \<or> errno = ECONNRESET then Inr n
                else if errno = EADDRNOTAVAIL then Inr n
                else if dedicated then Inr n
                else Inl SysError)
             else Inr n)))
      else Inl SysError)"

text \<open>The 4037-byte array, cut so that the four bytes in front and the terminator fit.\<close>

definition Netchan_OutOfBand ::
  "(datagram list \<Rightarrow> datagram \<Rightarrow> int) \<Rightarrow> errno \<Rightarrow> bool \<Rightarrow> nat \<Rightarrow> netadr \<Rightarrow> u8 list \<Rightarrow> net \<Rightarrow> net outcome" where
  "Netchan_OutOfBand sendto errno dedicated sock to data n =
     (let data = take (0x0FC5 - 5) data in
      NET_SendPacket sendto errno dedicated sock (bytes32 0xFFFFFFFF @ data @ [0]) to n)"

text \<open>\<open>text\<close> is what the format and its arguments expand to; the array holds 4096 characters.\<close>

definition Netchan_OutOfBandPrint ::
  "(datagram list \<Rightarrow> datagram \<Rightarrow> int) \<Rightarrow> errno \<Rightarrow> bool \<Rightarrow> nat \<Rightarrow> netadr \<Rightarrow> u8 list \<Rightarrow> net \<Rightarrow> net outcome" where
  "Netchan_OutOfBandPrint sendto errno dedicated sock to str n =
     Netchan_OutOfBand sendto errno dedicated sock to
       (if length str \<ge> 4096 then take 4095 str @ [0] else str) n"

section \<open>Receiving\<close>

definition NET_TransferRawData :: "sizebuf \<Rightarrow> u8 list \<Rightarrow> u32 \<Rightarrow> sizebuf outcome" where
  "NET_TransferRawData message src len =
     (if sb_maxsize message < len then Inl SysError
      else bindE (peek 0 (unat len) src) (\<lambda>bs.
        bindE (poke 0 bs (sb_data message)) (\<lambda>d.
          Inr (message\<lparr>sb_data := d, sb_cursize := len\<rparr>))))"

text \<open>
  \<^verbatim>\<open>NET_GetLong\<close>. The total is masked with \<open>0xF0\<close> and not shifted. The search of the table takes the last
  record that matches; \<open>blank_split\<close> is the cleared record. A record that does not fit the datagram is
  cleared and then used all the same.
\<close>

definition blank_split :: splitpacket where
  "blank_split = \<lparr>sp_host = no_adr, sp_seq = 0, sp_total = 0, sp_received = 0, sp_size = 0, sp_offset = 0,
     sp_data = replicate 8346 0\<rparr>"

fun find_split :: "netadr \<Rightarrow> u32 \<Rightarrow> splitpacket list \<Rightarrow> nat \<Rightarrow> nat option \<Rightarrow> nat option" where
  "find_split from seq [] i found = found"
| "find_split from seq (s # ss) i found =
     find_split from seq ss (i + 1) (if NET_CompareAdr (sp_host s) from \<and> sp_seq s = seq then Some i else found)"

definition store_chunk :: "u32 \<Rightarrow> bool \<Rightarrow> nat \<Rightarrow> splitpacket \<Rightarrow> net \<Rightarrow> (bool \<times> net) outcome" where
  "store_chunk number is_last slot s n =
     (let buf = nt_buf n; size = sb_cursize buf; bit = push_bit (unat number) 1 :: u32 in
      if sp_received s AND bit = 1 then Inr (False, n\<lparr>nt_split := (nt_split n)[slot := s]\<rparr>)
      else if is_last \<and> sp_size s + size - 9 > sb_maxsize buf
        then Inr (False, n\<lparr>nt_split := (nt_split n)[slot := blank_split]\<rparr>)
      else bindE (peek 9 (unat (size - 9)) (sb_data buf)) (\<lambda>bs.
        bindE (poke (unat (number * sp_offset s)) bs (sp_data s)) (\<lambda>d.
          let s = s\<lparr>sp_received := sp_received s OR bit, sp_data := d, sp_size := sp_size s + size\<rparr>;
              n = n\<lparr>nt_split := (nt_split n)[slot := s]\<rparr>
          in if sp_received s + 1 = push_bit (unat (sp_total s + 1)) 1 then
               bindE (peek 0 (unat (sp_size s)) (sp_data s)) (\<lambda>whole.
                 bindE (poke 0 whole (sb_data buf)) (\<lambda>d.
                   Inr (True, set_buf (\<lambda>b. b\<lparr>sb_data := d, sb_cursize := sp_size s\<rparr>) n)))
             else Inr (False, n))))"

definition NET_GetLong :: "net \<Rightarrow> (bool \<times> net) outcome" where
  "NET_GetLong n =
     (let buf = nt_buf n; size = sb_cursize buf in
      if size < 9 then Inr (False, n)
      else bindE (load32 4 (sb_data buf)) (\<lambda>seq.
        bindE (peek 8 1 (sb_data buf)) (\<lambda>bs.
          let number = ucast (drop_bit 4 (hd bs)) :: u32; total = ucast (hd bs AND 0xF0) :: u32 in
          if number \<ge> total \<or> total > MAX_NUMBER_OF_SPLIT_PACKETS then Inr (False, n)
          else let is_last = (number + 1 = total) in
            case find_split (nt_from n) seq (nt_split n) 0 None of
              None \<Rightarrow>
                bindE (peek (unat (nt_oldest n)) 1 (nt_split n)) (\<lambda>ss.
                  store_chunk number is_last (unat (nt_oldest n))
                    ((hd ss)\<lparr>sp_host := nt_from n, sp_seq := seq, sp_total := total, sp_received := 0, sp_size := 0,
                       sp_offset := (if is_last then of_nat SPLIT_UDP_PACKET_SIZE else size - 9)\<rparr>)
                    (n\<lparr>nt_oldest := (nt_oldest n + 1) AND 16\<rparr>))
            | Some i \<Rightarrow>
                let s = nt_split n ! i in
                store_chunk number is_last i
                  (if sp_total s \<noteq> total \<or> number \<ge> sp_total s \<or> (\<not> is_last \<and> sp_offset s \<noteq> size - 9)
                   then blank_split else s) n)))"

text \<open>
  \<^verbatim>\<open>NET_QueuePacket\<close>: each \<^verbatim>\<open>recvfrom\<close> either writes a datagram over the start of the message array
  or fails with an error; when the list of results is used up it would block. (For an empty datagram
  the call returns 0, which the code treats as a failure with whatever \<^verbatim>\<open>errno\<close> holds.) \<open>banned\<close> is the ban
  list, \<open>announce\<close> the setting that answers banned hosts (the result of that \<^verbatim>\<open>sendto\<close> is not looked at).
\<close>

datatype recv = Received "u8 list" sockaddr | Failed errno

definition ban_notice :: "u8 list" where
  "ban_notice = bytes32 0xFFFFFFFF @ cstr ''lYou are banned from this server.'' @ [10, 0]"

fun queue_loop :: "(sockaddr \<Rightarrow> bool) \<Rightarrow> bool \<Rightarrow> nat \<Rightarrow> recv list \<Rightarrow> net \<Rightarrow> (bool \<times> recv list \<times> net) outcome" where
  "queue_loop banned announce sock [] n = Inr (False, [], n)"
| "queue_loop banned announce sock (Failed e # rs) n =
     (if e = ENETRESET then queue_loop banned announce sock rs n else Inr (False, rs, n))"
| "queue_loop banned announce sock (Received bs from # rs) n =
     bindE (poke 0 (take MAX_UDP_PACKET_DATA_SIZE bs) (sb_data (nt_buf n))) (\<lambda>d.
       let n = set_buf (\<lambda>b. b\<lparr>sb_data := d\<rparr>) n in
       if length bs > MAX_UDP_ROUTABLE_SIZE then queue_loop banned announce sock rs n
       else if banned from then
         queue_loop banned announce sock rs
           (if announce then n\<lparr>nt_sent := nt_sent n @ [(sock, from, ban_notice)]\<rparr> else n)
       else bindE (SockadrToNetadr from (nt_from n)) (\<lambda>adr.
         let n = set_buf (\<lambda>b. b\<lparr>sb_cursize := of_nat (length bs)\<rparr>) (n\<lparr>nt_from := adr\<rparr>) in
         bindE (load32 0 d) (\<lambda>first.
           if first = 0xFFFFFFFE then
             bindE (NET_GetLong n) (\<lambda>(complete, n).
               if complete then Inr (True, rs, n) else queue_loop banned announce sock rs n)
           else Inr (True, rs, n))))"

definition NET_QueuePacket :: "(sockaddr \<Rightarrow> bool) \<Rightarrow> bool \<Rightarrow> nat \<Rightarrow> recv list \<Rightarrow> net \<Rightarrow> (bool \<times> recv list \<times> net) outcome" where
  "NET_QueuePacket banned announce netsrc rs n =
     (if netsrc > 2 then Inl OutOfBounds
      else if \<not> nt_socket n netsrc then Inr (False, rs, n)
      else queue_loop banned announce netsrc rs (set_buf (\<lambda>b. b\<lparr>sb_cursize := 0\<rparr>) n))"

definition NET_GetPacket :: "(sockaddr \<Rightarrow> bool) \<Rightarrow> bool \<Rightarrow> nat \<Rightarrow> recv list \<Rightarrow> net \<Rightarrow> (bool \<times> recv list \<times> net) outcome" where
  "NET_GetPacket banned announce netsrc rs n =
     bindE (NET_GetLoopPacket netsrc n) (\<lambda>(got, n).
       if got then Inr (True, rs, n) else NET_QueuePacket banned announce netsrc rs n)"

section \<open>Lossy queues\<close>

text \<open>
  The interface of a ring that keeps the latest \<open>cap\<close> entries: \<open>put\<close> adds an entry and may push the
  oldest out, \<open>get\<close> takes the oldest one left. \<open>left\<close> bounds how many more entries may be put (the
  counters of the implementation are machine integers).
\<close>

definition latest :: "nat \<Rightarrow> 'a list \<Rightarrow> 'a list" where
  "latest k xs = drop (length xs - k) xs"

lemma length_latest: "length (latest k xs) = min k (length xs)"
  by (auto simp: latest_def)

text \<open>
  A session puts entries into and gets entries from several such queues, in any interleaving.
  \<open>queue_run\<close> is the reference: the entries the \<open>Get\<close>s deliver when every queue is a list.
\<close>

datatype 'd event = Put nat 'd | Get nat

fun queue_run :: "nat \<Rightarrow> (nat \<Rightarrow> 'd list) \<Rightarrow> 'd event list \<Rightarrow> 'd option list" where
  "queue_run cap q [] = []"
| "queue_run cap q (Put r d # es) = queue_run cap (q(r := latest cap (q r @ [d]))) es"
| "queue_run cap q (Get r # es) =
     (case q r of [] \<Rightarrow> None # queue_run cap q es | d # ds \<Rightarrow> Some d # queue_run cap (q(r := ds)) es)"

locale lossy_queues =
  fixes inv :: "'s \<Rightarrow> bool" and contents :: "'s \<Rightarrow> nat \<Rightarrow> 'd list" and left :: "'s \<Rightarrow> nat" and cap :: nat
    and ok :: "nat \<Rightarrow> 'd \<Rightarrow> bool" and index :: "nat \<Rightarrow> bool"
    and put :: "nat \<Rightarrow> 'd \<Rightarrow> 's \<Rightarrow> 's outcome" and get :: "nat \<Rightarrow> 's \<Rightarrow> ('d option \<times> 's) outcome"
  assumes put_law: "inv s \<Longrightarrow> ok r d \<Longrightarrow> 0 < left s \<Longrightarrow>
      \<exists>s'. put r d s = Inr s' \<and> inv s' \<and> contents s' = (contents s)(r := latest cap (contents s r @ [d])) \<and> left s \<le> left s' + 1"
    and get_law: "inv s \<Longrightarrow> index r \<Longrightarrow>
      \<exists>s'. get r s = Inr (case contents s r of [] \<Rightarrow> None | d # _ \<Rightarrow> Some d, s') \<and> inv s' \<and>
        contents s' = (contents s)(r := tl (contents s r)) \<and> left s \<le> left s'"
begin

fun run :: "'s \<Rightarrow> 'd event list \<Rightarrow> 'd option list outcome" where
  "run s [] = Inr []"
| "run s (Put r d # es) = bindE (put r d s) (\<lambda>s. run s es)"
| "run s (Get r # es) = bindE (get r s) (\<lambda>(x, s). bindE (run s es) (\<lambda>xs. Inr (x # xs)))"

lemma run_queue:
  "inv s \<Longrightarrow> (\<And>r d. Put r d \<in> set es \<Longrightarrow> ok r d) \<Longrightarrow> (\<And>r. Get r \<in> set es \<Longrightarrow> index r) \<Longrightarrow> length es \<le> left s \<Longrightarrow>
    run s es = Inr (queue_run cap (contents s) es)"
proof (induction s es rule: run.induct)
  case (1 s)
  then show ?case by simp
next
  case (2 s r d es)
  obtain s' where "put r d s = Inr s'" "inv s'" "contents s' = (contents s)(r := latest cap (contents s r @ [d]))"
      "left s \<le> left s' + 1"
    using put_law [of s r d] 2(2,3,5) by auto
  then show ?case
    using 2 by auto
next
  case (3 s r es)
  obtain s' where "get r s = Inr (case contents s r of [] \<Rightarrow> None | d # _ \<Rightarrow> Some d, s')" "inv s'"
      "contents s' = (contents s)(r := tl (contents s r))" "left s \<le> left s'"
    using get_law [of s r] 3(2,4) by auto
  moreover have "(contents s)(r := []) = contents s" if "contents s r = []"
    using that by (simp add: fun_upd_idem_iff)
  ultimately show ?case
    using 3 by (cases "contents s r") auto
qed

end

section \<open>The loopback ring\<close>

text \<open>
  The entries of a ring that are still to be taken, oldest first: from the read counter, or the
  fourth last entry if that is later, up to the write counter.
\<close>

definition msg_bytes :: "loopmsg \<Rightarrow> u8 list" where
  "msg_bytes m = take (unat (lm_len m)) (lm_data m)"

definition first_kept :: "loopback \<Rightarrow> nat" where
  "first_kept l = max (unat (lp_get l)) (unat (lp_send l) - 4)"

definition pending :: "loopback \<Rightarrow> u8 list list" where
  "pending l = map (\<lambda>k. msg_bytes (lp_msgs l ! (k mod 4))) [first_kept l..<unat (lp_send l)]"

definition loop_ok :: "loopback \<Rightarrow> bool" where
  "loop_ok l \<longleftrightarrow> length (lp_msgs l) = 4 \<and> lp_get l \<le> lp_send l \<and> unat (lp_send l) < 2 ^ 31 \<and>
     (\<forall>m \<in> set (lp_msgs l). length (lm_data m) = MAX_UDP_PACKET_DATA_SIZE \<and> unat (lm_len m) \<le> MAX_UDP_PACKET_DATA_SIZE)"

definition message_ok :: "net \<Rightarrow> bool" where
  "message_ok n \<longleftrightarrow> MAX_UDP_PACKET_DATA_SIZE \<le> unat (sb_maxsize (nt_buf n)) \<and> unat (sb_maxsize (nt_buf n)) \<le> length (sb_data (nt_buf n))"

lemma unat_and_3: "unat (w AND (3 :: u32)) = unat w mod 4"
proof -
  have "w AND 3 = take_bit 2 w"
    by (simp add: take_bit_eq_mask mask_eq_exp_minus_1)
  then show ?thesis
    by (simp add: take_bit_eq_mod unat_mod)
qed

text \<open>Sending from one end, receiving at the other; what is received is the message after the call.\<close>

definition loop_put :: "nat \<Rightarrow> u8 list \<Rightarrow> net \<Rightarrow> net outcome" where
  "loop_put r d n = NET_SendLoopPacket (1 - r) d n"

definition loop_get :: "nat \<Rightarrow> net \<Rightarrow> (u8 list option \<times> net) outcome" where
  "loop_get r n =
     bindE (NET_GetLoopPacket r n) (\<lambda>(got, n).
       Inr (if got then Some (sz_contents (nt_buf n)) else None, n))"

lemma kept_range: "loop_ok l \<Longrightarrow> [first_kept l..<unat (lp_send l)] = [] \<longleftrightarrow> lp_get l = lp_send l"
  by (auto simp: loop_ok_def first_kept_def word_le_nat_alt word_unat_eq_iff max_def split: if_splits)

lemma mod4_apart: "k < s \<Longrightarrow> s - 3 \<le> k \<Longrightarrow> k mod 4 \<noteq> s mod (4 :: nat)"
  using mod_eq_dvd_iff_nat [of k s 4] by (auto dest!: dvd_imp_le)

lemma send_pending:
  assumes "loop_ok l" and "length d \<le> MAX_UDP_PACKET_DATA_SIZE" and "unat (lp_send l) + 1 < 2 ^ 31"
    and "m = \<lparr>lm_data = d', lm_len = of_nat (length d)\<rparr>" and "length d' = MAX_UDP_PACKET_DATA_SIZE" and "take (length d) d' = d"
  shows "let l' = l\<lparr>lp_send := lp_send l + 1, lp_msgs := (lp_msgs l)[unat (lp_send l) mod 4 := m]\<rparr>
    in loop_ok l' \<and> pending l' = latest 4 (pending l @ [d])"
proof -
  define l' where "l' = l\<lparr>lp_send := lp_send l + 1, lp_msgs := (lp_msgs l)[unat (lp_send l) mod 4 := m]\<rparr>"
  let ?s = "unat (lp_send l)" and ?g = "unat (lp_get l)"
  have s': "unat (lp_send l') = ?s + 1"
    using assms(3) by (simp add: l'_def unat_u32_add)
  have gs: "?g \<le> ?s" and len: "length (lp_msgs l) = 4"
    using assms(1) by (simp_all add: loop_ok_def word_le_nat_alt)
  have ld: "unat (of_nat (length d) :: u32) = length d"
    using assms(2) by (simp add: unat_of_nat)
  have "loop_ok l'"
    using assms s' gs unfolding loop_ok_def
    by (auto simp: l'_def word_le_nat_alt ld dest!: set_update_subset_insert [THEN subsetD])
  moreover have "pending l' = latest 4 (pending l @ [d])"
  proof -
    have f': "first_kept l' = max ?g (?s - 3)"
      using s' by (simp add: first_kept_def l'_def)
    have old: "msg_bytes (lp_msgs l' ! (k mod 4)) = msg_bytes (lp_msgs l ! (k mod 4))" if "k < ?s" "?s - 3 \<le> k" for k
    proof -
      have "k mod 4 \<noteq> ?s mod 4"
        using that by (rule mod4_apart)
      then show ?thesis
        by (simp add: l'_def)
    qed
    have new: "msg_bytes (lp_msgs l' ! (?s mod 4)) = d"
      using assms(4,6) len ld by (simp add: l'_def msg_bytes_def)
    have "pending l' = map (\<lambda>k. msg_bytes (lp_msgs l' ! (k mod 4))) [first_kept l'..<?s] @ [d]"
      using f' gs new by (simp add: pending_def s')
    also have "map (\<lambda>k. msg_bytes (lp_msgs l' ! (k mod 4))) [first_kept l'..<?s] =
      map (\<lambda>k. msg_bytes (lp_msgs l ! (k mod 4))) [first_kept l'..<?s]"
      using old f' by (intro map_cong) auto
    also have "\<dots> @ [d] = latest 4 (pending l @ [d])"
    proof -
      have fl: "first_kept l = max ?g (?s - 4)"
        by (simp add: first_kept_def)
      have "first_kept l' = first_kept l + (?s - first_kept l + 1 - 4)" "?s - first_kept l + 1 - 4 \<le> ?s - first_kept l"
        unfolding f' fl using gs by arith+
      then show ?thesis
        by (simp add: pending_def latest_def drop_map)
    qed
    finally show ?thesis .
  qed
  ultimately show ?thesis
    by (simp add: l'_def Let_def)
qed


definition loop_inv :: "net \<Rightarrow> bool" where
  "loop_inv n \<longleftrightarrow> loop_ok (nt_loops n 0) \<and> loop_ok (nt_loops n 1) \<and> message_ok n"

definition loop_left :: "net \<Rightarrow> nat" where
  "loop_left n = 2 ^ 31 - 1 - max (unat (lp_send (nt_loops n 0))) (unat (lp_send (nt_loops n 1)))"

definition pendings :: "net \<Rightarrow> nat \<Rightarrow> u8 list list" where
  "pendings n r = pending (nt_loops n r)"

text \<open>An operation on ring \<open>r\<close> that replaces only that ring, with the ring's invariant kept.\<close>

lemma ring_changed:
  assumes "loop_inv n" "r \<le> 1" "nt_loops n' = (nt_loops n)(r := l)" "loop_ok l" "message_ok n'"
    "unat (lp_send l) \<le> unat (lp_send (nt_loops n r)) + k"
  shows "loop_inv n'" "loop_left n \<le> loop_left n' + k" "pendings n' = (pendings n)(r := pending l)"
proof -
  have r: "r = 0 \<or> r = 1"
    using assms(2) by auto
  show "loop_inv n'"
    using r assms by (auto simp: loop_inv_def)
  have "max (unat (lp_send (nt_loops n' 0))) (unat (lp_send (nt_loops n' 1))) \<le>
      max (unat (lp_send (nt_loops n 0))) (unat (lp_send (nt_loops n 1))) + k"
    using r assms(3,6) by auto
  then show "loop_left n \<le> loop_left n' + k"
    unfolding loop_left_def by arith
  show "pendings n' = (pendings n)(r := pending l)"
    using assms(3) by (auto simp: pendings_def)
qed

lemma peek_one: "i < length xs \<Longrightarrow> peek i 1 xs = Inr [xs ! i]"
  by (simp add: peek_def) (metis Cons_nth_drop_Suc take_0 take_Suc_Cons)

lemma loop_put_law:
  assumes inv: "loop_inv n" and d: "r \<le> 1 \<and> length d \<le> MAX_UDP_PACKET_DATA_SIZE" and room: "0 < loop_left n"
  shows "\<exists>n'. loop_put r d n = Inr n' \<and> loop_inv n' \<and>
    pendings n' = (pendings n)(r := latest 4 (pendings n r @ [d])) \<and> loop_left n \<le> loop_left n' + 1"
proof -
  define l where "l = nt_loops n r"
  have r01: "r = 0 \<or> r = 1" and r: "r \<le> 1" "message_ok n"
    using inv d by (auto simp: loop_inv_def)
  have l: "loop_ok l" and s: "unat (lp_send l) + 1 < 2 ^ 31"
    using r01 inv room by (auto simp: loop_inv_def l_def loop_left_def)
  define i where "i = unat (lp_send l) mod 4"
  have "i < length (lp_msgs l)"
    using l by (simp add: loop_ok_def i_def)
  then have pk: "peek i 1 (lp_msgs l) = Inr [lp_msgs l ! i]" and "lp_msgs l ! i \<in> set (lp_msgs l)"
    by (simp_all add: peek_one del: One_nat_def)
  then have "length (lm_data (lp_msgs l ! i)) = MAX_UDP_PACKET_DATA_SIZE"
    using l by (simp add: loop_ok_def)
  then have "0 + length d \<le> length (lm_data (lp_msgs l ! i))"
    using d by simp
  then obtain d' where d0: "poke 0 d (lm_data (lp_msgs l ! i)) = Inr d'"
    using poke_total by blast
  then have d': "length d' = MAX_UDP_PACKET_DATA_SIZE" "take (length d) d' = d"
    using length_poke [OF d0] poke_take_through [OF d0] \<open>length (lm_data (lp_msgs l ! i)) = MAX_UDP_PACKET_DATA_SIZE\<close> by simp_all
  define l' where "l' = l\<lparr>lp_send := lp_send l + 1, lp_msgs := (lp_msgs l)[i := \<lparr>lm_data = d', lm_len = of_nat (length d)\<rparr>]\<rparr>"
  have ok: "loop_ok l'" "pending l' = latest 4 (pending l @ [d])"
    using send_pending [OF l d [THEN conjunct2] s refl d'] by (simp_all add: l'_def i_def Let_def)
  have "loop_put r d n = Inr (n\<lparr>nt_loops := (nt_loops n)(r := l')\<rparr>)"
    using r(1) d pk d0 by (simp add: loop_put_def NET_SendLoopPacket_def Let_def l_def [symmetric] unat_and_3
        i_def [symmetric] l'_def)
  moreover have "unat (lp_send l') \<le> unat (lp_send (nt_loops n r)) + 1"
    using s by (simp add: l'_def unat_u32_add l_def)
  moreover have "message_ok (n\<lparr>nt_loops := (nt_loops n)(r := l')\<rparr>)"
    using r(2) by (simp add: message_ok_def)
  ultimately show ?thesis
    using ring_changed [OF inv r(1), of "n\<lparr>nt_loops := (nt_loops n)(r := l')\<rparr>" l' 1] ok
    by (simp add: pendings_def l_def)
qed

lemma loop_get_start:
  assumes "loop_ok l"
  defines "l' \<equiv> skip_lost l"
  shows "unat (lp_get l') = first_kept l" "lp_send l' = lp_send l" "lp_msgs l' = lp_msgs l" "loop_ok l'"
    "sint (lp_get l') \<ge> sint (lp_send l') \<longleftrightarrow> pending l = []"
proof -
  let ?s = "unat (lp_send l)" and ?g = "unat (lp_get l)"
  have gs: "?g \<le> ?s" "?s < 2 ^ 31"
    using assms(1) by (simp_all add: loop_ok_def word_le_nat_alt)
  have diff: "unat (lp_send l - lp_get l) = ?s - ?g"
    using gs by (simp add: unat_sub word_le_nat_alt)
  have "sint (lp_send l - lp_get l) = int (?s - ?g)"
    using gs diff by (subst sint_u32_small) simp_all
  then have test: "4 < sint (lp_send l - lp_get l) \<longleftrightarrow> 4 < ?s - ?g"
    by linarith
  show g: "unat (lp_get l') = first_kept l"
  proof (cases "4 < ?s - ?g")
    case True
    then have "unat (lp_send l - 4) = ?s - 4"
      by (simp add: unat_sub word_le_nat_alt)
    then show ?thesis
      using True by (simp add: l'_def skip_lost_def test first_kept_def)
  next
    case False
    then show ?thesis
      using gs by (simp add: l'_def skip_lost_def test first_kept_def)
  qed
  show sm: "lp_send l' = lp_send l" "lp_msgs l' = lp_msgs l"
    by (simp_all add: l'_def skip_lost_def)
  have "first_kept l \<le> ?s"
    using gs by (simp add: first_kept_def)
  then show "loop_ok l'"
    using assms(1) g sm by (simp add: loop_ok_def word_le_nat_alt)
  have "sint (lp_get l') = int (first_kept l)" "sint (lp_send l') = int ?s"
    using g sm gs \<open>first_kept l \<le> ?s\<close> sint_u32_small [of "lp_get l'"] sint_u32_small [of "lp_send l'"] by simp_all
  then show "sint (lp_get l') \<ge> sint (lp_send l') \<longleftrightarrow> pending l = []"
    unfolding pending_def by (simp only: of_nat_le_iff map_is_Nil_conv upt_eq_Nil_conv) auto
qed

lemma loop_get_law:
  assumes inv: "loop_inv n" and r: "r \<le> 1"
  defines "q \<equiv> pendings n r"
  shows "\<exists>n'. loop_get r n = Inr (case q of [] \<Rightarrow> None | d # _ \<Rightarrow> Some d, n') \<and> loop_inv n' \<and>
    pendings n' = (pendings n)(r := tl q) \<and> loop_left n \<le> loop_left n'"
proof -
  define l where "l = nt_loops n r"
  define l1 where "l1 = skip_lost l"
  have "r = 0 \<or> r = 1"
    using r by auto
  then have l: "loop_ok l" and mok: "message_ok n"
    using inv by (auto simp: loop_inv_def l_def)
  have q: "q = pending l"
    by (simp add: q_def pendings_def l_def)
  note st = loop_get_start [OF l, folded l1_def]
  have kept: "first_kept l1 = first_kept l"
    using st(1,2) by (simp add: first_kept_def)
  then have p1: "pending l1 = q"
    using st(2,3) by (simp add: pending_def q)
  show ?thesis
  proof (cases q)
    case Nil
    then have "loop_get r n = Inr (None, n\<lparr>nt_loops := (nt_loops n)(r := l1)\<rparr>)"
      using st(5) r by (simp add: loop_get_def NET_GetLoopPacket_def Let_def l_def [symmetric] l1_def [symmetric] q)
    moreover have "message_ok (n\<lparr>nt_loops := (nt_loops n)(r := l1)\<rparr>)"
      using mok by (simp add: message_ok_def)
    ultimately show ?thesis
      using ring_changed [OF inv r, of "n\<lparr>nt_loops := (nt_loops n)(r := l1)\<rparr>" l1 0] Nil p1 st(2,4)
      by (simp add: l_def)
  next
    case (Cons d q')
    have lt: "first_kept l < unat (lp_send l)"
      using Cons by (auto simp: q pending_def intro: ccontr)
    define i where "i = first_kept l mod 4"
    define m where "m = lp_msgs l ! i"
    have m: "m \<in> set (lp_msgs l)" and pk: "peek i 1 (lp_msgs l) = Inr [m]"
    proof -
      have "i < length (lp_msgs l)"
        using l by (simp add: loop_ok_def i_def)
      then show "m \<in> set (lp_msgs l)" "peek i 1 (lp_msgs l) = Inr [m]"
        by (simp_all add: m_def peek_one del: One_nat_def)
    qed
    define l2 where "l2 = l1\<lparr>lp_get := lp_get l1 + 1\<rparr>"
    have len: "length (lm_data m) = MAX_UDP_PACKET_DATA_SIZE" "unat (lm_len m) \<le> MAX_UDP_PACKET_DATA_SIZE"
      using l m by (simp_all add: loop_ok_def)
    then have bs: "peek 0 (unat (lm_len m)) (lm_data m) = Inr (msg_bytes m)" "length (msg_bytes m) = unat (lm_len m)"
      by (simp_all add: peek_def msg_bytes_def)
    have "0 + length (msg_bytes m) \<le> length (sb_data (nt_buf n))"
      using len bs(2) mok by (simp add: message_ok_def)
    then obtain dat where dat0: "poke 0 (msg_bytes m) (sb_data (nt_buf n)) = Inr dat"
      using poke_total by blast
    then have dat: "length dat = length (sb_data (nt_buf n))" "take (unat (lm_len m)) dat = msg_bytes m"
      using length_poke [OF dat0] poke_take_through [OF dat0] bs(2) by simp_all
    have d: "d = msg_bytes m" "q' = map (\<lambda>k. msg_bytes (lp_msgs l ! (k mod 4))) [Suc (first_kept l)..<unat (lp_send l)]"
      using Cons lt by (simp_all add: q pending_def upt_conv_Cons m_def i_def)
    have g2: "unat (lp_get l2) = first_kept l + 1"
      using st(1) lt l by (simp add: l2_def loop_ok_def unat_u32_add)
    have sl: "lp_send l2 = lp_send l" "lp_msgs l2 = lp_msgs l"
      using st(2,3) by (simp_all add: l2_def)
    have "unat (lp_send l) - 4 \<le> first_kept l"
      by (simp add: first_kept_def)
    then have k2: "first_kept l2 = Suc (first_kept l)"
      using g2 sl by (simp add: first_kept_def [of l2])
    have p2: "pending l2 = q'"
      unfolding pending_def k2 sl d(2) ..
    have ok2: "loop_ok l2"
      using g2 sl lt l by (simp add: loop_ok_def word_le_nat_alt)
    define n' where "n' = (set_buf (\<lambda>b. b\<lparr>sb_data := dat, sb_cursize := lm_len m\<rparr>) (n\<lparr>nt_loops := (nt_loops n)(r := l2)\<rparr>))
      \<lparr>nt_from := no_adr\<lparr>na_type := NA_LOOPBACK\<rparr>\<rparr>"
    have "\<not> sb_maxsize (nt_buf n) < lm_len m"
      using len mok by (simp add: message_ok_def word_less_nat_alt)
    moreover have "pending l \<noteq> []"
      using Cons by (simp add: q)
    ultimately have "NET_GetLoopPacket r n = Inr (True, n')"
      using st r sl(2) pk bs dat dat0 by (simp add: NET_GetLoopPacket_def Let_def l_def [symmetric] l1_def [symmetric]
          unat_and_3 i_def [symmetric] l2_def [symmetric] n'_def)
    moreover have "sz_contents (nt_buf n') = d"
      using dat d by (simp add: n'_def sz_contents_def)
    ultimately have "loop_get r n = Inr (Some d, n')"
      by (simp add: loop_get_def)
    moreover have "nt_loops n' = (nt_loops n)(r := l2)" "message_ok n'"
      using mok dat(1) by (simp_all add: n'_def message_ok_def)
    ultimately show ?thesis
      using ring_changed [OF inv r, of n' l2 0] ok2 p2 sl(1) Cons by (simp add: l_def)
  qed
qed

interpretation loops: lossy_queues loop_inv pendings loop_left 4
  "\<lambda>r d. r \<le> 1 \<and> length d \<le> MAX_UDP_PACKET_DATA_SIZE" "\<lambda>r. r \<le> 1" loop_put loop_get
  by unfold_locales (rule loop_put_law loop_get_law; assumption)+

fun loop_session :: "net \<Rightarrow> u8 list event list \<Rightarrow> u8 list option list outcome" where
  "loop_session n [] = Inr []"
| "loop_session n (Put r d # es) = bindE (loop_put r d n) (\<lambda>n. loop_session n es)"
| "loop_session n (Get r # es) = bindE (loop_get r n) (\<lambda>(x, n). bindE (loop_session n es) (\<lambda>xs. Inr (x # xs)))"

lemma loop_session_run: "loop_session n es = loops.run n es"
proof (induction n es rule: loop_session.induct)
  case (3 n r es)
  then show ?case
    by (cases "loop_get r n") auto
qed (auto intro: bindE_cong)

text \<open>
  C21. The loopback rings are queues that keep the last four messages: in any interleaving of messages
  sent and read at the two ends, every read returns the oldest message not yet read among the last
  four sent to that end, unchanged, and nothing when there is none; no message is too long for its
  slot, no read leaves the arrays, and the two directions do not disturb each other.
\<close>

theorem loopback_delivers:
  assumes "loop_inv n" and "length es \<le> loop_left n"
    and "\<And>r d. Put r d \<in> set es \<Longrightarrow> r \<le> 1 \<and> length d \<le> MAX_UDP_PACKET_DATA_SIZE"
    and "\<And>r. Get r \<in> set es \<Longrightarrow> r \<le> 1"
  shows "loop_session n es = Inr (queue_run 4 (pendings n) es)"
  unfolding loop_session_run using assms by (intro loops.run_queue) auto

definition empty_net :: net where
  "empty_net = \<lparr>nt_loops = (\<lambda>_. \<lparr>lp_msgs = replicate 4 \<lparr>lm_data = replicate 8346 0, lm_len = 0\<rparr>, lp_get = 0, lp_send = 0\<rparr>),
     nt_message = \<lparr>nm_buf = \<lparr>sb_overflow = 0, sb_data = replicate 0x10000 0, sb_maxsize = 0x10000, sb_cursize = 0\<rparr>,
       nm_readcount = 0, nm_badread = False\<rparr>,
     nt_from = no_adr, nt_split = replicate 16 blank_split, nt_oldest = 0, nt_seq = 1, nt_socket = (\<lambda>_. True), nt_sent = []\<rparr>"

lemma empty_net_ok: "loop_inv empty_net" "loop_left empty_net = 2147483647" "pendings empty_net = (\<lambda>_. [])"
  by (simp_all add: empty_net_def loop_inv_def loop_ok_def message_ok_def loop_left_def pendings_def pending_def fun_eq_iff)

theorem loopback_delivers_witness:
  "loop_session empty_net [Put 0 [1], Put 1 [9, 9], Put 0 [2], Get 1, Put 0 [3], Put 0 [4], Put 0 [5], Get 0, Get 0, Get 1] =
     Inr [Some [9, 9], Some [2], Some [3], None]"
proof -
  have "loop_session empty_net [Put 0 [1], Put 1 [9, 9], Put 0 [2], Get 1, Put 0 [3], Put 0 [4], Put 0 [5], Get 0, Get 0, Get 1] =
     Inr (queue_run 4 (pendings empty_net)
       [Put 0 [1], Put 1 [9, 9], Put 0 [2], Get 1, Put 0 [3], Put 0 [4], Put 0 [5], Get 0, Get 0, Get 1])"
    by (rule loopback_delivers [OF empty_net_ok(1)]) (auto simp: empty_net_ok)
  then show ?thesis
    by (simp add: empty_net_ok latest_def)
qed

section \<open>Long datagrams\<close>

text \<open>
  The total a split datagram announces is masked and not shifted: it is 0 or at least 16, so
  \<^verbatim>\<open>NET_GetLong\<close> rejects every one, before it touches its table.
\<close>

lemma masked_total: "b AND 0xF0 = (0 :: u8) \<or> 16 \<le> unat (b AND 0xF0)"
proof (cases "b AND 0xF0 = 0")
  case False
  have "(0xF0 :: u8) = push_bit 4 (mask 4)"
    by (simp add: mask_eq_exp_minus_1 push_bit_eq_mult)
  then have "take_bit 4 (b AND 0xF0) = 0"
    by (auto intro!: bit_word_eqI simp: bit_simps)
  then have "unat (b AND 0xF0) mod 2 ^ 4 = 0"
    by (metis take_bit_eq_mod unsigned_0 unsigned_take_bit_eq)
  then have "16 dvd unat (b AND 0xF0)"
    by (simp add: dvd_eq_mod_eq_0)
  then show ?thesis
    using False dvd_imp_le [of 16 "unat (b AND 0xF0)"] by (auto simp: unat_gt_0)
qed simp

lemma GetLong_rejects:
  assumes "unat (sb_cursize (nt_buf n)) \<le> length (sb_data (nt_buf n))"
  shows "NET_GetLong n = Inr (False, n)"
proof (cases "sb_cursize (nt_buf n) < 9")
  case False
  then have l: "9 \<le> length (sb_data (nt_buf n))"
    using assms by (simp add: word_less_nat_alt)
  then obtain seq where seq: "load32 4 (sb_data (nt_buf n)) = Inr seq"
    using load32_total [of 4 "sb_data (nt_buf n)"] by auto
  define b where "b = sb_data (nt_buf n) ! 8"
  have pk: "peek 8 1 (sb_data (nt_buf n)) = Inr [b]"
    using l by (simp add: peek_one b_def del: One_nat_def)
  define total number where "total = (ucast (b AND 0xF0) :: u32)" and "number = (ucast (drop_bit 4 b) :: u32)"
  have "unat total = unat (b AND 0xF0)"
    by (simp add: total_def)
  then have "number \<ge> total \<or> total > 6"
    using masked_total [of b] by (auto simp: total_def word_less_nat_alt)
  then show ?thesis
    using False seq pk by (auto simp: NET_GetLong_def Let_def number_def total_def)
qed (simp add: NET_GetLong_def)

fun chop :: "nat \<Rightarrow> 'a list \<Rightarrow> 'a list list" where
  "chop k xs = (if xs = [] \<or> k = 0 then [] else take k xs # chop k (drop k xs))"

declare chop.simps [simp del]

lemma concat_chop: "0 < k \<Longrightarrow> concat (chop k xs) = xs"
  by (induction k xs rule: chop.induct) (subst chop.simps, simp)

lemma chop_small: "c \<in> set (chop k xs) \<Longrightarrow> length c \<le> k"
proof (induction k xs rule: chop.induct)
  case (1 k xs)
  then show ?case
    by (cases "xs = [] \<or> k = 0") (auto simp: chop.simps [of k xs])
qed

definition split_datagrams :: "u32 \<Rightarrow> nat \<Rightarrow> u8 list \<Rightarrow> u8 list list" where
  "split_datagrams seq number data =
     map (\<lambda>(i, c). split_header seq i (length data + 1) @ c) (List.enumerate number (chop SPLIT_UDP_PACKET_SIZE data))"

lemma send_chunks_all:
  assumes "\<And>trace sock to bs. sendto trace (sock, to, bs) = int (length bs)"
    and "sent + len = length data"
  shows "send_chunks sendto sock to seq count data sent number len trace =
    Inr (int (length data), trace @ map (\<lambda>(i, c). (sock, to, split_header seq i count @ c))
      (List.enumerate number (chop SPLIT_UDP_PACKET_SIZE (drop sent data))))"
  using assms(2)
proof (induction len arbitrary: sent number trace rule: less_induct)
  case (less len)
  show ?case
  proof (cases "len = 0")
    case True
    then show ?thesis
      using less(2) by (subst send_chunks.simps, subst chop.simps) simp
  next
    case False
    define size where "size = (if len > SPLIT_UDP_PACKET_SIZE then SPLIT_UDP_PACKET_SIZE else len)"
    have size: "0 < size" "size \<le> len" "take size (drop sent data) = take SPLIT_UDP_PACKET_SIZE (drop sent data)"
      "drop (sent + size) data = drop SPLIT_UDP_PACKET_SIZE (drop sent data)"
      using False less(2) by (auto simp: size_def add.commute)
    have "peek sent size data = Inr (take SPLIT_UDP_PACKET_SIZE (drop sent data))"
      using size less(2) by (simp add: peek_def)
    moreover have "length (split_header seq number count @ take SPLIT_UDP_PACKET_SIZE (drop sent data)) = size + 9"
      using size(2) less(2) by (simp add: split_header_def flip: size(3))
    ultimately show ?thesis
      using False size less by (subst send_chunks.simps, subst chop.simps)
        (simp add: size_def [symmetric] Let_def assms(1))
  qed
qed

lemma length_split_datagrams: "d \<in> set (split_datagrams seq number data) \<Longrightarrow> length d \<le> MAX_UDP_ROUTABLE_SIZE"
  using chop_small [of _ SPLIT_UDP_PACKET_SIZE data]
  by (fastforce simp: split_datagrams_def split_header_def in_set_enumerate_eq)

lemma payload_split_datagrams: "concat (map (drop 9) (split_datagrams seq number data)) = data"
proof -
  have "map (drop 9) (split_datagrams seq number data) = map snd (List.enumerate number (chop SPLIT_UDP_PACKET_SIZE data))"
    unfolding split_datagrams_def map_map by (rule map_cong) (auto simp: split_header_def bytes32_def)
  then show ?thesis
    by (simp add: concat_chop)
qed

text \<open>
  What the receiving end does with any list of split datagrams from one address.
\<close>

lemma queue_loop_split:
  assumes "message_ok n" and "\<And>d. d \<in> set ds \<Longrightarrow> 4 \<le> length d \<and> length d \<le> MAX_UDP_ROUTABLE_SIZE \<and> take 4 d = bytes32 0xFFFFFFFE"
    and "\<not> banned from" and "sa_family from = AF_INET"
  shows "\<exists>n'. queue_loop banned announce sock (map (\<lambda>d. Received d from) ds) n = Inr (False, [], n') \<and>
    nt_split n' = nt_split n \<and> nt_loops n' = nt_loops n \<and> nt_sent n' = nt_sent n"
  using assms(1,2)
proof (induction ds arbitrary: n)
  case (Cons d ds)
  have d: "4 \<le> length d" "length d \<le> MAX_UDP_ROUTABLE_SIZE" "take 4 d = bytes32 0xFFFFFFFE"
    using Cons.prems(2) by simp_all
  have room: "8346 \<le> length (sb_data (nt_buf n))"
    using Cons.prems(1) by (simp add: message_ok_def)
  obtain dat where dat: "poke 0 d (sb_data (nt_buf n)) = Inr dat"
    using poke_total [of 0 d "sb_data (nt_buf n)"] d(2) room by auto
  have dl: "length dat = length (sb_data (nt_buf n))" "take (length d) dat = d"
    using length_poke [OF dat] poke_take_through [OF dat] by simp_all
  have "take 4 dat = take 4 (take (length d) dat)"
    using d(1) by (simp add: min_def)
  then have first: "load32 0 dat = Inr 0xFFFFFFFE"
    using d(3) dl room by (simp add: load32_def peek_def)
  define adr where "adr = (nt_from n)\<lparr>na_type := NA_IP, na_ip := sa_addr from, na_port := sa_port from\<rparr>"
  define n1 where "n1 = set_buf (\<lambda>b. b\<lparr>sb_data := dat, sb_cursize := of_nat (length d)\<rparr>) (n\<lparr>nt_from := adr\<rparr>)"
  have "unat (of_nat (length d) :: u32) = length d"
    using d(2) by (simp add: unat_of_nat)
  then have long: "NET_GetLong n1 = Inr (False, n1)"
    using dl d(2) room by (intro GetLong_rejects) (simp add: n1_def)
  have "queue_loop banned announce sock (map (\<lambda>d. Received d from) (d # ds)) n =
      queue_loop banned announce sock (map (\<lambda>d. Received d from) ds) n1"
    using d(2) dat first long [unfolded n1_def] assms(3,4) by (simp add: SockadrToNetadr_def adr_def [symmetric] n1_def)
  moreover have "message_ok n1"
    using Cons.prems(1) dl by (simp add: message_ok_def n1_def)
  ultimately show ?case
    using Cons.IH [of n1] Cons.prems(2) by (simp add: n1_def)
qed simp

text \<open>
  A message of more than 1400 bytes is sent as datagrams of at most 1400 bytes whose payloads, in
  order, are the message; but a receiver that takes them all, complete and in order, never delivers
  a message: each is rejected and nothing is stored (\<^verbatim>\<open>length-1 / SPLIT_UDP_PACKET_SIZE\<close> miscounts the
  datagrams, and the receiver masks the count with \<open>0xF0\<close>).
\<close>

theorem long_messages_lost:
  assumes "1400 < length data" "length data \<le> MAX_UDP_PACKET_DATA_SIZE"
    and "\<And>trace sock to bs. sendto trace (sock, to, bs) = int (length bs)"
    and "message_ok receiver" "nt_socket receiver sock'" "sock' \<le> 2" "\<not> banned from" "sa_family from = AF_INET"
  shows "\<exists>ds sender'. NET_SendLong sendto sock to data sender = Inr (int (length data), sender') \<and>
    nt_sent sender' = nt_sent sender @ map (\<lambda>d. (sock, to, d)) ds \<and>
    concat (map (drop 9) ds) = data \<and> (\<forall>d \<in> set ds. length d \<le> MAX_UDP_ROUTABLE_SIZE) \<and>
    (\<exists>receiver'. NET_QueuePacket banned announce sock' (map (\<lambda>d. Received d from) ds) receiver = Inr (False, [], receiver') \<and>
       nt_split receiver' = nt_split receiver)"
proof -
  define seq where "seq = (let s = nt_seq sender + 1 in if sint s < 0 then 1 else s)"
  define ds where "ds = split_datagrams seq 0 data"
  have "NET_SendLong sendto sock to data sender = Inr (int (length data),
      sender\<lparr>nt_seq := seq, nt_sent := nt_sent sender @ map (\<lambda>d. (sock, to, d)) ds\<rparr>)"
    using assms(1,2) send_chunks_all [of sendto 0 "length data" data sock to seq "length data + 1" 0 "nt_sent sender", OF assms(3)]
    by (simp add: NET_SendLong_def Let_def seq_def ds_def split_datagrams_def case_prod_unfold comp_def)
  moreover have "d \<in> set ds \<Longrightarrow> 4 \<le> length d \<and> length d \<le> MAX_UDP_ROUTABLE_SIZE \<and> take 4 d = bytes32 0xFFFFFFFE" for d
    using length_split_datagrams [of d seq 0 data] by (auto simp: ds_def split_datagrams_def split_header_def)
  then have "\<exists>r'. NET_QueuePacket banned announce sock' (map (\<lambda>d. Received d from) ds) receiver = Inr (False, [], r') \<and>
      nt_split r' = nt_split receiver"
    using queue_loop_split [of "set_buf (\<lambda>b. b\<lparr>sb_cursize := 0\<rparr>) receiver" ds banned "from" announce sock'] assms
    by (auto simp: NET_QueuePacket_def message_ok_def)
  ultimately show ?thesis
    using length_split_datagrams payload_split_datagrams by (auto simp: ds_def)
qed

theorem long_messages_lost_witness:
  "\<exists>ds r'. concat (map (drop 9) ds) = replicate 3000 (7 :: u8) \<and>
    NET_QueuePacket (\<lambda>_. False) True 1 (map (\<lambda>d. Received d \<lparr>sa_family = AF_INET, sa_addr = (10, 0, 0, 1), sa_port = 0\<rparr>) ds) empty_net =
      Inr (False, [], r')"
  using long_messages_lost [of "replicate 3000 7" "\<lambda>_ d. int (length (snd (snd d)))" empty_net 1 "\<lambda>_. False"
    "\<lparr>sa_family = AF_INET, sa_addr = (10, 0, 0, 1), sa_port = 0\<rparr>"
    0 "\<lparr>sa_family = AF_INET, sa_addr = (10, 0, 0, 1), sa_port = 0\<rparr>" empty_net True]
  by (simp add: empty_net_def message_ok_def) blast

end
