(* ===== verification/InfoString.thy ===== *)
theory InfoString
  imports Tokens
begin

text \<open>
  \<^verbatim>\<open>info.c\<close>: the backslash-separated key/value strings of the server and its clients. A string is the
  list of its characters; the functions that change a string in place return the new one. The local
  arrays of the source are not checked there: a key or value that does not fit them is a fault here.
\<close>

definition bslash :: u8 where
  "bslash = cchar CHR 0x5C"

definition MAX_INFO_KEY :: nat where
  "MAX_INFO_KEY = 64"

definition Info_IsKeyImportant :: "u8 list \<Rightarrow> bool" where
  "Info_IsKeyImportant key \<longleftrightarrow> at0 key = cchar CHR ''*'' \<or> key = cstr ''name'' \<or> key = cstr ''model''
     \<or> key = cstr ''rate'' \<or> key = cstr ''cl_updaterate'' \<or> key = cstr ''cl_lw'' \<or> key = cstr ''cl_lc''
     \<or> key = cstr ''tracker''"

definition skip_bslash :: "u8 list \<Rightarrow> u8 list" where
  "skip_bslash s = (if at0 s = bslash then drop 1 s else s)"

text \<open>Copying up to a backslash into a local array of \<open>n\<close> bytes, with the terminator.\<close>

definition upto_bslash :: "u8 list \<Rightarrow> u8 list" where
  "upto_bslash s = takeWhile (\<lambda>c. c \<noteq> bslash) s"

definition from_bslash :: "u8 list \<Rightarrow> u8 list" where
  "from_bslash s = dropWhile (\<lambda>c. c \<noteq> bslash) s"

definition copy_field :: "nat \<Rightarrow> u8 list \<Rightarrow> (u8 list \<times> u8 list) outcome" where
  "copy_field n s =
     (if length (upto_bslash s) < n then Inr (upto_bslash s, from_bslash s) else Inl OutOfBounds)"

lemma length_from_bslash: "length (from_bslash s) \<le> length s"
  by (simp add: from_bslash_def length_dropWhile_le)

lemma length_skip_bslash: "length (skip_bslash s) \<le> length s"
  by (simp add: skip_bslash_def)

lemma copy_field_shrinks: "copy_field n s = Inr (f, rest) \<Longrightarrow> length rest \<le> length s"
  using length_from_bslash by (auto simp: copy_field_def split: if_splits)

section \<open>Looking for the largest key\<close>

text \<open>The array \<^verbatim>\<open>largest_key\<close> is cleared by its first character.\<close>

function largest_loop :: "u8 list \<Rightarrow> u8 list \<Rightarrow> nat \<Rightarrow> u8 list outcome" where
  "largest_loop s largest best =
     (if s = [] then Inr largest
      else bindE (copy_field 256 s) (\<lambda>(key, s1).
        if s1 = [] then Inr largest
        else bindE (copy_field 256 (drop 1 s1)) (\<lambda>(val, s2).
          let total = length key + length val; s3 = drop 1 s2 in
          if total > best \<and> \<not> Info_IsKeyImportant key then largest_loop s3 key total
          else largest_loop s3 largest best)))"
  by pat_completeness auto

termination
  by (relation "measure (\<lambda>(s, _, _). length s)") (auto dest!: copy_field_shrinks simp: Suc_le_eq neq_Nil_conv)

declare largest_loop.simps [simp del]

definition Info_FindLargestKey :: "u8 list \<Rightarrow> u8 list outcome" where
  "Info_FindLargestKey s = largest_loop (skip_bslash s) [] 0"

section \<open>Printing\<close>

text \<open>What the console receives.\<close>

function print_loop :: "u8 list \<Rightarrow> u8 list \<Rightarrow> u8 list outcome" where
  "print_loop s out =
     (if s = [] then Inr out
      else bindE (copy_field 1024 s) (\<lambda>(key0, s1).
        let key = (if length key0 < 20 then key0 @ replicate (20 - length key0) 32 else key0) in
        if s1 = [] then Inr (out @ key @ cstr ''Info_Print: Key without value ('' @ key @ cstr '').'' @ [10])
        else bindE (copy_field 1024 (drop 1 s1)) (\<lambda>(val, s2).
          print_loop (drop 1 s2) (out @ key @ val @ [10]))))"
  by pat_completeness auto

termination
  by (relation "measure (\<lambda>(s, _). length s)") (auto dest!: copy_field_shrinks simp: Suc_le_eq neq_Nil_conv)

declare print_loop.simps [simp del]

definition Info_Print :: "u8 list \<Rightarrow> u8 list outcome" where
  "Info_Print s = print_loop (skip_bslash s) []"

section \<open>Removing keys\<close>

lemma pair_shrinks:
  assumes "from_bslash (skip_bslash s) \<noteq> []"
    and "copy_field m (skip_bslash s) = Inr (pkey, s1)" and "copy_field n (drop 1 s1) = Inr (val, s2)"
  shows "length s2 < length s"
proof -
  have "s1 = from_bslash (skip_bslash s)"
    using assms(2) by (auto simp: copy_field_def split: if_splits)
  then have "0 < length s1" "length s1 \<le> length s"
    using assms(1) length_from_bslash [of "skip_bslash s"] length_skip_bslash [of s] by auto
  then show ?thesis
    using copy_field_shrinks [OF assms(3)] by (cases s1) simp_all
qed

text \<open>\<open>front\<close> is the text before \<^verbatim>\<open>start\<close>; a string without a further backslash ends the search.\<close>

function remove_loop :: "u8 list \<Rightarrow> u8 list \<Rightarrow> u8 list \<Rightarrow> u8 list outcome" where
  "remove_loop key front s =
     (if from_bslash (skip_bslash s) = [] then
        (if length (skip_bslash s) \<le> 1024 then Inr (front @ s) else Inl OutOfBounds)
      else bindE (copy_field 1024 (skip_bslash s)) (\<lambda>(pkey, s1).
        bindE (copy_field 1024 (drop 1 s1)) (\<lambda>(val, s2).
          if key = pkey then Inr (front @ s2)
          else if s2 = [] then Inr (front @ s)
          else remove_loop key (front @ take (length s - length s2) s) s2)))"
  by pat_completeness auto

termination
  by (relation "measure (\<lambda>(_, _, s). length s)") (auto dest: pair_shrinks)

declare remove_loop.simps [simp del]

definition Info_RemoveKey :: "u8 list \<Rightarrow> u8 list \<Rightarrow> u8 list outcome" where
  "Info_RemoveKey s key = (if bslash \<in> set key then Inr s else remove_loop key [] s)"

section \<open>Looking up a value\<close>

text \<open>The arrays have 1024 bytes; a field of more than 1021 ends the search with an empty value.\<close>

function value_loop :: "u8 list \<Rightarrow> u8 list \<Rightarrow> u8 list" where
  "value_loop key s =
     (if from_bslash s = [] \<or> length (upto_bslash s) > 1021 then []
      else let s1 = drop 1 (from_bslash s); val = upto_bslash s1; s2 = from_bslash s1 in
        if length val > 1021 then []
        else if key = upto_bslash s then val
        else if s2 = [] then []
        else value_loop key (drop 1 s2))"
  by pat_completeness auto

termination
proof (relation "measure (\<lambda>(_, s). length s)")
  fix key s s1 val s2 :: "u8 list"
  assume "\<not> (from_bslash s = [] \<or> length (upto_bslash s) > 1021)" "s1 = drop 1 (from_bslash s)" "s2 = from_bslash s1"
  then show "((key, drop 1 s2), key, s) \<in> measure (\<lambda>(_, s). length s)"
    using length_from_bslash [of s] length_from_bslash [of s1] by (cases "from_bslash s") auto
qed simp

declare value_loop.simps [simp del]

definition Info_ValueForKey :: "u8 list \<Rightarrow> u8 list \<Rightarrow> u8 list" where
  "Info_ValueForKey s key = value_loop key (skip_bslash s)"

section \<open>Removing every key with a prefix\<close>

text \<open>
  The loop over the pairs, starting over after a removal; \<open>all\<close> is the whole string, \<open>s\<close> the rest. The
  first argument bounds the number of removals: the source has no bound, and \<open>Undefined\<close> stands for a
  loop that goes on. The length of the string is enough on every string of pairs (proved below), since
  a removal shortens it.
\<close>

function prefixed_loop :: "nat \<Rightarrow> u8 \<Rightarrow> u8 list \<Rightarrow> u8 list \<Rightarrow> u8 list outcome" where
  "prefixed_loop fuel pre all s =
     (if from_bslash (skip_bslash s) = [] then
        (if length (skip_bslash s) \<le> 1024 then Inr all else Inl OutOfBounds)
      else bindE (copy_field 1024 (skip_bslash s)) (\<lambda>(pkey, s1).
        bindE (copy_field 1024 (drop 1 s1)) (\<lambda>(val, s2).
          if at0 pkey = pre then
            (case fuel of 0 \<Rightarrow> Inl Undefined
             | Suc fuel' \<Rightarrow> bindE (Info_RemoveKey all pkey) (\<lambda>all'.
                 if all' = [] then Inr all' else prefixed_loop fuel' pre all' all'))
          else if s2 = [] then Inr all
          else prefixed_loop fuel pre all s2)))"
  by pat_completeness auto

termination
  by (relation "measures [\<lambda>(fuel, _, all, s). fuel, \<lambda>(fuel, _, all, s). length s]") (auto dest: pair_shrinks)

declare prefixed_loop.simps [simp del]

definition Info_RemovePrefixedKeys :: "u8 list \<Rightarrow> u8 \<Rightarrow> u8 list outcome" where
  "Info_RemovePrefixedKeys s pre = prefixed_loop (length s) pre s s"

section \<open>Setting a value\<close>

text \<open>
  The last loop of \<^verbatim>\<open>Info_SetValueForStarKey\<close>: \<^verbatim>\<open>c\<close> is the sign-extended character in an unsigned
  variable, so a character above 127 is a large number there.
\<close>

definition clean_char :: "u8 list \<Rightarrow> u8 \<Rightarrow> u8" where
  "clean_char key c =
     (if strcasecmp_eq key (cstr ''name'') then (if c \<le> 13 then cchar CHR ''_'' else c)
      else let c' = (if isprint_c c then c else cchar CHR ''_'') in
        (if strcasecmp_eq key (cstr ''team'') then tolower_c c' else c'))"

text \<open>\<^verbatim>\<open>snprintf\<close> with a limit of 1023 stores at most 1022 characters and returns the length it wanted.\<close>

definition new_pair :: "u8 list \<Rightarrow> u8 list \<Rightarrow> u8 list" where
  "new_pair key val = bslash # key @ bslash # val"

definition needs :: "u8 list \<Rightarrow> u8 list \<Rightarrow> u8 list \<Rightarrow> int" where
  "needs s val old = int (length val) - int (length old) + int (length s) + 1"

definition set_tail :: "u8 list \<Rightarrow> u8 list \<Rightarrow> u8 list \<Rightarrow> int \<Rightarrow> u8 list outcome" where
  "set_tail s key val maxsize =
     bindE (Info_RemoveKey s key) (\<lambda>s1.
       if val = [] then Inr s1
       else (let newv = take 1022 (new_pair key val); c = min 1023 (length (new_pair key val)) in
         if int (c + length s1 + 1) > maxsize then Inr s1
         else Inr (s1 @ map (clean_char key) newv)))"

text \<open>
  The function calls itself after removing the key \<^verbatim>\<open>*ver\<close> to make room; the first argument bounds
  those calls (a string holds fewer \<^verbatim>\<open>*ver\<close> keys than characters).
\<close>

fun set_loop :: "nat \<Rightarrow> u8 list \<Rightarrow> u8 list \<Rightarrow> u8 list \<Rightarrow> int \<Rightarrow> u8 list outcome" where
  "set_loop fuel s key val maxsize =
     (if bslash \<in> set key \<or> bslash \<in> set val then Inr s
      else if cchar CHR ''\"'' \<in> set key \<or> cchar CHR ''\"'' \<in> set val then Inr s
      else if length key \<ge> MAX_INFO_KEY then Inr s
      else (let v = Info_ValueForKey s key in
        if v \<noteq> [] \<and> needs s val v > maxsize then
          (if Info_ValueForKey s (cstr ''*ver'') \<noteq> [] then
             (case fuel of 0 \<Rightarrow> Inl Undefined
              | Suc fuel' \<Rightarrow> bindE (Info_RemoveKey s (cstr ''*ver'')) (\<lambda>s'. set_loop fuel' s' key val maxsize))
           else Inr s)
        else set_tail s key val maxsize))"

definition Info_SetValueForStarKey :: "u8 list \<Rightarrow> u8 list \<Rightarrow> u8 list \<Rightarrow> int \<Rightarrow> u8 list outcome" where
  "Info_SetValueForStarKey s key val maxsize = set_loop (length s) s key val maxsize"

definition Info_SetValueForKey :: "u8 list \<Rightarrow> u8 list \<Rightarrow> u8 list \<Rightarrow> int \<Rightarrow> u8 list outcome" where
  "Info_SetValueForKey s key val maxsize =
     (if at0 key = cchar CHR ''*'' then Inr s else Info_SetValueForStarKey s key val maxsize)"

section \<open>Strings of pairs\<close>

type_synonym pairs = "(u8 list \<times> u8 list) list"

definition render :: "pairs \<Rightarrow> u8 list" where
  "render kvs = concat (map (\<lambda>(k, v). bslash # k @ bslash # v) kvs)"

definition pairs_ok :: "pairs \<Rightarrow> bool" where
  "pairs_ok kvs \<longleftrightarrow> (\<forall>(k, v) \<in> set kvs. bslash \<notin> set k \<and> bslash \<notin> set v \<and> length k \<le> 1021 \<and> length v \<le> 1021)"

fun delete :: "u8 list \<Rightarrow> pairs \<Rightarrow> pairs" where
  "delete key [] = []"
| "delete key ((k, v) # kvs) = (if key = k then kvs else (k, v) # delete key kvs)"

definition lookup :: "pairs \<Rightarrow> u8 list \<Rightarrow> u8 list" where
  "lookup kvs key = (case map_of kvs key of None \<Rightarrow> [] | Some v \<Rightarrow> v)"

lemma render_simps [simp]:
  "render [] = []" "render ((k, v) # kvs) = bslash # k @ bslash # v @ render kvs"
  by (simp_all add: render_def)

lemma render_eq_Nil [simp]: "render kvs = [] \<longleftrightarrow> kvs = []"
  by (cases kvs) auto

lemma render_append [simp]: "render (xs @ ys) = render xs @ render ys"
  by (simp add: render_def)

lemma pairs_ok_simps [simp]:
  "pairs_ok []"
  "pairs_ok ((k, v) # kvs) \<longleftrightarrow> bslash \<notin> set k \<and> bslash \<notin> set v \<and> length k \<le> 1021 \<and> length v \<le> 1021 \<and> pairs_ok kvs"
  "pairs_ok (xs @ ys) \<longleftrightarrow> pairs_ok xs \<and> pairs_ok ys"
  by (auto simp: pairs_ok_def)

lemma render_starts: "render kvs = [] \<or> (\<exists>t. render kvs = bslash # t)"
  by (cases kvs) auto

lemma skip_bslash_Cons [simp]: "skip_bslash (bslash # s) = s"
  by (simp add: skip_bslash_def at0_def)

lemma fields_key [simp]:
  assumes "bslash \<notin> set k"
  shows "upto_bslash (k @ bslash # t) = k" and "from_bslash (k @ bslash # t) = bslash # t"
  using assms unfolding upto_bslash_def from_bslash_def
  by (simp_all add: takeWhile_append dropWhile_append3) (metis (mono_tags, lifting))+

lemma fields_value [simp]:
  assumes "bslash \<notin> set v"
  shows "upto_bslash (v @ render kvs) = v" and "from_bslash (v @ render kvs) = render kvs"
proof -
  have "upto_bslash (v @ []) = v" "from_bslash (v @ []) = []"
    using assms unfolding upto_bslash_def from_bslash_def by (auto simp: takeWhile_eq_all_conv)
  then show "upto_bslash (v @ render kvs) = v" and "from_bslash (v @ render kvs) = render kvs"
    using render_starts [of kvs] fields_key [OF assms] by auto
qed

lemma copy_fields:
  "bslash \<notin> set k \<Longrightarrow> length k < n \<Longrightarrow> copy_field n (k @ bslash # t) = Inr (k, bslash # t)"
  "bslash \<notin> set v \<Longrightarrow> length v < n \<Longrightarrow> copy_field n (v @ render kvs) = Inr (v, render kvs)"
  by (simp_all add: copy_field_def)

lemma value_loop_render:
  "pairs_ok kvs \<Longrightarrow> kvs \<noteq> [] \<Longrightarrow> value_loop key (drop 1 (render kvs)) = lookup kvs key"
proof (induction kvs)
  case (Cons p kvs)
  obtain k v where p: "p = (k, v)"
    by (cases p)
  show ?case
  proof (cases kvs)
    case Nil
    then show ?thesis
      using Cons.prems p fields_value [of v "[]"] by (auto simp: value_loop.simps [of key] lookup_def Let_def)
  next
    case (Cons q kvs')
    then have "value_loop key (drop 1 (render kvs)) = lookup kvs key"
      using Cons.IH Cons.prems p by simp
    moreover have "render kvs \<noteq> []"
      using Cons by (cases q) simp
    ultimately show ?thesis
      using Cons.prems p by (auto simp: value_loop.simps [of key "k @ _"] lookup_def Let_def)
  qed
qed simp

lemma ValueForKey_render: "pairs_ok kvs \<Longrightarrow> Info_ValueForKey (render kvs) key = lookup kvs key"
proof (cases kvs)
  case Nil
  then show ?thesis
    by (simp add: Info_ValueForKey_def skip_bslash_def at0_def bslash_def cchar_def value_loop.simps
        from_bslash_def lookup_def)
next
  case (Cons p kvs')
  assume "pairs_ok kvs"
  moreover have "skip_bslash (render kvs) = drop 1 (render kvs)"
    using Cons by (cases p) simp
  ultimately show ?thesis
    using value_loop_render [of kvs key] Cons by (simp add: Info_ValueForKey_def)
qed

lemma remove_loop_render:
  "pairs_ok kvs \<Longrightarrow> remove_loop key front (render kvs) = Inr (front @ render (delete key kvs))"
proof (induction kvs arbitrary: front)
  case Nil
  show ?case
    by (simp add: remove_loop.simps skip_bslash_def at0_def bslash_def cchar_def from_bslash_def)
next
  case (Cons p kvs)
  obtain k v where p: "p = (k, v)"
    by (cases p)
  have ok: "bslash \<notin> set k" "bslash \<notin> set v" "length k < 1024" "length v < 1024" "pairs_ok kvs"
    using Cons.prems p by auto
  show ?case
    using ok p Cons.IH [OF ok(5), of "front @ bslash # k @ bslash # v"]
    by (auto simp: remove_loop.simps [of key front "bslash # _"] copy_fields)
qed

lemma RemoveKey_render:
  "pairs_ok kvs \<Longrightarrow> bslash \<notin> set key \<Longrightarrow> Info_RemoveKey (render kvs) key = Inr (render (delete key kvs))"
  by (simp add: Info_RemoveKey_def remove_loop_render)

lemma delete_ok: "pairs_ok kvs \<Longrightarrow> pairs_ok (delete key kvs)"
  by (induction kvs) auto

lemma delete_absent: "key \<notin> fst ` set kvs \<Longrightarrow> delete key kvs = kvs"
  by (induction kvs) auto

lemma delete_filter: "distinct (map fst kvs) \<Longrightarrow> delete key kvs = filter (\<lambda>p. fst p \<noteq> key) kvs"
proof (induction kvs)
  case (Cons p kvs)
  have "filter (\<lambda>p. fst p \<noteq> fst q) kvs = kvs" if "fst q \<notin> fst ` set kvs" for q :: "u8 list \<times> u8 list"
    using that by (induction kvs) auto
  then show ?case
    using Cons by (cases p) auto
qed simp

lemma lookup_delete: "distinct (map fst kvs) \<Longrightarrow> lookup (delete key kvs) k = (if k = key then [] else lookup kvs k)"
proof -
  have "lookup (filter (\<lambda>p. fst p \<noteq> key) kvs) k = (if k = key then [] else lookup kvs k)"
    by (induction kvs) (auto simp: lookup_def)
  then show "distinct (map fst kvs) \<Longrightarrow> ?thesis"
    by (simp add: delete_filter)
qed

section \<open>Keyed stores\<close>

text \<open>
  What the users of an info string rely on: removing a key empties it and leaves the others alone.
\<close>

locale keyed_store =
  fixes get :: "'s \<Rightarrow> 'k \<Rightarrow> 'v" and remove :: "'s \<Rightarrow> 'k \<Rightarrow> 's outcome" and blank :: 'v
    and store :: "'s \<Rightarrow> bool" and name :: "'k \<Rightarrow> bool"
  assumes remove_ok: "store s \<Longrightarrow> name k \<Longrightarrow>
    \<exists>s'. remove s k = Inr s' \<and> store s' \<and> (\<forall>k'. get s' k' = (if k' = k then blank else get s k'))"
begin

lemma remove_all:
  "store s \<Longrightarrow> \<forall>k \<in> set ks. name k \<Longrightarrow>
    \<exists>s'. foldE remove s ks = Inr s' \<and> store s' \<and> (\<forall>k. get s' k = (if k \<in> set ks then blank else get s k))"
proof (induction ks arbitrary: s)
  case (Cons k ks)
  obtain s1 where s1: "remove s k = Inr s1" "store s1" "\<forall>k'. get s1 k' = (if k' = k then blank else get s k')"
    using remove_ok [of s k] Cons.prems by auto
  obtain s2 where "foldE remove s1 ks = Inr s2" "store s2"
    "\<forall>k. get s2 k = (if k \<in> set ks then blank else get s1 k)"
    using Cons.IH [OF s1(2)] Cons.prems(2) by auto
  then show ?case
    using s1 by auto
qed simp

end

definition info_store :: "u8 list \<Rightarrow> bool" where
  "info_store s \<longleftrightarrow> (\<exists>kvs. s = render kvs \<and> pairs_ok kvs \<and> distinct (map fst kvs))"

lemma delete_keys_distinct: "distinct (map fst kvs) \<Longrightarrow> distinct (map fst (delete key kvs))"
  by (simp add: delete_filter distinct_map_filter)

interpretation info: keyed_store Info_ValueForKey Info_RemoveKey "[]" info_store "\<lambda>k. bslash \<notin> set k"
proof
  fix s k :: "u8 list"
  assume "info_store s" and k: "bslash \<notin> set k"
  then obtain kvs where s: "s = render kvs" "pairs_ok kvs" "distinct (map fst kvs)"
    by (auto simp: info_store_def)
  then show "\<exists>s'. Info_RemoveKey s k = Inr s' \<and> info_store s'
      \<and> (\<forall>k'. Info_ValueForKey s' k' = (if k' = k then [] else Info_ValueForKey s k'))"
    using k delete_ok [OF s(2)] delete_keys_distinct [OF s(3)]
    by (auto simp: RemoveKey_render ValueForKey_render lookup_delete info_store_def)
qed

text \<open>
  C16. Info strings are maps: on a string of well-formed pairs with distinct keys,
  \<^verbatim>\<open>Info_ValueForKey\<close> returns the value stored under the key (empty when there is none), and removing
  any list of keys leaves exactly those keys without a value and every other value as it was.
\<close>

theorem info_string_map:
  assumes "pairs_ok kvs" and "distinct (map fst kvs)" and "\<forall>k \<in> set ks. bslash \<notin> set k"
  shows "\<exists>s'. foldE Info_RemoveKey (render kvs) ks = Inr s' \<and>
    (\<forall>k. Info_ValueForKey (render kvs) k = lookup kvs k \<and>
         Info_ValueForKey s' k = (if k \<in> set ks then [] else lookup kvs k))"
proof -
  have "info_store (render kvs)"
    using assms(1,2) by (auto simp: info_store_def)
  from info.remove_all [OF this assms(3)] show ?thesis
    unfolding ValueForKey_render [OF assms(1)] by blast
qed

theorem info_string_map_witness:
  "\<exists>s'. foldE Info_RemoveKey (cstr [CHR 0x5C, CHR ''a'', CHR 0x5C, CHR ''1'', CHR 0x5C, CHR ''b'', CHR 0x5C, CHR ''2''])
      [cstr ''a''] = Inr s' \<and> Info_ValueForKey s' (cstr ''b'') = cstr ''2'' \<and> Info_ValueForKey s' (cstr ''a'') = []"
  using info_string_map [of "[(cstr ''a'', cstr ''1''), (cstr ''b'', cstr ''2'')]" "[cstr ''a'']"]
  by (auto simp: cstr_def cchar_def bslash_def lookup_def simp del: foldE.simps)

section \<open>Setting\<close>

lemma clean_bslash: "clean_char key bslash = bslash"
  by (auto simp: clean_char_def bslash_def cchar_def isprint_c_def tolower_c_def)

lemma set_tail_render:
  assumes "pairs_ok kvs" and "bslash \<notin> set key" and "val \<noteq> []" and "length key + length val \<le> 1020"
    and "int (length key + length val + 2 + length (render (delete key kvs)) + 1) \<le> maxsize"
  shows "set_tail (render kvs) key val maxsize
    = Inr (render (delete key kvs @ [(map (clean_char key) key, map (clean_char key) val)]))"
  using assms by (simp add: set_tail_def RemoveKey_render new_pair_def clean_bslash)

lemma clean_no_bslash: "bslash \<notin> set s \<Longrightarrow> bslash \<notin> set (map (clean_char key) s)"
proof -
  have "clean_char key c = bslash \<Longrightarrow> c = bslash" for c
  proof -
    assume c: "clean_char key c = bslash"
    have "tolower_c x = bslash \<Longrightarrow> x = bslash" for x
    proof (cases "65 \<le> x \<and> x \<le> 90")
      case True
      assume t: "tolower_c x = bslash"
      have "x = bslash - 32"
        using t True by (simp add: tolower_c_def eq_diff_eq)
      then have "x = 60"
        by (simp add: bslash_def cchar_def)
      then show ?thesis using True by simp
    qed (simp add: tolower_c_def)
    note lower = this
    have us: "cchar CHR ''_'' \<noteq> bslash" "tolower_c (cchar CHR ''_'') \<noteq> bslash"
      by (simp_all add: bslash_def cchar_def tolower_c_def)
    have "clean_char key c \<in> {c, cchar CHR ''_'', tolower_c c, tolower_c (cchar CHR ''_'')}"
      unfolding clean_char_def Let_def by simp
    then show "c = bslash"
      using c us lower by (elim insertE emptyE) simp_all
  qed
  then show "bslash \<notin> set s \<Longrightarrow> bslash \<notin> set (map (clean_char key) s)"
    by (metis (no_types, lifting) imageE list.set_map)
qed

text \<open>
  Setting a key and reading it back: on a string of well-formed pairs with distinct keys, when
  the new pair fits, \<^verbatim>\<open>Info_SetValueForKey\<close> replaces the pair of the key, storing the value with the
  characters the engine does not allow replaced; the other values are untouched. The key itself must
  survive the same cleaning.
\<close>

theorem info_set_get:
  assumes "pairs_ok kvs" and "distinct (map fst kvs)" and "map (clean_char key) key = key"
    and "bslash \<notin> set key \<union> set val" and "cchar CHR ''\"'' \<notin> set key \<union> set val" and "at0 key \<noteq> cchar CHR ''*''"
    and "val \<noteq> []" and "length key < 64" and "length val \<le> 900"
    and "int (length (render kvs) + length key + length val + 3) \<le> maxsize"
  shows "\<exists>s'. Info_SetValueForKey (render kvs) key val maxsize = Inr s' \<and>
    (\<forall>k. Info_ValueForKey s' k = (if k = key then map (clean_char key) val else lookup kvs k))"
proof -
  let ?new = "delete key kvs @ [(key, map (clean_char key) val)]"
  have shorter: "length (render (delete key kvs)) \<le> length (render kvs)"
    by (induction kvs) auto
  have room: "\<not> needs (render kvs) val v > maxsize" for v
    using assms(10) by (simp add: needs_def)
  have "Info_SetValueForKey (render kvs) key val maxsize = set_tail (render kvs) key val maxsize"
    using assms(4-6,8) room
    by (simp add: Info_SetValueForKey_def Info_SetValueForStarKey_def MAX_INFO_KEY_def Let_def
        set_loop.simps [of "length _"] del: set_loop.simps)
  also have "... = Inr (render ?new)"
    using set_tail_render [of kvs key val maxsize] assms shorter by simp
  finally have set: "Info_SetValueForKey (render kvs) key val maxsize = Inr (render ?new)" .
  have ok: "pairs_ok ?new"
    using delete_ok [OF assms(1)] clean_no_bslash [of val key] assms(4,8,9) by simp
  have absent: "key \<notin> fst ` set (delete key kvs)"
    using assms(2) by (auto simp: delete_filter)
  have "lookup ?new k = (if k = key then map (clean_char key) val else lookup kvs k)" for k
  proof -
    have "lookup ?new k = (if k = key then map (clean_char key) val else lookup (delete key kvs) k)"
    proof -
      have "map_of (delete key kvs) key = None"
        using absent by (simp add: map_of_eq_None_iff)
      then show ?thesis
        by (cases "map_of (delete key kvs) k") (auto simp: lookup_def map_add_def)
    qed
    then show ?thesis
      by (simp add: lookup_delete [OF assms(2)])
  qed
  then show ?thesis
    using set ValueForKey_render [OF ok] by auto
qed

theorem info_set_get_witness:
  "\<exists>s'. Info_SetValueForKey (render [(cstr ''rate'', cstr ''9999'')]) (cstr ''rate'') (cstr ''20000'') 256 = Inr s' \<and>
    Info_ValueForKey s' (cstr ''rate'') = cstr ''20000''"
  using info_set_get [of "[(cstr ''rate'', cstr ''9999'')]" "cstr ''rate''" "cstr ''20000''" 256]
  by (auto simp: cstr_def cchar_def bslash_def clean_char_def strcasecmp_eq_def tolower_c_def isprint_c_def at0_def)

section \<open>Removing by prefix\<close>

lemma delete_middle:
  "key \<notin> fst ` set xs \<Longrightarrow> delete key (xs @ (key, v) # ys) = xs @ ys"
  by (induction xs) auto

lemma prefixed_render:
  "pairs_ok (xs @ ys) \<Longrightarrow> \<forall>p \<in> set xs. at0 (fst p) \<noteq> pre \<Longrightarrow> length (filter (\<lambda>p. at0 (fst p) = pre) ys) \<le> fuel \<Longrightarrow>
    prefixed_loop fuel pre (render (xs @ ys)) (render ys) = Inr (render (filter (\<lambda>p. at0 (fst p) \<noteq> pre) (xs @ ys)))"
proof (induction fuel arbitrary: xs ys)
  case IH: (Suc fuel)
  show ?case
    using IH.prems
  proof (induction ys arbitrary: xs)
    case (Cons p ys)
    obtain k v where p: "p = (k, v)"
      by (cases p)
    have ok: "bslash \<notin> set k" "bslash \<notin> set v" "length k < 1024" "length v < 1024" "pairs_ok (xs @ ys)" "pairs_ok (xs @ (k, v) # ys)"
      using Cons.prems(1) p by auto
    show ?case
    proof (cases "at0 k = pre")
      case True
      then have k: "k \<notin> fst ` set xs"
        using Cons.prems(2) by auto
      have rm: "Info_RemoveKey (render (xs @ (k, v) # ys)) k = Inr (render (xs @ ys))"
        unfolding RemoveKey_render [OF ok(6,1)] delete_middle [OF k] ..
      have "prefixed_loop fuel pre (render ([] @ (xs @ ys))) (render (xs @ ys))
          = Inr (render (filter (\<lambda>p. at0 (fst p) \<noteq> pre) ([] @ (xs @ ys))))"
        using ok(5) Cons.prems(2,3) p True by (intro IH.IH) auto
      then show ?thesis
        using True p ok rm by (simp add: prefixed_loop.simps [of _ _ _ "bslash # _"] copy_fields)
    next
      case False
      then have "prefixed_loop (Suc fuel) pre (render ((xs @ [p]) @ ys)) (render ys)
          = Inr (render (filter (\<lambda>p. at0 (fst p) \<noteq> pre) ((xs @ [p]) @ ys)))"
        using Cons.prems p by (intro Cons.IH) auto
      moreover have "filter (\<lambda>p. at0 (fst p) \<noteq> pre) xs = xs"
        using Cons.prems(2) by (simp add: filter_True)
      ultimately show ?thesis
        using False p ok by (auto simp: prefixed_loop.simps [of _ _ _ "bslash # _"] copy_fields)
    qed
  qed (simp add: prefixed_loop.simps skip_bslash_def at0_def bslash_def cchar_def from_bslash_def)
next
  case 0
  then show ?case
  proof (induction ys arbitrary: xs)
    case (Cons p ys)
    obtain k v where p: "p = (k, v)"
      by (cases p)
    then have "at0 k \<noteq> pre"
      using Cons.prems(3) by auto
    moreover from this have "prefixed_loop 0 pre (render ((xs @ [p]) @ ys)) (render ys)
        = Inr (render (filter (\<lambda>p. at0 (fst p) \<noteq> pre) ((xs @ [p]) @ ys)))"
      using Cons.prems p by (intro Cons.IH) auto
    moreover have "filter (\<lambda>p. at0 (fst p) \<noteq> pre) xs = xs"
      using Cons.prems(2) by (simp add: filter_True)
    ultimately show ?case
      using p Cons.prems(1) by (auto simp: prefixed_loop.simps [of _ _ _ "bslash # _"] copy_fields)
  qed (simp add: prefixed_loop.simps skip_bslash_def at0_def bslash_def cchar_def from_bslash_def)
qed

text \<open>
  Removing by prefix removes exactly the pairs whose key starts with the character, all of
  them, and ends: the bound on the number of removals is never reached on a string of pairs.
\<close>

theorem RemovePrefixedKeys_filters:
  assumes "pairs_ok kvs"
  shows "Info_RemovePrefixedKeys (render kvs) pre = Inr (render (filter (\<lambda>p. at0 (fst p) \<noteq> pre) kvs))"
proof -
  have "length kvs \<le> length (render kvs)"
    by (induction kvs) auto
  then have "length (filter (\<lambda>p. at0 (fst p) = pre) kvs) \<le> length (render kvs)"
    by (rule le_trans [OF length_filter_le])
  then show ?thesis
    using prefixed_render [of "[]" kvs pre "length (render kvs)"] assms by (simp add: Info_RemovePrefixedKeys_def)
qed

theorem RemovePrefixedKeys_filters_witness:
  "Info_RemovePrefixedKeys (render [(cstr ''_ad'', cstr ''1''), (cstr ''rate'', cstr ''2''), (cstr ''_pw'', cstr ''x'')]) (cchar CHR ''_'')
    = Inr (render [(cstr ''rate'', cstr ''2'')])"
  using RemovePrefixedKeys_filters [of "[(cstr ''_ad'', cstr ''1''), (cstr ''rate'', cstr ''2''), (cstr ''_pw'', cstr ''x'')]" "cchar CHR ''_''"]
  by (simp add: cstr_def cchar_def bslash_def at0_def)

end
