(* ===== verification/Fragments.thy ===== *)
theory Fragments
  imports Complex_Main Datagrams InfoString
begin

text \<open>
  The network channel of \<^verbatim>\<open>NET.c\<close>, part one: its state, and the fragment lists a message or a file that
  is too long for one packet travels in. A list linked through \<^verbatim>\<open>next\<close> is a HOL list: the nodes are
  allocated for one list and freed with it. The two-element arrays of \<^verbatim>\<open>netchan_t\<close> (0: messages, 1: files)
  are functions of the index. \<^verbatim>\<open>float\<close> and \<^verbatim>\<open>double\<close> are real numbers: the rounding is not modelled; the
  infinity that dividing by a zero rate gives is \<open>None\<close> in \<open>nc_cleartime\<close>. \<^verbatim>\<open>malloc\<close> succeeds unless
  a parameter says otherwise. What \<^verbatim>\<open>fn_GetFragmentSize\<close> returns is a parameter; the server's function
  is \<open>SV_GetFragmentSize\<close>.
\<close>

record fragbuf =
  fb_id :: u32
  fb_buf :: sizebuf
  fb_is_file :: bool
  fb_in_memory :: bool
  fb_name :: "u8 list"
  fb_offset :: int
  fb_size :: int

record fragbufholder =
  fh_count :: u32
  fh_frags :: "fragbuf list"

record flow =
  fl_sizes :: "u32 list"
  fl_times :: "real list"
  fl_last :: u32
  fl_next :: real
  fl_rate :: real
  fl_average :: real

record netchan =
  nc_socket :: nat
  nc_remote :: netadr
  nc_client :: u32
  nc_last_received :: real
  nc_first_received :: real
  nc_rate :: real
  nc_cleartime :: "real option"
  nc_in_seq :: u32
  nc_in_ack :: u32
  nc_in_rel_ack :: u32
  nc_in_rel_seq :: u32
  nc_out_seq :: u32
  nc_out_rel_seq :: u32
  nc_out_last_rel :: u32
  nc_message :: sizebuf
  nc_rel_len :: u32
  nc_rel_buf :: "u8 list"
  nc_waiting :: "nat \<Rightarrow> fragbufholder list"
  nc_frag_sent :: "nat \<Rightarrow> bool"
  nc_frag_id :: "nat \<Rightarrow> u32"
  nc_sending :: "nat \<Rightarrow> fragbuf list"
  nc_frag_count :: "nat \<Rightarrow> u32"
  nc_frag_start :: "nat \<Rightarrow> u16"
  nc_frag_len :: "nat \<Rightarrow> u16"
  nc_incoming :: "nat \<Rightarrow> fragbuf list"
  nc_ready :: "nat \<Rightarrow> bool"
  nc_filename :: "u8 list"
  nc_temp :: "(u8 list \<times> nat) option"
  nc_temp_size :: int
  nc_flow :: "nat \<Rightarrow> flow"

section \<open>Setting up and clearing\<close>

definition flush_message :: "netmsg \<Rightarrow> netmsg" where
  "flush_message m = m\<lparr>nm_buf := SZ_Clear (nm_buf m), nm_readcount := 0\<rparr>"

definition Netchan_ClearFragbufs :: "fragbuf list \<Rightarrow> fragbuf list" where
  "Netchan_ClearFragbufs l = []"

definition Netchan_FlushIncoming :: "nat \<Rightarrow> netchan \<times> netmsg \<Rightarrow> netchan \<times> netmsg" where
  "Netchan_FlushIncoming i s =
     (case s of (c, m) \<Rightarrow>
       (c\<lparr>nc_incoming := (nc_incoming c)(i := []), nc_ready := (nc_ready c)(i := False)\<rparr>, flush_message m))"

definition Netchan_ClearFragments :: "netchan \<times> netmsg \<Rightarrow> netchan \<times> netmsg" where
  "Netchan_ClearFragments s =
     fold (\<lambda>i (c, m). Netchan_FlushIncoming i
         (c\<lparr>nc_waiting := (nc_waiting c)(i := []),
            nc_sending := (nc_sending c)(i := Netchan_ClearFragbufs (nc_sending c i))\<rparr>, m)) [0, 1] s"

text \<open>\<^verbatim>\<open>free\<close> of a pointer that is not the start of its block is an error.\<close>

definition free_block :: "(u8 list \<times> nat) option \<Rightarrow> unit outcome" where
  "free_block p = (case p of None \<Rightarrow> Inr () | Some (block, pos) \<Rightarrow> if pos = 0 then Inr () else Inl BadPointer)"

definition Netchan_Clear :: "netchan \<times> netmsg \<Rightarrow> (netchan \<times> netmsg) outcome" where
  "Netchan_Clear s =
     (case Netchan_ClearFragments s of (c, m) \<Rightarrow>
       let c = c\<lparr>nc_cleartime := Some 0, nc_rel_len := 0,
             nc_frag_id := ((nc_frag_id c)(0 := 0))(1 := 0), nc_frag_sent := ((nc_frag_sent c)(0 := False))(1 := False),
             nc_frag_count := ((nc_frag_count c)(0 := 0))(1 := 0), nc_frag_start := ((nc_frag_start c)(0 := 0))(1 := 0),
             nc_frag_len := ((nc_frag_len c)(0 := 0))(1 := 0), nc_ready := ((nc_ready c)(0 := False))(1 := False)\<rparr>
       in bindE (free_block (nc_temp c)) (\<lambda>_. Inr (c\<lparr>nc_temp := None, nc_temp_size := 0\<rparr>, m)))"

definition zero_flow :: flow where
  "zero_flow = \<lparr>fl_sizes = replicate 32 0, fl_times = replicate 32 0, fl_last = 0, fl_next = 0, fl_rate = 0, fl_average = 0\<rparr>"

definition zero_netchan :: netchan where
  "zero_netchan = \<lparr>nc_socket = 0, nc_remote = no_adr, nc_client = 0, nc_last_received = 0, nc_first_received = 0, nc_rate = 0,
     nc_cleartime = Some 0, nc_in_seq = 0, nc_in_ack = 0, nc_in_rel_ack = 0, nc_in_rel_seq = 0, nc_out_seq = 0,
     nc_out_rel_seq = 0, nc_out_last_rel = 0,
     nc_message = \<lparr>sb_overflow = 0, sb_data = replicate 0xF98 0, sb_maxsize = 0, sb_cursize = 0\<rparr>,
     nc_rel_len = 0, nc_rel_buf = replicate 0xF98 0, nc_waiting = (\<lambda>_. []), nc_frag_sent = (\<lambda>_. False), nc_frag_id = (\<lambda>_. 0),
     nc_sending = (\<lambda>_. []), nc_frag_count = (\<lambda>_. 0), nc_frag_start = (\<lambda>_. 0), nc_frag_len = (\<lambda>_. 0), nc_incoming = (\<lambda>_. []),
     nc_ready = (\<lambda>_. False), nc_filename = [], nc_temp = None, nc_temp_size = 0, nc_flow = (\<lambda>_. zero_flow)\<rparr>"

definition Netchan_Setup ::
  "real \<Rightarrow> nat \<Rightarrow> netadr \<Rightarrow> u32 \<Rightarrow> netchan \<times> netmsg \<Rightarrow> (netchan \<times> netmsg) outcome" where
  "Netchan_Setup realtime netsrc adr clientindex s =
     bindE (Netchan_Clear s) (\<lambda>(c, m).
       Inr (zero_netchan\<lparr>nc_socket := netsrc, nc_remote := adr, nc_client := clientindex,
         nc_last_received := realtime, nc_first_received := realtime, nc_rate := 0, nc_out_seq := 1,
         nc_message := (nc_message zero_netchan)\<lparr>sb_overflow := 1, sb_maxsize := 0xF96\<rparr>\<rparr>, m))"

definition Netchan_CanPacket :: "real \<Rightarrow> real \<Rightarrow> netchan \<Rightarrow> bool \<times> netchan" where
  "Netchan_CanPacket chokeloopback realtime c =
     (if chokeloopback = 0 \<and> na_type (nc_remote c) = NA_LOOPBACK then (True, c\<lparr>nc_cleartime := Some realtime\<rparr>)
      else (case nc_cleartime c of None \<Rightarrow> False | Some t \<Rightarrow> t < realtime, c))"

section \<open>The lists\<close>

text \<open>The first waiting holder moves to the list being sent when that is empty.\<close>

definition Netchan_FragSend :: "netchan \<Rightarrow> netchan" where
  "Netchan_FragSend c =
     fold (\<lambda>i c. if nc_sending c i \<noteq> [] then c
       else case nc_waiting c i of
         [] \<Rightarrow> c
       | h # hs \<Rightarrow> c\<lparr>nc_waiting := (nc_waiting c)(i := hs), nc_sending := (nc_sending c)(i := fh_frags h),
            nc_frag_count := (nc_frag_count c)(i := fh_count h)\<rparr>) [0, 1] c"

definition Netchan_IncomingReady :: "netchan \<Rightarrow> bool" where
  "Netchan_IncomingReady c \<longleftrightarrow> nc_ready c 0 \<or> nc_ready c 1"

definition Netchan_IsSending :: "netchan \<Rightarrow> bool" where
  "Netchan_IsSending c \<longleftrightarrow> nc_sending c 0 \<noteq> [] \<or> nc_sending c 1 \<noteq> []"

definition Netchan_IsReceiving :: "netchan \<Rightarrow> bool" where
  "Netchan_IsReceiving c \<longleftrightarrow> nc_incoming c 0 \<noteq> [] \<or> nc_incoming c 1 \<noteq> []"

text \<open>
  The position is found by the high half of the identifiers, from the second node on. As written,
  an insertion in the middle links to the node after the next one: the next one is lost.
\<close>

definition high16 :: "u32 \<Rightarrow> u32" where
  "high16 w = drop_bit 16 w AND 0xFFFF"

fun Netchan_AddBufferToList :: "fragbuf list \<Rightarrow> fragbuf \<Rightarrow> fragbuf list" where
  "Netchan_AddBufferToList [] f = [f]"
| "Netchan_AddBufferToList [p] f = [p, f]"
| "Netchan_AddBufferToList (p # n # rest) f =
     (if high16 (fb_id n) > high16 (fb_id f) then p # f # rest
      else p # Netchan_AddBufferToList (n # rest) f)"

definition Netchan_AllocFragbuf :: fragbuf where
  "Netchan_AllocFragbuf = \<lparr>fb_id = 0,
     fb_buf = \<lparr>sb_overflow = 0, sb_data = replicate 1400 0, sb_maxsize = 0x578, sb_cursize = 0\<rparr>,
     fb_is_file = False, fb_in_memory = False, fb_name = [], fb_offset = 0, fb_size = 0\<rparr>"

fun find_index :: "('a \<Rightarrow> bool) \<Rightarrow> 'a list \<Rightarrow> nat option" where
  "find_index P [] = None"
| "find_index P (x # xs) = (if P x then Some 0 else map_option Suc (find_index P xs))"

text \<open>The result is the list and the position of the buffer in it.\<close>

definition Netchan_FindBufferById :: "fragbuf list \<Rightarrow> u32 \<Rightarrow> bool \<Rightarrow> fragbuf list \<times> nat option" where
  "Netchan_FindBufferById l ID create =
     (case find_index (\<lambda>f. fb_id f = ID) l of
        Some i \<Rightarrow> (l, Some i)
      | None \<Rightarrow>
          if \<not> create then (l, None)
          else let l' = Netchan_AddBufferToList l (Netchan_AllocFragbuf\<lparr>fb_id := ID\<rparr>)
               in (l', find_index (\<lambda>f. fb_id f = ID) l'))"

definition Netchan_AddFragbufToTail :: "fragbufholder \<Rightarrow> fragbuf \<Rightarrow> fragbufholder" where
  "Netchan_AddFragbufToTail h f = h\<lparr>fh_count := fh_count h + 1, fh_frags := fh_frags h @ [f]\<rparr>"

text \<open>The fragment is given by its position; a position outside a list is a fragment of no list.\<close>

definition Netchan_UnlinkFragment :: "nat \<Rightarrow> fragbuf list \<Rightarrow> fragbuf list outcome" where
  "Netchan_UnlinkFragment i l =
     (if i < length l then Inr (take i l @ drop (Suc i) l)
      else if l = [] then Inl BadPointer else Inl SysError)"

section \<open>The size of a fragment\<close>

text \<open>
  \<open>spawned\<close>: the four flags of the client are all set; \<open>info\<close> is its info string.
\<close>

definition SV_GetFragmentSize :: "bool \<Rightarrow> u8 list \<Rightarrow> int" where
  "SV_GetFragmentSize spawned info =
     (if \<not> spawned then 0x400
      else let c = Info_ValueForKey info (cstr ''cl_dlmax'') in
        if c = [] then 0x80
        else let i = atoi c in
          if i < 0x40 then 0x40 else if i > 0x4000 then 0x400 else i)"

section \<open>Cutting into fragments\<close>

text \<open>
  The loop of \<^verbatim>\<open>Netchan_CreateFragments_\<close>: \<open>off\<close> bytes done, \<open>left\<close> to do. With a fragment size of 0 or
  less the loop allocates until \<^verbatim>\<open>malloc\<close> fails or writes an impossible length, which ends in
  \<^verbatim>\<open>Sys_Error\<close> both ways.
\<close>

function create_loop :: "int \<Rightarrow> u8 list \<Rightarrow> u32 \<Rightarrow> nat \<Rightarrow> nat \<Rightarrow> fragbufholder \<Rightarrow> fragbufholder outcome" where
  "create_loop fragsize data i off left h =
     (if left = 0 then Inr h
      else if fragsize \<le> 0 then Inl SysError
      else let chunk = (if nat fragsize \<le> left then nat fragsize else left) in
        bindE (SZ_Write (SZ_Clear (fb_buf Netchan_AllocFragbuf)) (drop off data) (of_nat chunk)) (\<lambda>b.
          create_loop fragsize data (i + 1) (off + chunk) (left - chunk)
            (Netchan_AddFragbufToTail h (Netchan_AllocFragbuf\<lparr>fb_id := i, fb_buf := b\<rparr>))))"
  by pat_completeness auto

termination
  by (relation "measure (\<lambda>(fragsize, data, i, off, left, h). left)") auto

declare create_loop.simps [simp del]

abbreviation empty_holder :: fragbufholder where
  "empty_holder \<equiv> \<lparr>fh_count = 0, fh_frags = []\<rparr>"

definition enqueue_holder :: "nat \<Rightarrow> fragbufholder \<Rightarrow> netchan \<Rightarrow> netchan" where
  "enqueue_holder i h c = c\<lparr>nc_waiting := (nc_waiting c)(i := nc_waiting c i @ [h])\<rparr>"

definition Netchan_CreateFragments_core :: "int \<Rightarrow> netchan \<Rightarrow> sizebuf \<Rightarrow> netchan outcome" where
  "Netchan_CreateFragments_core fragsize c msg =
     (if sb_cursize msg = 0 then Inr c
      else bindE (create_loop fragsize (sb_data msg) 1 0 (unat (sb_cursize msg)) empty_holder) (\<lambda>h.
        Inr (enqueue_holder 0 h c)))"

text \<open>\<open>None\<close> for \<open>msg\<close> is the channel's own message buffer, which the first step empties.\<close>

definition Netchan_CreateFragments :: "int \<Rightarrow> netchan \<Rightarrow> sizebuf option \<Rightarrow> netchan outcome" where
  "Netchan_CreateFragments fragsize c msg =
     bindE (if sb_cursize (nc_message c) > 0
            then bindE (Netchan_CreateFragments_core fragsize c (nc_message c)) (\<lambda>c.
              Inr (c\<lparr>nc_message := (nc_message c)\<lparr>sb_cursize := 0\<rparr>\<rparr>))
            else Inr c)
       (\<lambda>c. Netchan_CreateFragments_core fragsize c (case msg of None \<Rightarrow> nc_message c | Some b \<Rightarrow> b))"

text \<open>
  The fragments of a file hold its name, the offset and the size of their part; the first also holds
  the name as a string, whose length its part is reduced by.
\<close>

function file_loop :: "int \<Rightarrow> u8 list \<Rightarrow> bool \<Rightarrow> u32 \<Rightarrow> int \<Rightarrow> int \<Rightarrow> fragbufholder \<Rightarrow> fragbufholder outcome" where
  "file_loop fragsize filename first i sent left h =
     (if left \<le> 0 then Inr h
      else if fragsize \<le> 0 then Inl SysError
      else let chunk = (if fragsize \<le> left then fragsize else left); b = SZ_Clear (fb_buf Netchan_AllocFragbuf) in
        bindE (if first then MSG_WriteString b (Some filename) else Inr b) (\<lambda>b.
          let chunk = (if first then chunk - int (unat (sb_cursize b)) else chunk) in
          file_loop fragsize filename False (i + 1) (sent + chunk) (left - chunk)
            (Netchan_AddFragbufToTail h (Netchan_AllocFragbuf\<lparr>fb_id := i, fb_buf := b, fb_is_file := True,
               fb_size := chunk, fb_offset := sent, fb_name := take 259 filename\<rparr>))))"
  by pat_completeness auto

termination
  by (relation "measures [\<lambda>(fragsize, filename, first, i, sent, left, h). if first then 1 else 0,
      \<lambda>(fragsize, filename, first, i, sent, left, h). nat left]") auto

declare file_loop.simps [simp del]

definition Netchan_CreateFileFragments ::
  "(u8 list \<Rightarrow> u8 list option) \<Rightarrow> int \<Rightarrow> netchan \<Rightarrow> u8 list \<Rightarrow> (bool \<times> netchan) outcome" where
  "Netchan_CreateFileFragments files fragsize c filename =
     (case files filename of
        None \<Rightarrow> Inr (False, c)
      | Some bs \<Rightarrow>
          bindE (file_loop fragsize filename True 1 0 (int (length bs)) empty_holder) (\<lambda>h.
            Inr (True, enqueue_holder 1 h c)))"

text \<open>From a buffer: as written, the part of a fragment is taken off \<open>left\<close> twice.\<close>

function buffer_loop :: "int \<Rightarrow> u8 list \<Rightarrow> u8 list \<Rightarrow> bool \<Rightarrow> u32 \<Rightarrow> int \<Rightarrow> int \<Rightarrow> fragbufholder \<Rightarrow> fragbufholder outcome" where
  "buffer_loop fragsize filename filebuffer first i sent left h =
     (if left \<le> 0 then Inr h
      else if fragsize \<le> 0 then Inl SysError
      else let chunk = (if fragsize \<le> left then fragsize else left); left = left - chunk;
               b = SZ_Clear (fb_buf Netchan_AllocFragbuf) in
        bindE (if first then MSG_WriteString b (Some filename) else Inr b) (\<lambda>b.
          let chunk = (if first then chunk - int (unat (sb_cursize b)) else chunk) in
          bindE (MSG_WriteBuf b (of_int chunk) (Some (drop (nat sent) filebuffer))) (\<lambda>b.
            buffer_loop fragsize filename filebuffer False (i + 1) (sent + chunk) (left - chunk)
              (Netchan_AddFragbufToTail h (Netchan_AllocFragbuf\<lparr>fb_id := i, fb_buf := b, fb_is_file := True,
                 fb_in_memory := True, fb_size := chunk, fb_offset := sent\<rparr>)))))"
  by pat_completeness auto

termination
  by (relation "measures [\<lambda>(fragsize, filename, filebuffer, first, i, sent, left, h). if first then 1 else 0,
      \<lambda>(fragsize, filename, filebuffer, first, i, sent, left, h). nat left]") auto

declare buffer_loop.simps [simp del]

definition Netchan_CreateFileFragmentsFromBuffer ::
  "int \<Rightarrow> netchan \<Rightarrow> u8 list \<Rightarrow> u8 list \<Rightarrow> int \<Rightarrow> netchan outcome" where
  "Netchan_CreateFileFragmentsFromBuffer fragsize c filename filebuffer filesize =
     (if filesize < 1 then Inr c
      else bindE (buffer_loop fragsize filename filebuffer True 1 0 filesize empty_holder) (\<lambda>h.
        Inr (enqueue_holder 1 h c)))"

section \<open>Putting together\<close>

definition copy_frags :: "fragbuf list \<Rightarrow> sizebuf \<Rightarrow> sizebuf outcome" where
  "copy_frags l b = foldE (\<lambda>b f. SZ_Write b (sb_data (fb_buf f)) (sb_cursize (fb_buf f))) b l"

definition Netchan_CopyNormalFragments :: "netchan \<times> netmsg \<Rightarrow> (bool \<times> netchan \<times> netmsg) outcome" where
  "Netchan_CopyNormalFragments s =
     (case s of (c, m) \<Rightarrow>
       if \<not> nc_ready c 0 then Inr (False, c, m)
       else if nc_incoming c 0 = [] then Inr (False, c\<lparr>nc_ready := (nc_ready c)(0 := False)\<rparr>, m)
       else let m = MSG_BeginReading (m\<lparr>nm_buf := SZ_Clear (nm_buf m)\<rparr>) in
         bindE (copy_frags (nc_incoming c 0) (nm_buf m)) (\<lambda>b.
           Inr (True, c\<lparr>nc_ready := (nc_ready c)(0 := False), nc_incoming := (nc_incoming c)(0 := [])\<rparr>, m\<lparr>nm_buf := b\<rparr>)))"

fun dotdot :: "u8 list \<Rightarrow> bool" where
  "dotdot (a # b # cs) \<longleftrightarrow> (a = cchar CHR ''.'' \<and> b = cchar CHR ''.'') \<or> dotdot (b # cs)"
| "dotdot _ \<longleftrightarrow> False"

text \<open>
  The file is collected in a block from \<^verbatim>\<open>malloc\<close> through a pointer into it, \<open>pos\<close>. As written, the
  pointer is advanced past what was copied and then taken for the start of the block. \<open>exists\<close> is what
  \<^verbatim>\<open>FS_FileExists\<close> says, \<open>mem\<close> whether \<^verbatim>\<open>malloc\<close> succeeds; the file \<^verbatim>\<open>COM_WriteFile\<close> writes is part of the
  result.
\<close>

definition copy_file :: "fragbuf list \<Rightarrow> u32 \<Rightarrow> u8 list \<Rightarrow> (u8 list \<times> nat) outcome" where
  "copy_file l readcount block =
     (case l of [] \<Rightarrow> Inl BadPointer
      | f # fs \<Rightarrow>
          bindE (peek (unat readcount) (unat (sb_cursize (fb_buf f) - readcount)) (sb_data (fb_buf f))) (\<lambda>bs.
          bindE (poke 0 bs block) (\<lambda>block.
            foldE (\<lambda>(block, pos) f.
              bindE (peek 0 (unat (sb_cursize (fb_buf f))) (sb_data (fb_buf f))) (\<lambda>bs.
              bindE (poke pos bs block) (\<lambda>block. Inr (block, pos + length bs)))) (block, length bs) fs)))"

definition Netchan_CopyFileFragments ::
  "(u8 list \<Rightarrow> bool) \<Rightarrow> bool \<Rightarrow> netchan \<times> netmsg \<Rightarrow> (bool \<times> (u8 list \<times> u8 list) option \<times> netchan \<times> netmsg) outcome" where
  "Netchan_CopyFileFragments exists mem s =
     (case s of (c, m) \<Rightarrow>
       if \<not> nc_ready c 1 then Inr (False, None, c, m)
       else case nc_incoming c 1 of
         [] \<Rightarrow> Inr (False, None, c\<lparr>nc_ready := (nc_ready c)(1 := False)\<rparr>, m)
       | f # fs \<Rightarrow>
         let m = MSG_BeginReading (m\<lparr>nm_buf := SZ_Clear (nm_buf m)\<rparr>) in
         bindE (SZ_Write (nm_buf m) (sb_data (fb_buf f)) (sb_cursize (fb_buf f))) (\<lambda>b.
         bindE (MSG_ReadString (m\<lparr>nm_buf := b\<rparr>)) (\<lambda>(str, m).
           let filename = take 259 str; flush = (\<lambda>(r, c). (r, None, Netchan_FlushIncoming 1 (c, m))) in
           if filename = [] then Inr (flush (False, c))
           else if dotdot filename \<or> cchar CHR '':'' \<in> set filename then Inr (flush (False, c))
           else let c = c\<lparr>nc_filename := filename\<rparr>; keep = (hd filename = cchar CHR ''!'') in
             if \<not> keep \<and> exists filename then Inr (flush (True, c))
             else let filesize = sum_list (map (\<lambda>f. sb_cursize (fb_buf f)) (f # fs)) - nm_readcount m in
               if \<not> mem then Inr (flush (False, c))
               else bindE (copy_file (f # fs) (nm_readcount m) (replicate (unat filesize) 0)) (\<lambda>(block, pos).
                 let finish = (\<lambda>c. (c\<lparr>nc_ready := (nc_ready c)(1 := False), nc_incoming := (nc_incoming c)(1 := [])\<rparr>,
                                    flush_message m)) in
                 if keep then
                   bindE (free_block (nc_temp c)) (\<lambda>_.
                     Inr (True, None, finish (c\<lparr>nc_temp := Some (block, pos), nc_temp_size := sint filesize\<rparr>)))
                 else bindE (peek pos (unat filesize) block) (\<lambda>bs.
                   bindE (free_block (Some (block, pos))) (\<lambda>_.
                     Inr (True, Some (filename, bs), finish c)))))))"

end
