(* ===== verification/Munge.thy ===== *)
theory Munge
  imports Prelude
begin

text \<open>
  The packet scrambling of \<^verbatim>\<open>common.c\<close> (\<^verbatim>\<open>COM_Munge1\<close> to \<^verbatim>\<open>COM_UnMunge3\<close>), which the network channel
  applies to the payload of a datagram keyed by its sequence number. A packet is its byte array,
  \<open>z\<close> and \<open>len\<close> the 32-bit patterns of the \<^verbatim>\<open>int\<close> arguments. The locale \<open>packet_cipher\<close> is what the channel
  needs of a pair of such functions.
\<close>

definition MungeTable1 :: "u8 list" where
  "MungeTable1 = [
     0x7A, 0x64, 0x05, 0xF1,
     0x1B, 0x9B, 0xA0, 0xB5,
     0xCA, 0xED, 0x61, 0x0D,
     0x4A, 0xDF, 0x8E, 0xC7]"

definition MungeTable2 :: "u8 list" where
  "MungeTable2 = [
     0x05, 0x61, 0x7A, 0xED,
     0x1B, 0xCA, 0x0D, 0x9B,
     0x4A, 0xF1, 0x64, 0xC7,
     0xB5, 0x8E, 0xDF, 0xA0]"

definition MungeTable3 :: "u8 list" where
  "MungeTable3 = [
     0x20, 0x07, 0x13, 0x61,
     0x03, 0x45, 0x17, 0x72,
     0x0A, 0x2D, 0x48, 0x0C,
     0x4A, 0x12, 0xA9, 0xB5]"

definition FlipBytes32 :: "u32 \<Rightarrow> u32" where
  "FlipBytes32 a = drop_bit 24 (a AND 0xff000000) OR drop_bit 8 (a AND 0x00ff0000)
     OR push_bit 8 (a AND 0x0000ff00) OR push_bit 24 (a AND 0x000000ff)"

definition FlipBytes16 :: "u16 \<Rightarrow> u16" where
  "FlipBytes16 a = drop_bit 8 (a AND 0xff00) OR push_bit 8 (a AND 0x00ff)"

text \<open>The byte the inner loop combines with byte \<open>i\<close> of word number \<open>count\<close>.\<close>

definition munge_byte :: "u8 list \<Rightarrow> nat \<Rightarrow> nat \<Rightarrow> u8" where
  "munge_byte table count i =
     ((table ! ((count + i) mod 16) OR of_nat (push_bit i i)) OR of_nat i) OR 0xA5"

definition munge_mix :: "u8 list \<Rightarrow> nat \<Rightarrow> u32 \<Rightarrow> u32" where
  "munge_mix table count ebpc =
     word32_of (map (\<lambda>i. bytes32 ebpc ! i XOR munge_byte table count i) [0, 1, 2, 3])"

definition munge_word :: "u8 list \<Rightarrow> u32 \<Rightarrow> nat \<Rightarrow> u32 \<Rightarrow> u32" where
  "munge_word table z count w = munge_mix table count (FlipBytes32 (w XOR NOT z)) XOR z"

definition unmunge_word :: "u8 list \<Rightarrow> u32 \<Rightarrow> nat \<Rightarrow> u32 \<Rightarrow> u32" where
  "unmunge_word table z count w = FlipBytes32 (munge_mix table count (w XOR z)) XOR NOT z"

text \<open>The outer loop: \<open>n\<close> words left, the next one being word number \<open>count\<close> of the packet.\<close>

fun word_loop :: "(nat \<Rightarrow> u32 \<Rightarrow> u32) \<Rightarrow> nat \<Rightarrow> nat \<Rightarrow> u8 list \<Rightarrow> u8 list outcome" where
  "word_loop f 0 count packet = Inr packet"
| "word_loop f (Suc n) count packet =
     bindE (load32 (4 * count) packet) (\<lambda>w.
     bindE (store32 (4 * count) (f count w) packet) (\<lambda>packet'.
       word_loop f n (count + 1) packet'))"

definition over_words :: "(nat \<Rightarrow> u32 \<Rightarrow> u32) \<Rightarrow> u32 \<Rightarrow> u8 list \<Rightarrow> u8 list outcome" where
  "over_words f len packet =
     (if sint len < 1 then Inr packet else word_loop f (unat len div 4) 0 packet)"

definition COM_Munge1 :: "u8 list \<Rightarrow> u32 \<Rightarrow> u32 \<Rightarrow> u8 list outcome" where
  "COM_Munge1 packet len z = over_words (munge_word MungeTable1 z) len packet"

definition COM_UnMunge1 :: "u8 list \<Rightarrow> u32 \<Rightarrow> u32 \<Rightarrow> u8 list outcome" where
  "COM_UnMunge1 packet len z = over_words (unmunge_word MungeTable1 z) len packet"

definition COM_Munge2 :: "u8 list \<Rightarrow> u32 \<Rightarrow> u32 \<Rightarrow> u8 list outcome" where
  "COM_Munge2 packet len z = over_words (munge_word MungeTable2 z) len packet"

definition COM_UnMunge2 :: "u8 list \<Rightarrow> u32 \<Rightarrow> u32 \<Rightarrow> u8 list outcome" where
  "COM_UnMunge2 packet len z = over_words (unmunge_word MungeTable2 z) len packet"

definition COM_Munge3 :: "u8 list \<Rightarrow> u32 \<Rightarrow> u32 \<Rightarrow> u8 list outcome" where
  "COM_Munge3 packet len z = over_words (munge_word MungeTable3 z) len packet"

definition COM_UnMunge3 :: "u8 list \<Rightarrow> u32 \<Rightarrow> u32 \<Rightarrow> u8 list outcome" where
  "COM_UnMunge3 packet len z = over_words (unmunge_word MungeTable3 z) len packet"

section \<open>Words\<close>

text \<open>The masks of the macro select the four bytes.\<close>

lemma byte_masks:
  "bit (0xff000000 :: u32) n \<longleftrightarrow> 24 \<le> n \<and> n < 32" "bit (0x00ff0000 :: u32) n \<longleftrightarrow> 16 \<le> n \<and> n < 24"
  "bit (0x0000ff00 :: u32) n \<longleftrightarrow> 8 \<le> n \<and> n < 16" "bit (0x000000ff :: u32) n \<longleftrightarrow> n < 8"
proof -
  have m: "(0xff000000 :: u32) = push_bit 24 (mask 8)" "(0x00ff0000 :: u32) = push_bit 16 (mask 8)"
    "(0x0000ff00 :: u32) = push_bit 8 (mask 8)" "(0x000000ff :: u32) = mask 8"
    by (simp_all add: mask_eq_exp_minus_1 push_bit_eq_mult)
  show "bit (0xff000000 :: u32) n \<longleftrightarrow> 24 \<le> n \<and> n < 32" "bit (0x00ff0000 :: u32) n \<longleftrightarrow> 16 \<le> n \<and> n < 24"
    "bit (0x0000ff00 :: u32) n \<longleftrightarrow> 8 \<le> n \<and> n < 16" "bit (0x000000ff :: u32) n \<longleftrightarrow> n < 8"
    unfolding m by (auto simp: bit_push_bit_iff bit_mask_iff)
qed

lemma FlipBytes32_bytes: "FlipBytes32 a = word32_of (rev (bytes32 a))"
proof (rule bit_word_eqI)
  fix n assume "n < LENGTH(32)"
  then show "bit (FlipBytes32 a) n = bit (word32_of (rev (bytes32 a))) n"
    unfolding FlipBytes32_def bytes32_def rev.simps append.simps word32_of.simps
      bit_or_iff bit_and_iff bit_drop_bit_eq bit_push_bit_iff bit_unsigned_iff comp_def byte_masks
    by (cases "8 \<le> n"; cases "16 \<le> n"; cases "24 \<le> n") (auto dest: bit_imp_le_length)
qed

lemma FlipBytes32_involution: "FlipBytes32 (FlipBytes32 a) = a"
  by (simp add: FlipBytes32_bytes)

lemma list4: "[xs ! 0, xs ! 1, xs ! 2, xs ! 3] = xs" if "length xs = 4" for xs :: "'a list"
  using that by (auto simp: numeral_eq_Suc length_Suc_conv)

lemma munge_mix_involution: "munge_mix table count (munge_mix table count e) = e"
proof -
  let ?m = "munge_byte table count"
  let ?x = "map (\<lambda>i. bytes32 e ! i XOR ?m i) [0, 1, 2, 3]"
  have "bytes32 (munge_mix table count e) = ?x"
    unfolding munge_mix_def by (rule bytes32_word32_of) simp
  then have "munge_mix table count (munge_mix table count e)
      = word32_of [bytes32 e ! 0, bytes32 e ! 1, bytes32 e ! 2, bytes32 e ! 3]"
    unfolding munge_mix_def [of table count "munge_mix table count e"]
    by (simp add: xor.assoc del: word32_of.simps)
  then show ?thesis
    by (simp only: list4 length_bytes word32_of_bytes32)
qed

lemma unmunge_munge_word: "unmunge_word table z count (munge_word table z count w) = w"
  by (simp add: unmunge_word_def munge_word_def munge_mix_involution FlipBytes32_involution xor.assoc)

lemma munge_unmunge_word: "munge_word table z count (unmunge_word table z count w) = w"
  by (simp add: unmunge_word_def munge_word_def munge_mix_involution FlipBytes32_involution xor.assoc)

section \<open>Packets\<close>

text \<open>A packet is a sequence of words and the loop a map over it.\<close>

fun map_words :: "(nat \<Rightarrow> u32 \<Rightarrow> u32) \<Rightarrow> nat \<Rightarrow> u32 list \<Rightarrow> u32 list" where
  "map_words f count [] = []"
| "map_words f count (w # ws) = f count w # map_words f (count + 1) ws"

definition packed :: "u32 list \<Rightarrow> u8 list" where
  "packed ws = concat (map bytes32 ws)"

lemma packed_simps [simp]: "packed [] = []" "packed (w # ws) = bytes32 w @ packed ws"
  by (simp_all add: packed_def)

lemma length_packed [simp]: "length (packed ws) = 4 * length ws"
  by (induction ws) simp_all

lemma length_map_words [simp]: "length (map_words f count ws) = length ws"
  by (induction ws arbitrary: count) simp_all

lemma map_words_inverse: "(\<And>k w. g k (f k w) = w) \<Longrightarrow> map_words g count (map_words f count ws) = ws"
  by (induction ws arbitrary: count) simp_all

lemma packed_exists: "length bs = 4 * n \<Longrightarrow> \<exists>ws. length ws = n \<and> bs = packed ws"
proof (induction n arbitrary: bs)
  case (Suc n)
  then obtain ws where "length ws = n" "drop 4 bs = packed ws"
    by force
  moreover have "bytes32 (word32_of (take 4 bs)) = take 4 bs"
    using Suc.prems by (intro bytes32_word32_of) simp
  ultimately show ?case
    by (intro exI [of _ "word32_of (take 4 bs) # ws"]) (metis append_take_drop_id length_Cons packed_simps(2))
qed simp

lemma word_loop_packed:
  "length pre = 4 * count \<Longrightarrow>
    word_loop f (length ws) count (pre @ packed ws @ post) = Inr (pre @ packed (map_words f count ws) @ post)"
proof (induction ws arbitrary: count pre)
  case (Cons w ws)
  have "word_loop f (length ws) (count + 1) ((pre @ bytes32 (f count w)) @ packed ws @ post)
      = Inr ((pre @ bytes32 (f count w)) @ packed (map_words f (count + 1) ws) @ post)"
    using Cons.prems by (intro Cons.IH) simp
  then show ?case
    using Cons.prems by (simp add: load32_def peek_def store32_def poke_def)
qed simp

lemma over_words_packed:
  assumes "1 \<le> sint len" and "length ws = unat len div 4"
  shows "over_words f len (packed ws @ post) = Inr (packed (map_words f 0 ws) @ post)"
  using assms word_loop_packed [of "[]" 0 f ws post] by (simp add: over_words_def)

section \<open>The contract of a packet cipher\<close>

text \<open>
  What the channel needs: scrambling the first bytes of an array succeeds, gives as many bytes whatever
  is behind them, and is undone by the other function under the same key, again whatever is behind.
\<close>

locale packet_cipher =
  fixes enc dec :: "u8 list \<Rightarrow> u32 \<Rightarrow> u32 \<Rightarrow> u8 list outcome"
  assumes scrambles: "length payload < 2 ^ 32 \<Longrightarrow>
    \<exists>p. length p = length payload \<and> (\<forall>post. enc (payload @ post) (of_nat (length payload)) z = Inr (p @ post)
      \<and> dec (p @ post) (of_nat (length payload)) z = Inr (payload @ post))"
begin

lemma cipher:
  assumes "unat len \<le> length packet"
  shows "\<exists>p. enc packet len z = Inr p \<and> length p = length packet \<and> drop (unat len) p = drop (unat len) packet
      \<and> dec p len z = Inr packet"
proof -
  let ?front = "take (unat len) packet" and ?rest = "drop (unat len) packet"
  have n: "length ?front = unat len"
    using assms by simp
  then obtain p where p: "length p = length ?front"
      "\<forall>post. enc (?front @ post) (of_nat (length ?front)) z = Inr (p @ post) \<and> dec (p @ post) (of_nat (length ?front)) z = Inr (?front @ post)"
    using scrambles [of ?front z] unat_u32_lt [of len] by metis
  have "enc packet len z = Inr (p @ ?rest)" "dec (p @ ?rest) len z = Inr packet"
    using p(2) [THEN spec, of ?rest] n by simp_all
  then show ?thesis
    using assms p(1) n by (intro exI [of _ "p @ ?rest"]) simp
qed

text \<open>The scrambled form of a payload.\<close>

lemma scrambled_form:
  fixes z
  assumes "length payload < 2 ^ 32"
  defines "scr \<equiv> (case enc payload (of_nat (length payload)) z of Inr p \<Rightarrow> p | Inl _ \<Rightarrow> [])"
  shows "length scr = length payload"
    "enc (payload @ post) (of_nat (length payload)) z = Inr (scr @ post)"
    "dec (scr @ post) (of_nat (length payload)) z = Inr (payload @ post)"
proof -
  obtain p where p: "length p = length payload" "\<And>post. enc (payload @ post) (of_nat (length payload)) z = Inr (p @ post)"
      "\<And>post. dec (p @ post) (of_nat (length payload)) z = Inr (payload @ post)"
    using scrambles [OF assms(1)] by blast
  have s: "scr = p"
    using p(2) [of "[]"] by (simp add: scr_def)
  show "length scr = length payload"
    "enc (payload @ post) (of_nat (length payload)) z = Inr (scr @ post)"
    "dec (scr @ post) (of_nat (length payload)) z = Inr (payload @ post)"
    unfolding s by (rule p)+
qed

end

lemma over_words_cipher:
  assumes "\<And>z k w. dec z k (enc z k w) = w"
  shows "packet_cipher (\<lambda>packet len z. over_words (enc z) len packet) (\<lambda>packet len z. over_words (dec z) len packet)"
proof
  fix payload :: "u8 list" and z
  assume len: "length payload < 2 ^ 32"
  let ?len = "of_nat (length payload) :: u32"
  show "\<exists>p. length p = length payload \<and> (\<forall>post. over_words (enc z) ?len (payload @ post) = Inr (p @ post)
    \<and> over_words (dec z) ?len (p @ post) = Inr (payload @ post))"
  proof (cases "1 \<le> sint ?len")
    case True
    define n where "n = length payload div 4"
    have n: "n = unat ?len div 4" "4 * n \<le> length payload"
      using len by (simp_all add: n_def unat_of_nat_u32)
    then obtain ws where ws: "length ws = n" "take (4 * n) payload = packed ws"
      using packed_exists [of "take (4 * n) payload" n] by auto
    then have pk: "payload = packed ws @ drop (4 * n) payload"
      by (metis append_take_drop_id)
    define p where "p = packed (map_words (enc z) 0 ws) @ drop (4 * n) payload"
    have pk': "payload @ post = packed ws @ drop (4 * n) payload @ post" for post
      by (subst pk) simp
    have len_ws: "length ws = unat ?len div 4"
      using ws(1) n(1) by simp
    have "over_words (enc z) ?len (payload @ post) = Inr (p @ post)" for post
      using over_words_packed [OF True len_ws, of "enc z" "drop (4 * n) payload @ post"]
      unfolding pk' by (simp add: p_def)
    moreover have "over_words (dec z) ?len (p @ post) = Inr (payload @ post)" for post
      using over_words_packed [OF True, of "map_words (enc z) 0 ws" "dec z" "drop (4 * n) payload @ post"] len_ws
        map_words_inverse [of "dec z" "enc z", OF assms] unfolding pk' by (simp add: p_def)
    moreover have "length p = length payload"
      using n(2) ws(1) by (simp add: p_def)
    ultimately show ?thesis by blast
  qed (auto simp: over_words_def)
qed

interpretation munge1: packet_cipher COM_Munge1 COM_UnMunge1
  using over_words_cipher [of "unmunge_word MungeTable1" "munge_word MungeTable1", OF unmunge_munge_word]
  by (simp add: COM_Munge1_def [abs_def] COM_UnMunge1_def [abs_def])

interpretation munge2: packet_cipher COM_Munge2 COM_UnMunge2
  using over_words_cipher [of "unmunge_word MungeTable2" "munge_word MungeTable2", OF unmunge_munge_word]
  by (simp add: COM_Munge2_def [abs_def] COM_UnMunge2_def [abs_def])

interpretation munge3: packet_cipher COM_Munge3 COM_UnMunge3
  using over_words_cipher [of "unmunge_word MungeTable3" "munge_word MungeTable3", OF unmunge_munge_word]
  by (simp add: COM_Munge3_def [abs_def] COM_UnMunge3_def [abs_def])

text \<open>
  C11. For every packet, key and length within the packet, each of the three scramblers succeeds
  without leaving the packet, changes nothing behind the length, and its unscrambler restores the
  packet exactly.
\<close>

theorem munge_roundtrip:
  assumes "unat len \<le> length packet"
    and "(munge, unmunge) \<in> {(COM_Munge1, COM_UnMunge1), (COM_Munge2, COM_UnMunge2), (COM_Munge3, COM_UnMunge3)}"
  shows "\<exists>p. munge packet len z = Inr p \<and> length p = length packet
    \<and> drop (unat len) p = drop (unat len) packet \<and> unmunge p len z = Inr packet"
  using assms munge1.cipher munge2.cipher munge3.cipher by blast

theorem munge_roundtrip_witness:
  "\<exists>p. COM_Munge2 [1, 2, 3, 4, 5, 6, 7, 8, 9] 9 77 = Inr p \<and> COM_UnMunge2 p 9 77 = Inr [1, 2, 3, 4, 5, 6, 7, 8, 9]"
  using munge_roundtrip [of 9 "[1, 2, 3, 4, 5, 6, 7, 8, 9]" COM_Munge2 COM_UnMunge2 77] by auto

end
