(* ===== verification/Netchan.thy ===== *)
theory Netchan
  imports Fragments Munge
begin

text \<open>
  The network channel of \<^verbatim>\<open>NET.c\<close>, part two: the flow statistics, \<^verbatim>\<open>Netchan_Transmit\<close> and
  \<^verbatim>\<open>Netchan_Process\<close>. The record \<open>netenv\<close> holds what the code reads from outside the channel: the clock,
  the settings, the file system, the system calls, and the value of \<^verbatim>\<open>fn_GetFragmentSize\<close> for the owner.
  \<open>netstate\<close> is the channel with the state of the datagram layer, the number of dropped packets and
  the texts given to \<^verbatim>\<open>Cbuf_AddText\<close>. The printing of \<^verbatim>\<open>net_showpackets\<close> and \<^verbatim>\<open>net_showdrop\<close> is left out.
\<close>

record netenv =
  ne_realtime :: real
  ne_sendto :: "datagram list \<Rightarrow> datagram \<Rightarrow> int"
  ne_errno :: errno
  ne_dedicated :: bool
  ne_files :: "u8 list \<Rightarrow> u8 list option"
  ne_fragsize :: int
  ne_demo :: bool
  ne_lan :: bool
  ne_lan_rate :: real
  ne_is_client :: bool
  ne_any_source :: bool

record netstate =
  ns_chan :: netchan
  ns_net :: net
  ns_drop :: u32
  ns_texts :: "u8 list list"

section \<open>Flow\<close>

text \<open>
  The loop runs back over 14 entries of the ring from the last one; \<open>v10\<close> and \<open>v14\<close> are not reset
  between the two directions. The weights \<^verbatim>\<open>(2/3)\<close> and \<^verbatim>\<open>(1/3)\<close> are integer quotients.
\<close>

definition ring_index :: "u32 \<Rightarrow> nat" where
  "ring_index w = unat (w AND 0x1F)"

definition flow_sum :: "flow \<Rightarrow> u32 \<Rightarrow> u32 \<times> real \<Rightarrow> u32 \<times> real" where
  "flow_sum fl v8 v =
     (case fold (\<lambda>k (p2, v10, v14).
         let p3 = ring_index (v8 - of_nat k)
         in (p3, v10 + fl_sizes fl ! p3, v14 + (fl_times fl ! p2 - fl_times fl ! p3))) [1..<0x0F] (ring_index v8, v) of
       (_, v) \<Rightarrow> v)"

definition flow_update :: "real \<Rightarrow> nat \<Rightarrow> netchan \<times> u32 \<times> real \<Rightarrow> netchan \<times> u32 \<times> real" where
  "flow_update realtime i s =
     (case s of (c, v) \<Rightarrow>
       let fl = nc_flow c i in
       if realtime - fl_next fl < 1 / 10 then (c, v)
       else let fl = fl\<lparr>fl_next := realtime + 1 / 10\<rparr>;
                v = flow_sum fl (fl_last fl - 1) v;
                rate = (if snd v = 0 then 0 else real (unat (fst v)) / snd v / 1024);
                fl = fl\<lparr>fl_rate := rate,
                  fl_average := fl_average fl * of_int (2 div 3) + rate * of_int (1 div 3)\<rparr>
            in (c\<lparr>nc_flow := (nc_flow c)(i := fl)\<rparr>, v))"

definition Netchan_UpdateFlow :: "real \<Rightarrow> netchan \<Rightarrow> netchan" where
  "Netchan_UpdateFlow realtime c = fst (flow_update realtime 1 (flow_update realtime 0 (c, 0, 0)))"

text \<open>What a packet sent or received adds: its size with the IP and UDP headers, and the time.\<close>

definition flow_record :: "real \<Rightarrow> nat \<Rightarrow> u32 \<Rightarrow> netchan \<Rightarrow> netchan" where
  "flow_record realtime i sz c =
     (let fl = nc_flow c i; k = ring_index (fl_last fl) in
      c\<lparr>nc_flow := (nc_flow c)(i := fl\<lparr>fl_sizes := (fl_sizes fl)[k := sz + 28],
        fl_times := (fl_times fl)[k := realtime], fl_last := fl_last fl + 1\<rparr>)\<rparr>)"

section \<open>Sending\<close>

text \<open>Starting to send: which fragment streams are active, and whether the own message goes out now.\<close>

definition transmit_start :: "netenv \<Rightarrow> netchan \<Rightarrow> (netchan \<times> (nat \<Rightarrow> bool) \<times> bool) outcome" where
  "transmit_start env c =
     (let c = Netchan_FragSend c; own = (sb_cursize (nc_message c) \<noteq> 0); active = (\<lambda>i. nc_sending c i \<noteq> []) in
      if active 0 \<and> own then
        bindE (if sb_cursize (nc_message c) > 1200 then Netchan_CreateFragments (ne_fragsize env) c None else Inr c)
          (\<lambda>c. Inr (c, active, False))
      else Inr (c, active, own))"

text \<open>
  The file a fragment belongs to is read when the fragment is sent: \<^verbatim>\<open>FS_Read\<close> delivers what there is
  from the offset on, up to the size; the size is added in full.
\<close>

definition load_fragment :: "netenv \<Rightarrow> fragbuf \<Rightarrow> fragbuf outcome" where
  "load_fragment env f =
     (case ne_files env (fb_name f) of
        None \<Rightarrow> Inl SysError
      | Some bs \<Rightarrow>
          let got = (if fb_size f < 0 then drop (nat (fb_offset f)) bs else take (nat (fb_size f)) (drop (nat (fb_offset f)) bs));
              b = fb_buf f in
          bindE (poke (unat (sb_cursize b)) got (sb_data b)) (\<lambda>d.
            Inr (f\<lparr>fb_buf := b\<lparr>sb_data := d, sb_cursize := sb_cursize b + of_int (fb_size f)\<rparr>\<rparr>)))"

text \<open>
  One round of the fragment loop for stream \<open>i\<close>; the result says at which stream to go on. The inner
  loop counts \<^verbatim>\<open>i\<close> and not \<^verbatim>\<open>j\<close>: after a message fragment the file stream is skipped, and after a file
  fragment \<^verbatim>\<open>padding1FC8[2]\<close> is written, outside the array.
\<close>

definition send_fragment :: "netenv \<Rightarrow> (nat \<Rightarrow> bool) \<Rightarrow> nat \<Rightarrow> netchan \<Rightarrow> (netchan \<times> nat) outcome" where
  "send_fragment env active i c =
     (case nc_sending c i of
        [] \<Rightarrow> Inr (c, i + 1)
      | f # _ \<Rightarrow>
          let on_disk = (fb_is_file f \<and> \<not> fb_in_memory f);
              sz = (if on_disk then of_int (fb_size f) else sb_cursize (fb_buf f)) :: u32 in
          if active i \<and> nc_rel_len c + sz < 1200 then
            let c = c\<lparr>nc_frag_id := (nc_frag_id c)(i :=
                  push_bit 16 (fb_id f AND 0xFFFF) OR (nc_frag_count c i AND 0xFFFF))\<rparr> in
            bindE (if on_disk then load_fragment env f else Inr f) (\<lambda>f.
            bindE (peek 0 (unat (sb_cursize (fb_buf f))) (sb_data (fb_buf f))) (\<lambda>bs.
            bindE (poke (unat (nc_rel_len c)) bs (nc_rel_buf c)) (\<lambda>rel.
            bindE (Netchan_UnlinkFragment 0 (nc_sending c i)) (\<lambda>rest.
              let c = c\<lparr>nc_rel_buf := rel, nc_rel_len := nc_rel_len c + sb_cursize (fb_buf f),
                    nc_frag_len := (nc_frag_len c)(i := ucast (sb_cursize (fb_buf f))),
                    nc_sending := (nc_sending c)(i := rest), nc_frag_sent := (nc_frag_sent c)(i := True)\<rparr> in
              if i = 0 then
                Inr (c\<lparr>nc_frag_start := (nc_frag_start c)(1 := nc_frag_start c 1 + nc_frag_len c 1 + nc_frag_len c 1)\<rparr>, 3)
              else Inl OutOfBounds))))
          else Inr (c, i + 1))"

definition both :: "'a \<Rightarrow> (nat \<Rightarrow> 'a) \<Rightarrow> nat \<Rightarrow> 'a" where
  "both v f = f(0 := v, 1 := v)"

text \<open>
  The part of \<^verbatim>\<open>Netchan_Transmit\<close> that runs when no reliable data is on its way: it decides what goes
  into the reliable buffer.
\<close>

definition load_reliable :: "netenv \<Rightarrow> bool \<Rightarrow> netchan \<Rightarrow> (netchan \<times> bool) outcome" where
  "load_reliable env resend c =
     (if nc_rel_len c \<noteq> 0 then Inr (c, resend)
      else bindE (transmit_start env c) (\<lambda>(c, active, own).
        let c = c\<lparr>nc_frag_id := both 0 (nc_frag_id c), nc_frag_sent := both False (nc_frag_sent c),
              nc_frag_start := both 0 (nc_frag_start c), nc_frag_len := both 0 (nc_frag_len c)\<rparr>;
            reliable = own \<or> active 0 \<or> active 1;
            c = (if reliable then c\<lparr>nc_out_rel_seq := nc_out_rel_seq c XOR 1\<rparr> else c) in
        bindE (if own then
                 bindE (peek 0 (unat (sb_cursize (nc_message c))) (sb_data (nc_message c))) (\<lambda>bs.
                 bindE (poke 0 bs (nc_rel_buf c)) (\<lambda>rel.
                   Inr (c\<lparr>nc_rel_buf := rel, nc_rel_len := sb_cursize (nc_message c),
                     nc_message := (nc_message c)\<lparr>sb_cursize := 0\<rparr>,
                     nc_frag_start := both (ucast (sb_cursize (nc_message c))) (nc_frag_start c)\<rparr>)))
               else Inr c) (\<lambda>c.
        bindE (send_fragment env active 0 c) (\<lambda>(c, i).
        bindE (if i = 1 then send_fragment env active 1 c else Inr (c, i)) (\<lambda>(c, _).
          Inr (c, resend \<or> reliable))))))"

text \<open>The packet on the stack: a 4040-byte array used up to 4037 bytes.\<close>

definition fresh_packet :: sizebuf where
  "fresh_packet = \<lparr>sb_overflow = 0, sb_data = replicate 4040 0, sb_maxsize = 4037, sb_cursize = 0\<rparr>"

definition write_frag_header :: "netchan \<Rightarrow> nat \<Rightarrow> sizebuf \<Rightarrow> sizebuf outcome" where
  "write_frag_header c i p =
     (if nc_frag_sent c i then
        bindE (MSG_WriteByte p 1) (\<lambda>p.
        bindE (MSG_WriteLong p (nc_frag_id c i)) (\<lambda>p.
        bindE (MSG_WriteShort p (ucast (nc_frag_start c i))) (\<lambda>p.
          MSG_WriteShort p (ucast (nc_frag_len c i)))))
      else MSG_WriteByte p 0)"

function pad_packet :: "sizebuf \<Rightarrow> sizebuf outcome" where
  "pad_packet p =
     (if sb_cursize p < 16 then bindE (MSG_WriteByte p 1) (\<lambda>q. if sb_cursize p < sb_cursize q then pad_packet q else Inl Undefined)
      else Inr p)"
  by pat_completeness auto

termination
  by (relation "measure (\<lambda>p. 16 - unat (sb_cursize p))") (auto simp: word_less_nat_alt)

declare pad_packet.simps [simp del]

definition build_packet :: "bool \<Rightarrow> bool \<Rightarrow> netchan \<Rightarrow> u8 list \<Rightarrow> (sizebuf \<times> netchan) outcome" where
  "build_packet resend reliable c data =
     (let frags = (nc_frag_sent c 0 \<or> nc_frag_sent c 1);
          seq = nc_out_seq c OR push_bit 31 (of_bool reliable) OR (if reliable \<and> frags then 0x40000000 else 0);
          ack = nc_in_seq c OR push_bit 31 (nc_in_rel_seq c);
          c = c\<lparr>nc_out_seq := nc_out_seq c + 1\<rparr> in
      bindE (MSG_WriteLong fresh_packet seq) (\<lambda>p.
      bindE (MSG_WriteLong p ack) (\<lambda>p.
      bindE (if reliable \<and> frags then bindE (write_frag_header c 0 p) (write_frag_header c 1) else Inr p) (\<lambda>p.
      bindE (if reliable then bindE (SZ_Write p (nc_rel_buf c) (nc_rel_len c)) (\<lambda>p.
                 Inr (p, c\<lparr>nc_out_last_rel := nc_out_seq c - 1\<rparr>))
             else Inr (p, c)) (\<lambda>(p, c).
      bindE (if (if resend then 0x578 else sb_maxsize p) - sb_cursize p < of_nat (length data) then Inr p
             else SZ_Write p data (of_nat (length data))) (\<lambda>p.
      bindE (pad_packet p) (\<lambda>p. Inr (p, c))))))))"

definition add_time :: "real option \<Rightarrow> real \<Rightarrow> real \<Rightarrow> real \<Rightarrow> real option" where
  "add_time cleartime realtime bytes rate =
     (case cleartime of None \<Rightarrow> None
      | Some t \<Rightarrow> if rate = 0 then None else Some ((if t < realtime then realtime else t) + bytes * (1 / rate)))"

definition Netchan_Transmit :: "netenv \<Rightarrow> u8 list \<Rightarrow> netchan \<times> net \<Rightarrow> (netchan \<times> net) outcome" where
  "Netchan_Transmit env data s =
     (case s of (c, n) \<Rightarrow>
       if sb_overflow (nc_message c) AND 2 \<noteq> 0 then Inr (c, n)
       else let resend = (nc_in_ack c > nc_out_last_rel c \<and> nc_in_rel_ack c \<noteq> nc_out_rel_seq c) in
       bindE (load_reliable env resend c) (\<lambda>(c, reliable).
       bindE (build_packet resend reliable c data) (\<lambda>(p, c).
         let c = Netchan_UpdateFlow (ne_realtime env) (flow_record (ne_realtime env) 0 (sb_cursize p) c) in
         bindE (if ne_demo env then Inr n
                else bindE (COM_Munge2 (drop 8 (sb_data p)) (sb_cursize p - 8) ((nc_out_seq c - 1) AND 0xFF)) (\<lambda>body.
                  NET_SendPacket (ne_sendto env) (ne_errno env) (ne_dedicated env) (nc_socket c)
                    (take (unat (sb_cursize p)) (take 8 (sb_data p) @ body)) (nc_remote c) n)) (\<lambda>n.
           let rate = (if ne_lan env \<and> ne_lan_rate env < 1000 then ne_lan_rate env else nc_rate c) in
           Inr (c\<lparr>nc_cleartime := add_time (nc_cleartime c) (ne_realtime env) (real (unat (sb_cursize p + 28))) rate\<rparr>, n)))))"

section \<open>Receiving\<close>

text \<open>
  The result says whether all fragments are there; the texts are those of the client's own channel.
\<close>

fun completion_loop :: "bool \<Rightarrow> nat \<Rightarrow> netadr \<Rightarrow> nat \<Rightarrow> fragbuf list \<Rightarrow> (nat option \<times> u8 list list) outcome" where
  "completion_loop is_client sock adr count [] = Inr (Some count, [])"
| "completion_loop is_client sock adr count (f # fs) =
     (let count = count + 1 in
      if high16 (fb_id f) \<noteq> of_nat count \<and> is_client then
        (if sock = 2 then bindE (NET_AdrToStringThread adr False 25) (\<lambda>(_, str). Inr (None, [cstr ''listen '' @ str]))
         else bindE (completion_loop is_client sock adr count fs) (\<lambda>(r, texts). Inr (r, (cstr ''retry'' @ [10]) # texts)))
      else completion_loop is_client sock adr count fs)"

definition Netchan_CheckForCompletion :: "bool \<Rightarrow> nat \<Rightarrow> u32 \<Rightarrow> netstate \<Rightarrow> netstate outcome" where
  "Netchan_CheckForCompletion is_client i expected s =
     (let c = ns_chan s in
      if nc_incoming c i = [] then Inr s
      else bindE (completion_loop is_client (nc_socket c) (nc_remote c) 0 (nc_incoming c i)) (\<lambda>(count, texts).
        let s = s\<lparr>ns_texts := ns_texts s @ texts\<rparr> in
        Inr (if count = Some (unat expected) then s\<lparr>ns_chan := c\<lparr>nc_ready := (nc_ready c)(i := True)\<rparr>\<rparr> else s)))"

record fraghdr =
  fr_used :: bool
  fr_id :: u32
  fr_off :: u32
  fr_len :: u32

definition Netchan_Validate :: "(nat \<Rightarrow> fraghdr) \<Rightarrow> bool" where
  "Netchan_Validate hs =
     list_all (\<lambda>h. \<not> fr_used h \<or>
       (0 \<le> sint (signed_drop_bit 16 (fr_id h)) \<and> sint (signed_drop_bit 16 (fr_id h)) \<le> 0x61A8 \<and>
        sint (fr_id h AND 0xFFFF) \<le> 0x61A8 \<and> 0 \<le> sint (fr_len h) \<and> sint (fr_len h) \<le> 0x800 \<and>
        0 \<le> sint (fr_off h) \<and> sint (fr_off h) \<le> 0x4000)) [hs 0, hs 1]"

definition read_frag_header :: "netmsg \<Rightarrow> (fraghdr \<times> netmsg) outcome" where
  "read_frag_header m =
     bindE (MSG_ReadByte m) (\<lambda>(b, m).
       if b \<noteq> 0 then
         bindE (MSG_ReadLong m) (\<lambda>(ID, m).
         bindE (MSG_ReadShort m) (\<lambda>(off, m).
         bindE (MSG_ReadShort m) (\<lambda>(len, m).
           Inr (\<lparr>fr_used = True, fr_id = ID, fr_off = off, fr_len = len\<rparr>, m))))
       else Inr (\<lparr>fr_used = False, fr_id = 0, fr_off = 0, fr_len = 0\<rparr>, m))"

text \<open>The bytes a pointer at an offset of the packet's array can read.\<close>

definition bytes_at :: "int \<Rightarrow> u8 list \<Rightarrow> u8 list" where
  "bytes_at off data = (if off < 0 then [] else drop (nat off) data)"

fun move_bytes :: "nat \<Rightarrow> int \<Rightarrow> int \<Rightarrow> u8 list \<Rightarrow> u8 list outcome" where
  "move_bytes 0 src dst data = Inr data"
| "move_bytes (Suc n) src dst data =
     (if src < 0 \<or> dst < 0 then Inl OutOfBounds
      else bindE (peek (nat src) 1 data) (\<lambda>bs.
        bindE (poke (nat dst) bs data) (\<lambda>data. move_bytes n (src + 1) (dst + 1) data)))"

text \<open>
  Storing the fragment of stream \<open>i\<close>, whose \<open>len\<close> bytes are read from \<open>src\<close>; \<open>False\<close> is the early
  return.
\<close>

definition put_fragment :: "bool \<Rightarrow> nat \<Rightarrow> u32 \<Rightarrow> u8 list \<Rightarrow> u32 \<Rightarrow> netstate \<Rightarrow> (bool \<times> netstate) outcome" where
  "put_fragment is_client i ID src len s =
     (let c = ns_chan s in
      case Netchan_FindBufferById (nc_incoming c i) ID True of
        (l, found) \<Rightarrow>
          (case found of
             None \<Rightarrow> bindE (Netchan_CheckForCompletion is_client i (ID AND 0xFFFF)
                 (s\<lparr>ns_chan := c\<lparr>nc_incoming := (nc_incoming c)(i := l)\<rparr>\<rparr>)) (\<lambda>s. Inr (True, s))
           | Some k \<Rightarrow>
               bindE (SZ_Write (SZ_Clear (fb_buf (l ! k))) src len) (\<lambda>fb.
                 let c = c\<lparr>nc_incoming := (nc_incoming c)(i := l[k := (l ! k)\<lparr>fb_buf := fb\<rparr>])\<rparr>; s = s\<lparr>ns_chan := c\<rparr> in
                 if sb_overflow fb AND 2 \<noteq> 0 then
                   Inr (False, if is_client then s
                     else s\<lparr>ns_chan := c\<lparr>nc_message := (nc_message c)\<lparr>sb_overflow := sb_overflow (nc_message c) OR 2\<rparr>\<rparr>\<rparr>)
                 else bindE (Netchan_CheckForCompletion is_client i (ID AND 0xFFFF) s) (\<lambda>s. Inr (True, s)))))"

definition store_fragment :: "netenv \<Rightarrow> nat \<Rightarrow> fraghdr \<Rightarrow> netstate \<Rightarrow> (bool \<times> netstate) outcome" where
  "store_fragment env i h s =
     (let m = nt_message (ns_net s) in
      if fr_id h = 0 then Inr (True, s)
      else put_fragment (ne_is_client env) i (fr_id h)
        (bytes_at (int (unat (nm_readcount m)) + sint (fr_off h)) (sb_data (nm_buf m))) (fr_len h) s)"

text \<open>The rest of the packet is moved over the fragment.\<close>

definition cut_fragment :: "fraghdr \<Rightarrow> netstate \<Rightarrow> netstate outcome" where
  "cut_fragment h s =
     (let m = nt_message (ns_net s); b = nm_buf m; base = int (unat (nm_readcount m)) + sint (fr_off h);
          count = sb_cursize b - fr_len h - fr_off h - nm_readcount m in
      bindE (move_bytes (nat (sint count)) (base + sint (fr_len h)) base (sb_data b)) (\<lambda>d.
        Inr (s\<lparr>ns_net := set_buf (\<lambda>b. b\<lparr>sb_data := d, sb_cursize := sb_cursize b - fr_len h\<rparr>) (ns_net s)\<rparr>)))"

definition take_fragment ::
  "netenv \<Rightarrow> nat \<Rightarrow> (nat \<Rightarrow> fraghdr) \<times> netstate \<Rightarrow> (bool \<times> (nat \<Rightarrow> fraghdr) \<times> netstate) outcome" where
  "take_fragment env i x =
     (case x of (hs, s) \<Rightarrow>
       if \<not> fr_used (hs i) then Inr (True, hs, s)
       else bindE (store_fragment env i (hs i) s) (\<lambda>(go, s).
         if \<not> go then Inr (False, hs, s)
         else bindE (cut_fragment (hs i) s) (\<lambda>s.
           Inr (True, if i = 0 then hs(1 := (hs 1)\<lparr>fr_off := fr_off (hs 1) - fr_len (hs 0)\<rparr>) else hs, s))))"

definition take_fragments :: "netenv \<Rightarrow> (nat \<Rightarrow> fraghdr) \<Rightarrow> netstate \<Rightarrow> (bool \<times> netstate) outcome" where
  "take_fragments env hs s =
     bindE (take_fragment env 0 (hs, s)) (\<lambda>(go, hs, s).
       if \<not> go then Inr (False, s)
       else bindE (take_fragment env 1 (hs, s)) (\<lambda>(go, hs, s).
         Inr (go \<and> sb_cursize (nt_buf (ns_net s)) > 0x10, s)))"

text \<open>The sequence numbers of an accepted packet.\<close>

definition accept_packet :: "netenv \<Rightarrow> u32 \<Rightarrow> u32 \<Rightarrow> bool \<Rightarrow> bool \<Rightarrow> netstate \<Rightarrow> netstate" where
  "accept_packet env sequence ack reliable confirm s =
     (let c = ns_chan s; conf = of_bool confirm :: u32;
          c = (if conf = nc_out_rel_seq c \<and> nc_in_ack c + 1 \<ge> nc_out_last_rel c then c\<lparr>nc_rel_len := 0\<rparr> else c) in
      s\<lparr>ns_drop := sequence - nc_in_seq c - 1,
        ns_chan := Netchan_UpdateFlow (ne_realtime env) (flow_record (ne_realtime env) 1 (sb_cursize (nt_buf (ns_net s)))
          (c\<lparr>nc_in_seq := sequence, nc_in_ack := ack, nc_in_rel_ack := conf,
             nc_in_rel_seq := (if reliable then nc_in_rel_seq c XOR 1 else nc_in_rel_seq c)\<rparr>))\<rparr>)"

definition unmunge_packet :: "u32 \<Rightarrow> netstate \<Rightarrow> netstate outcome" where
  "unmunge_packet sequence s =
     (let b = nt_buf (ns_net s) in
      bindE (COM_UnMunge2 (drop 8 (sb_data b)) (sb_cursize b - 8) (sequence AND 0xFF)) (\<lambda>body.
        Inr (s\<lparr>ns_net := set_buf (\<lambda>b. b\<lparr>sb_data := take 8 (sb_data b) @ body\<rparr>) (ns_net s)\<rparr>)))"

definition read_headers :: "netstate \<Rightarrow> ((nat \<Rightarrow> fraghdr) \<times> netstate) outcome" where
  "read_headers s =
     bindE (read_frag_header (nt_message (ns_net s))) (\<lambda>(h0, m).
     bindE (read_frag_header m) (\<lambda>(h1, m).
       Inr (\<lambda>i. if i = 0 then h0 else h1, s\<lparr>ns_net := (ns_net s)\<lparr>nt_message := m\<rparr>\<rparr>)))"

definition Netchan_Process :: "netenv \<Rightarrow> netstate \<Rightarrow> (bool \<times> netstate) outcome" where
  "Netchan_Process env s =
     (if \<not> ne_demo env \<and> \<not> ne_any_source env \<and> \<not> NET_CompareAdr (nc_remote (ns_chan s)) (nt_from (ns_net s)) then Inr (False, s)
      else let s = s\<lparr>ns_chan := (ns_chan s)\<lparr>nc_last_received := ne_realtime env\<rparr>\<rparr> in
      bindE (MSG_ReadLong (MSG_BeginReading (nt_message (ns_net s)))) (\<lambda>(w0, m).
      bindE (MSG_ReadLong m) (\<lambda>(w1, m).
        let s = s\<lparr>ns_net := (ns_net s)\<lparr>nt_message := m\<rparr>\<rparr>;
            reliable = (w0 AND 0x80000000 \<noteq> 0); frags = (w0 AND 0x40000000 \<noteq> 0);
            confirm = (w1 AND 0x80000000 \<noteq> 0); secure = (w1 AND 0x40000000 \<noteq> 0);
            sequence = w0 AND 0x3FFFFFFF; ack = w1 AND 0x3FFFFFFF in
        if secure then Inr (False, s)
        else bindE (unmunge_packet sequence s) (\<lambda>s.
          if frags then
            bindE (read_headers s) (\<lambda>(hs, s).
              if \<not> Netchan_Validate hs then Inr (False, s)
              else if nc_in_seq (ns_chan s) \<ge> sequence then Inr (False, s)
              else take_fragments env hs (accept_packet env sequence ack reliable confirm s))
          else if nc_in_seq (ns_chan s) \<ge> sequence then Inr (False, s)
          else Inr (True, accept_packet env sequence ack reliable confirm s)))))"

end
