(* ===== verification/Reassembly.thy ===== *)
theory Reassembly
  imports Netchan
begin

text \<open>
  Messages in fragments, end to end: what the cutting loop of \<open>Fragments\<close> queues, what the receiver
  keeps of it, and what \<open>Netchan_CopyNormalFragments\<close> puts together.
\<close>

section \<open>Cutting\<close>

text \<open>The buffer of a fragment that holds the bytes \<open>c\<close>, and the fragments of a cut message.\<close>

definition full_buf :: "u8 list \<Rightarrow> sizebuf" where
  "full_buf c = \<lparr>sb_overflow = 0, sb_data = c @ replicate (1400 - length c) 0, sb_maxsize = 0x578, sb_cursize = of_nat (length c)\<rparr>"

definition frags_of :: "nat \<Rightarrow> u8 list list \<Rightarrow> fragbuf list" where
  "frags_of i cs = map (\<lambda>(k, c). Netchan_AllocFragbuf\<lparr>fb_id := of_nat k, fb_buf := full_buf c\<rparr>) (List.enumerate i cs)"

lemma full_buf_contents: "length c \<le> 1400 \<Longrightarrow> sz_contents (full_buf c) = c"
  by (simp add: full_buf_def sz_contents_def unat_of_nat_u32)

lemma write_fresh:
  assumes "sb_overflow b = 0" "sb_maxsize b = 0x578" "sb_data b = replicate 1400 0" "sb_cursize b = 0" and "n \<le> 1400" "n \<le> length src"
  shows "SZ_Write b src (of_nat n) = Inr (full_buf (take n src))"
proof -
  have "sz_wf b" "n \<le> sz_room b"
    using assms by (simp_all add: sz_wf_nat sz_room_def)
  then have "SZ_GetSpace b (of_nat n) = Inr (b\<lparr>sb_cursize := of_nat n\<rparr>, 0)"
    using SZ_GetSpace_fits [of b n] assms(4) by simp
  then show ?thesis
    using assms by (simp add: SZ_Write_def peek_def poke_def unat_of_nat_u32 full_buf_def min_absorb2)
qed

lemma SZ_Clear_fresh: "SZ_Clear (fb_buf Netchan_AllocFragbuf) = fb_buf Netchan_AllocFragbuf"
  by (simp add: SZ_Clear_def Netchan_AllocFragbuf_def)

lemma chop_Nil [simp]: "chop k [] = []"
  by (simp add: chop.simps)

lemma length_chop_le: "0 < k \<Longrightarrow> length (chop k xs) \<le> length xs"
proof (induction k xs rule: chop.induct)
  case (1 k xs)
  then show ?case
    by (cases "xs = []") (auto simp: chop.simps [of k xs] Suc_le_eq intro: le_less_trans)
qed

lemma chop_eq_Nil: "0 < k \<Longrightarrow> chop k xs = [] \<longleftrightarrow> xs = []"
  by (simp add: chop.simps)

lemma take_enum: "take k (List.enumerate i xs) = List.enumerate i (take k xs)"
  by (induction xs arbitrary: i k) (auto simp: take_Cons split: nat.split)

lemma create_loop_frags:
  assumes "0 < fragsize" "fragsize \<le> 1400" "off + left \<le> length data"
  shows "create_loop fragsize data (of_nat i) off left h =
    Inr \<lparr>fh_count = fh_count h + of_nat (length (chop (nat fragsize) (take left (drop off data)))),
      fh_frags = fh_frags h @ frags_of i (chop (nat fragsize) (take left (drop off data)))\<rparr>"
  using assms(3)
proof (induction left arbitrary: off i h rule: less_induct)
  case (less left)
  show ?case
  proof (cases "left = 0")
    case True
    then show ?thesis
      by (subst create_loop.simps, subst (1 2) chop.simps) (simp add: frags_of_def)
  next
    case False
    define chunk where "chunk = (if nat fragsize \<le> left then nat fragsize else left)"
    define rest where "rest = take (left - chunk) (drop (off + chunk) data)"
    have chunk: "0 < chunk" "chunk \<le> left" "chunk \<le> 1400"
      using False assms(1,2) by (auto simp: chunk_def)
    have w: "SZ_Write (fb_buf Netchan_AllocFragbuf) (drop off data) (of_nat chunk) = Inr (full_buf (take chunk (drop off data)))"
      using chunk less(2) by (intro write_fresh) (simp_all add: Netchan_AllocFragbuf_def)
    have "take (nat fragsize) (take left (drop off data)) = take chunk (drop off data)"
      "drop (nat fragsize) (take left (drop off data)) = rest"
      using less(2) by (auto simp: chunk_def rest_def drop_take add.commute)
    then have ch: "chop (nat fragsize) (take left (drop off data)) = take chunk (drop off data) # chop (nat fragsize) rest"
      using False assms(1) less(2) by (subst chop.simps) auto
    have "create_loop fragsize data (of_nat i) off left h =
        create_loop fragsize data (of_nat (Suc i)) (off + chunk) (left - chunk)
          (Netchan_AddFragbufToTail h (Netchan_AllocFragbuf\<lparr>fb_id := of_nat i, fb_buf := full_buf (take chunk (drop off data))\<rparr>))"
      using False assms(1) w by (subst create_loop.simps) (simp add: chunk_def [symmetric] SZ_Clear_fresh Let_def add.commute)
    also have "\<dots> = Inr \<lparr>fh_count = fh_count h + of_nat (length (take chunk (drop off data) # chop (nat fragsize) rest)),
        fh_frags = fh_frags h @ frags_of i (take chunk (drop off data) # chop (nat fragsize) rest)\<rparr>"
      using less(1) [of "left - chunk" "off + chunk" "Suc i"] chunk less(2)
      by (simp add: Netchan_AddFragbufToTail_def frags_of_def rest_def [symmetric])
    finally show ?thesis
      unfolding ch .
  qed
qed

lemma create_fragments:
  assumes "0 < fragsize" "fragsize \<le> 1400" "sz_wf msg" "0 < sb_cursize msg"
  defines "cs \<equiv> chop (nat fragsize) (sz_contents msg)"
  shows "Netchan_CreateFragments_core fragsize c msg =
    Inr (enqueue_holder 0 \<lparr>fh_count = of_nat (length cs), fh_frags = frags_of 1 cs\<rparr> c)"
  using create_loop_frags [OF assms(1,2), of 0 "unat (sb_cursize msg)" "sb_data msg" 1 empty_holder] assms(3,4)
  by (auto simp: Netchan_CreateFragments_core_def cs_def sz_contents_def sz_wf_nat)

section \<open>Receiving in order\<close>

text \<open>The identifier a fragment travels under: its number and, below, how many there are.\<close>

definition wire_id :: "nat \<Rightarrow> nat \<Rightarrow> u32" where
  "wire_id tot k = push_bit 16 (of_nat k AND 0xFFFF) OR (of_nat tot AND 0xFFFF)"

lemma and_ffff: "w AND 0xFFFF = take_bit 16 (w :: u32)"
  by (simp add: take_bit_eq_mask mask_eq_exp_minus_1)

lemma wire_id_parts:
  assumes "k < 2 ^ 16" "tot < 2 ^ 16"
  shows "high16 (wire_id tot k) = of_nat k" "wire_id tot k AND 0xFFFF = of_nat tot"
proof -
  have small: "take_bit 16 (of_nat j :: u32) = of_nat j" if "j < 2 ^ 16" for j
    using that by (simp add: take_bit_of_nat take_bit_nat_eq_self)
  have "high16 (wire_id tot k) = take_bit 16 (of_nat k)"
    unfolding high16_def wire_id_def and_ffff
    by (rule bit_word_eqI) (auto simp: bit_simps)
  then show "high16 (wire_id tot k) = of_nat k"
    using small assms(1) by simp
  have "wire_id tot k AND 0xFFFF = take_bit 16 (of_nat tot)"
    unfolding wire_id_def and_ffff
    by (rule bit_word_eqI) (auto simp: bit_simps)
  then show "wire_id tot k AND 0xFFFF = of_nat tot"
    using small assms(2) by simp
qed

lemma of_nat_u32_less: "j < 2 ^ 16 \<Longrightarrow> k < 2 ^ 16 \<Longrightarrow> (of_nat j :: u32) < of_nat k \<longleftrightarrow> j < k"
  by (simp add: word_less_nat_alt unat_of_nat_u32)

text \<open>The first \<open>n\<close> fragments as the receiver keeps them.\<close>

definition kept :: "nat \<Rightarrow> nat \<Rightarrow> u8 list list \<Rightarrow> fragbuf list" where
  "kept tot i cs = map (\<lambda>(k, c). Netchan_AllocFragbuf\<lparr>fb_id := wire_id tot k, fb_buf := full_buf c\<rparr>) (List.enumerate i cs)"

lemma add_at_end: "(\<And>f. f \<in> set l \<Longrightarrow> high16 (fb_id f) < high16 (fb_id x)) \<Longrightarrow> Netchan_AddBufferToList l x = l @ [x]"
  by (induction l x rule: Netchan_AddBufferToList.induct) (auto simp: not_less less_imp_le)

lemma find_index_none: "(\<And>x. x \<in> set xs \<Longrightarrow> \<not> P x) \<Longrightarrow> find_index P xs = None"
  by (induction xs) auto

lemma find_index_last: "(\<And>x. x \<in> set xs \<Longrightarrow> \<not> P x) \<Longrightarrow> P y \<Longrightarrow> find_index P (xs @ [y]) = Some (length xs)"
  by (induction xs) auto


lemma completion_counts: "completion_loop False sock adr n l = Inr (Some (n + length l), [])"
  by (induction l arbitrary: n) simp_all

lemma in_kept: "f \<in> set (kept tot i cs) \<Longrightarrow> \<exists>k. fb_id f = wire_id tot k \<and> i \<le> k \<and> k < i + length cs"
  by (force simp: kept_def in_set_enumerate_eq)

text \<open>The state with the incoming message fragments and the ready flag replaced.\<close>

definition with_frags :: "fragbuf list \<Rightarrow> bool \<Rightarrow> netstate \<Rightarrow> netstate" where
  "with_frags l r s = s\<lparr>ns_chan := (ns_chan s)\<lparr>nc_incoming := (nc_incoming (ns_chan s))(0 := l),
     nc_ready := (nc_ready (ns_chan s))(0 := r)\<rparr>\<rparr>"

lemma with_frags_simps:
  "nc_incoming (ns_chan (with_frags l r s)) 0 = l" "nc_ready (ns_chan (with_frags l r s)) 0 = r"
  "with_frags l r (with_frags l' r' s) = with_frags l r s"
  by (simp_all add: with_frags_def)

lemma with_frags_same: "with_frags (nc_incoming (ns_chan s) 0) (nc_ready (ns_chan s) 0) s = s"
  by (simp add: with_frags_def)

lemma put_next_fragment:
  assumes l: "nc_incoming (ns_chan s) 0 = kept tot 1 cs" and n: "length cs < tot" "tot < 2 ^ 16"
    and src: "k \<le> 1400" "k \<le> length src"
  defines "cs' \<equiv> cs @ [take k src]"
  shows "put_fragment False 0 (wire_id tot (length cs')) src (of_nat k) s =
    Inr (True, with_frags (kept tot 1 cs') (nc_ready (ns_chan s) 0 \<or> length cs' = tot) s)"
proof -
  let ?x = "Netchan_AllocFragbuf\<lparr>fb_id := wire_id tot (length cs')\<rparr>" and ?l = "kept tot 1 cs"
  have high: "high16 (fb_id f) < high16 (fb_id ?x)" if f: "f \<in> set ?l" for f
  proof -
    obtain k where k: "fb_id f = wire_id tot k" "k < length cs'"
      using in_kept [OF f] by (auto simp: cs'_def)
    moreover have "length cs' < 2 ^ 16"
      using n by (simp add: cs'_def)
    ultimately show ?thesis
      using wire_id_parts(1) [of _ tot] n(2) of_nat_u32_less [of k "length cs'"] by simp
  qed
  then have add: "Netchan_AddBufferToList ?l ?x = ?l @ [?x]"
    by (rule add_at_end)
  have no: "fb_id f \<noteq> wire_id tot (length cs')" if "f \<in> set ?l" for f
    using high [OF that] by auto
  have "find_index (\<lambda>f. fb_id f = wire_id tot (length cs')) (?l @ [?x]) = Some (length ?l)"
    using no by (intro find_index_last) auto
  then have find: "Netchan_FindBufferById ?l (wire_id tot (length cs')) True = (?l @ [?x], Some (length ?l))"
    using no by (simp add: Netchan_FindBufferById_def Let_def add find_index_none del: One_nat_def)
  have w: "SZ_Write (SZ_Clear (fb_buf ?x)) src (of_nat k) = Inr (full_buf (take k src))"
    using src by (simp add: SZ_Clear_fresh) (intro write_fresh, simp_all add: Netchan_AllocFragbuf_def)
  have nth: "(?l @ [?x]) ! length ?l = ?x" "(?l @ [?x])[length ?l := ?x\<lparr>fb_buf := full_buf (take k src)\<rparr>] = kept tot 1 cs'"
    by (simp_all add: nth_append kept_def cs'_def list_update_append enumerate_append_eq)
  have ffff: "unat (wire_id tot (length cs') AND 0xFFFF) = tot"
    using n wire_id_parts(2) [of "length cs'" tot] by (simp add: cs'_def unat_of_nat_u32)
  have ne: "kept tot 1 cs' \<noteq> []"
    unfolding kept_def cs'_def map_is_Nil_conv by (metis enumerate_simps(1) length_enumerate snoc_eq_iff_butlast length_0_conv)
  have ne': "length (kept tot 1 cs') = length cs'" "sb_overflow (full_buf c) = 0" for c
    by (simp_all add: kept_def cs'_def full_buf_def)
  let ?c = "(ns_chan s)\<lparr>nc_incoming := (nc_incoming (ns_chan s))(0 := kept tot 1 cs')\<rparr>"
  have "put_fragment False 0 (wire_id tot (length cs')) src (of_nat k) s =
      bindE (Netchan_CheckForCompletion False 0 (wire_id tot (length cs') AND 0xFFFF) (s\<lparr>ns_chan := ?c\<rparr>)) (\<lambda>s. Inr (True, s))"
    unfolding put_fragment_def Let_def l find prod.case option.case nth w bindE_simps ne'(2) by simp
  also have "\<dots> = Inr (True, with_frags (kept tot 1 cs') (nc_ready (ns_chan s) 0 \<or> length cs' = tot) s)"
    using ne ne'(1) ffff by (simp add: Netchan_CheckForCompletion_def completion_counts Let_def with_frags_def fun_upd_idem)
  finally show ?thesis .
qed

text \<open>The receiver takes the fragments under the identifiers \<^verbatim>\<open>Netchan_Transmit\<close> gives them.\<close>

definition receive_all :: "u32 \<Rightarrow> fragbuf list \<Rightarrow> netstate \<Rightarrow> netstate outcome" where
  "receive_all count fs s =
     foldE (\<lambda>s f. bindE (put_fragment False 0 (push_bit 16 (fb_id f AND 0xFFFF) OR (count AND 0xFFFF))
         (sb_data (fb_buf f)) (sb_cursize (fb_buf f)) s) (\<lambda>(_, s). Inr s)) s fs"

lemma receive_all_simps:
  "receive_all n [] s = Inr s"
  "receive_all n (f # fs) s =
     bindE (put_fragment False 0 (push_bit 16 (fb_id f AND 0xFFFF) OR (n AND 0xFFFF))
       (sb_data (fb_buf f)) (sb_cursize (fb_buf f)) s) (\<lambda>(_, s). receive_all n fs s)"
  by (simp_all add: receive_all_def bindE_assoc split_def)

lemma frags_of_simps:
  "frags_of i [] = []"
  "frags_of i (c # cs) = Netchan_AllocFragbuf\<lparr>fb_id := of_nat i, fb_buf := full_buf c\<rparr> # frags_of (Suc i) cs"
  by (simp_all add: frags_of_def)

lemma receive_in_order:
  "nc_incoming (ns_chan s) 0 = kept tot 1 done \<Longrightarrow> length done + length cs \<le> tot \<Longrightarrow> tot < 2 ^ 16 \<Longrightarrow>
    (\<And>c. c \<in> set cs \<Longrightarrow> length c \<le> 1400) \<Longrightarrow>
    receive_all (of_nat tot) (frags_of (Suc (length done)) cs) s =
      Inr (with_frags (kept tot 1 (done @ cs)) (nc_ready (ns_chan s) 0 \<or> (cs \<noteq> [] \<and> length (done @ cs) = tot)) s)"
proof (induction cs arbitrary: "done" s)
  case Nil
  then show ?case
    using with_frags_same [of s] by (simp add: receive_all_simps frags_of_simps)
next
  case (Cons c cs)
  define s1 where "s1 = with_frags (kept tot 1 (done @ [c])) (nc_ready (ns_chan s) 0 \<or> length (done @ [c]) = tot) s"
  have c: "length c \<le> 1400" "length c \<le> length (sb_data (full_buf c))" "take (length c) (sb_data (full_buf c)) = c"
    using Cons.prems(4) by (simp_all add: full_buf_def)
  have "length done < tot"
    using Cons.prems(2) by simp
  from put_next_fragment [OF Cons.prems(1) this Cons.prems(3) c(1,2)]
  have step: "put_fragment False 0 (wire_id tot (Suc (length done))) (sb_data (full_buf c)) (of_nat (length c)) s = Inr (True, s1)"
    unfolding c(3) s1_def by simp
  have "receive_all (of_nat tot) (frags_of (Suc (length done)) (c # cs)) s = receive_all (of_nat tot) (frags_of (Suc (length (done @ [c]))) cs) s1"
    using step by (simp add: frags_of_simps receive_all_simps wire_id_def full_buf_def del: of_nat_Suc)
  also have "\<dots> = Inr (with_frags (kept tot 1 ((done @ [c]) @ cs))
      (nc_ready (ns_chan s1) 0 \<or> (cs \<noteq> [] \<and> length ((done @ [c]) @ cs) = tot)) s1)"
    using Cons.prems by (intro Cons.IH) (auto simp: s1_def with_frags_simps)
  also have "\<dots> = Inr (with_frags (kept tot 1 (done @ c # cs)) (nc_ready (ns_chan s) 0 \<or> length (done @ c # cs) = tot) s)"
    using Cons.prems(2) unfolding s1_def with_frags_simps by (cases cs) auto
  finally show ?case
    by simp
qed

lemma SZ_Write_take: "n \<le> length src \<Longrightarrow> n < 2 ^ 32 \<Longrightarrow> SZ_Write b src (of_nat n) = sz_put b (take n src)"
  by (simp add: SZ_Write_def sz_put_def peek_def split_def min_absorb2 unat_of_nat_u32)

lemma copy_frags_Cons:
  "copy_frags (f # l) b = bindE (SZ_Write b (sb_data (fb_buf f)) (sb_cursize (fb_buf f))) (copy_frags l)"
  by (simp add: copy_frags_def fun_eq_iff bindE_def split: sum.splits)

lemma kept_simps:
  "kept tot i [] = []"
  "kept tot i (c # cs) = Netchan_AllocFragbuf\<lparr>fb_id := wire_id tot i, fb_buf := full_buf c\<rparr> # kept tot (Suc i) cs"
  by (simp_all add: kept_def)

lemma copy_kept_puts: "(\<And>c. c \<in> set cs \<Longrightarrow> length c \<le> 1400) \<Longrightarrow> copy_frags (kept tot i cs) b = foldE sz_put b cs"
proof (induction cs arbitrary: b i)
  case Nil
  then show ?case
    by (simp add: copy_frags_def kept_simps)
next
  case (Cons c cs)
  have "SZ_Write b (sb_data (full_buf c)) (sb_cursize (full_buf c)) = sz_put b c"
    using SZ_Write_take [of "length c" "sb_data (full_buf c)" b] Cons.prems [of c] by (simp add: full_buf_def)
  moreover have "copy_frags (kept tot (Suc i) cs) b = foldE sz_put b cs" for b
    using Cons.prems by (intro Cons.IH) simp
  ultimately show ?case
    by (simp add: copy_frags_Cons kept_simps bindE_def split: sum.splits)
qed

lemma copy_kept:
  assumes "sz_wf b" "length (concat cs) \<le> sz_room b" "\<And>c. c \<in> set cs \<Longrightarrow> length c \<le> 1400"
  shows "\<exists>b'. copy_frags (kept tot i cs) b = Inr b' \<and> sz_contents b' = sz_contents b @ concat cs"
  using sz.append_all [OF assms(1,2)] copy_kept_puts [OF assms(3)] by metis

text \<open>
  C6. A message cut into fragments is put together again: \<^verbatim>\<open>Netchan_CreateFragments\<close> queues fragments of
  at most the given size; a receiver that takes them in order, under the identifiers they travel with,
  reports the message ready with the last of them and not before; \<^verbatim>\<open>Netchan_CopyNormalFragments\<close> then
  leaves exactly the message to be read and the fragment list empty.
\<close>

theorem fragments_reassemble:
  assumes "0 < fragsize" "fragsize \<le> 1400" and "sz_wf msg" "0 < sb_cursize msg" "unat (sb_cursize msg) < 2 ^ 16"
    and "nc_incoming (ns_chan s) 0 = []" "\<not> nc_ready (ns_chan s) 0"
    and "nm_wf m" "sb_cursize msg \<le> sb_maxsize (nm_buf m)"
  shows "\<exists>h. Netchan_CreateFragments_core fragsize c msg = Inr (enqueue_holder 0 h c) \<and>
    (\<forall>f \<in> set (fh_frags h). int (unat (sb_cursize (fb_buf f))) \<le> fragsize) \<and>
    (\<forall>k < length (fh_frags h). \<exists>s'. receive_all (fh_count h) (take k (fh_frags h)) s = Inr s' \<and> \<not> nc_ready (ns_chan s') 0) \<and>
    (\<exists>s' c' m'. receive_all (fh_count h) (fh_frags h) s = Inr s' \<and>
       Netchan_CopyNormalFragments (ns_chan s', m) = Inr (True, c', m') \<and> unread m' = sz_contents msg \<and>
       nc_incoming c' 0 = [] \<and> \<not> nc_ready c' 0)"
proof -
  define cs where "cs = chop (nat fragsize) (sz_contents msg)"
  define tot where "tot = length cs"
  define h where "h = \<lparr>fh_count = of_nat tot, fh_frags = frags_of 1 cs\<rparr>"
  have cat: "concat cs = sz_contents msg"
    using assms(1) by (simp add: cs_def concat_chop)
  have small: "length c \<le> nat fragsize" "length c \<le> 1400" if "c \<in> set cs" for c
    using chop_small [of c "nat fragsize" "sz_contents msg"] that assms(2) by (simp_all add: cs_def)
  have tot: "tot < 2 ^ 16" "cs \<noteq> []"
    using length_chop_le [of "nat fragsize" "sz_contents msg"] chop_eq_Nil [of "nat fragsize" "sz_contents msg"]
      assms(1,3-5) length_sz_contents [OF assms(3)]
    by (auto simp: cs_def tot_def word_less_nat_alt)
  have received: "receive_all (of_nat tot) (frags_of 1 (take k cs)) s =
      Inr (with_frags (kept tot 1 (take k cs)) (take k cs \<noteq> [] \<and> length (take k cs) = tot) s)" for k
  proof -
    have "receive_all (of_nat tot) (frags_of (Suc (length ([] :: u8 list list))) (take k cs)) s = Inr (with_frags (kept tot 1 ([] @ take k cs))
        (nc_ready (ns_chan s) 0 \<or> (take k cs \<noteq> [] \<and> length ([] @ take k cs) = tot)) s)"
      using assms(6) tot(1) small(2) by (intro receive_in_order) (auto simp: kept_simps tot_def dest: in_set_takeD)
    then show ?thesis
      using assms(7) by simp
  qed
  have prefix: "take k (frags_of 1 cs) = frags_of 1 (take k cs)" for k
    by (simp add: frags_of_def take_map take_enum)
  let ?m = "MSG_BeginReading (m\<lparr>nm_buf := SZ_Clear (nm_buf m)\<rparr>)"
  have "sz_wf (nm_buf ?m)" "sz_contents (nm_buf ?m) = []" "sz_room (nm_buf ?m) = unat (sb_maxsize (nm_buf m))"
    using assms(8) by (simp_all add: MSG_BeginReading_def SZ_Clear_def nm_wf_def sz_wf_nat sz_contents_def sz_room_def)
  moreover have "length (concat cs) \<le> unat (sb_maxsize (nm_buf m))"
    using assms(3,9) cat length_sz_contents [OF assms(3)] by (simp add: word_le_nat_alt)
  ultimately obtain b' where b': "copy_frags (kept tot 1 cs) (nm_buf ?m) = Inr b'" "sz_contents b' = concat cs"
    using copy_kept [of "nm_buf ?m" cs tot 1] small(2) by auto
  have "kept tot 1 cs \<noteq> []"
    using tot(2) by (cases cs) (simp_all add: kept_simps)
  let ?s' = "with_frags (kept tot 1 cs) True s"
  let ?c' = "(ns_chan ?s')\<lparr>nc_ready := (nc_ready (ns_chan ?s'))(0 := False), nc_incoming := (nc_incoming (ns_chan ?s'))(0 := [])\<rparr>"
  have copied: "Netchan_CopyNormalFragments (ns_chan ?s', m) = Inr (True, ?c', ?m\<lparr>nm_buf := b'\<rparr>)"
    using b'(1) \<open>kept tot 1 cs \<noteq> []\<close> by (simp add: Netchan_CopyNormalFragments_def Let_def with_frags_simps)
  have whole: "unread (?m\<lparr>nm_buf := b'\<rparr>) = sz_contents msg"
    using b'(2) cat by (simp add: unread_def MSG_BeginReading_def)
  have all: "receive_all (of_nat tot) (frags_of 1 cs) s = Inr ?s'"
    using received [of tot] tot(2) by (simp add: tot_def)
  have "\<exists>s' c' m'. receive_all (of_nat tot) (frags_of 1 cs) s = Inr s' \<and>
      Netchan_CopyNormalFragments (ns_chan s', m) = Inr (True, c', m') \<and> unread m' = sz_contents msg \<and>
      nc_incoming c' 0 = [] \<and> \<not> nc_ready c' 0"
    by (intro exI conjI, rule all, rule copied, rule whole) simp_all
  moreover have "\<forall>k < length (frags_of 1 cs). \<exists>s'. receive_all (of_nat tot) (take k (frags_of 1 cs)) s = Inr s' \<and> \<not> nc_ready (ns_chan s') 0"
    unfolding prefix received by (simp add: frags_of_def tot_def with_frags_simps)
  moreover have "\<forall>f \<in> set (frags_of 1 cs). int (unat (sb_cursize (fb_buf f))) \<le> fragsize"
  proof
    fix f assume "f \<in> set (frags_of 1 cs)"
    then obtain k c where "(k, c) \<in> set (List.enumerate 1 cs)" "f = Netchan_AllocFragbuf\<lparr>fb_id := of_nat k, fb_buf := full_buf c\<rparr>"
      by (auto simp: frags_of_def)
    then have "c \<in> set cs" "f = Netchan_AllocFragbuf\<lparr>fb_id := of_nat k, fb_buf := full_buf c\<rparr>"
      by (auto simp: in_set_enumerate_eq)
    then show "int (unat (sb_cursize (fb_buf f))) \<le> fragsize"
      using small [of c] assms(1) unat_of_nat_u32 [of "length c"] by (simp add: full_buf_def nat_le_iff [symmetric] le_nat_iff)
  qed
  ultimately show ?thesis
    using create_fragments [OF assms(1-4), of c] by (intro exI [of _ h]) (simp add: h_def cs_def tot_def)
qed

definition sample_state :: netstate where
  "sample_state = \<lparr>ns_chan = zero_netchan, ns_net = empty_net, ns_drop = 0, ns_texts = []\<rparr>"

theorem fragments_reassemble_witness:
  "\<exists>h s' c' m'. Netchan_CreateFragments_core 128 zero_netchan \<lparr>sb_overflow = 1, sb_data = replicate 0xF98 5, sb_maxsize = 0xF96, sb_cursize = 3000\<rparr> =
       Inr (enqueue_holder 0 h zero_netchan) \<and>
     receive_all (fh_count h) (fh_frags h) sample_state = Inr s' \<and>
     Netchan_CopyNormalFragments (ns_chan s', nt_message empty_net) = Inr (True, c', m') \<and> unread m' = replicate 3000 5"
proof -
  let ?msg = "\<lparr>sb_overflow = 1, sb_data = replicate 0xF98 5, sb_maxsize = 0xF96, sb_cursize = 3000\<rparr>"
  have c: "sz_contents ?msg = replicate 3000 5"
    by (simp add: sz_contents_def)
  have "sz_wf ?msg" "nm_wf (nt_message empty_net)" "sb_cursize ?msg \<le> sb_maxsize (nt_buf empty_net)"
    by (simp_all add: sz_wf_nat nm_wf_def empty_net_def)
  from fragments_reassemble [OF _ _ this(1) _ _ _ _ this(2,3), of 128 sample_state zero_netchan]
  show ?thesis
    unfolding c by (auto simp: sample_state_def zero_netchan_def)
qed

end
