(* ===== verification/FileFragments.thy ===== *)
theory FileFragments
  imports Reassembly
begin

text \<open>
  What goes wrong at the edges of the fragment code of \<^verbatim>\<open>NET.c\<close>: fragments larger than their buffer, files
  sent from memory, and files received.
\<close>

section \<open>The size a client asks for\<close>

lemma write_too_long:
  assumes "1400 < n" "n < 2 ^ 31"
  shows "SZ_Write (SZ_Clear (fb_buf Netchan_AllocFragbuf)) src (of_nat n) = Inl SysError"
proof -
  have "SZ_GetSpace (fb_buf Netchan_AllocFragbuf) (of_nat n) = Inl SysError"
    using assms by (intro SZ_GetSpace_too_big) (simp_all add: Netchan_AllocFragbuf_def)
  then show ?thesis
    by (simp add: SZ_Clear_fresh SZ_Write_def)
qed

lemma fragment_size_asked:
  assumes "Info_ValueForKey info (cstr ''cl_dlmax'') = dec v" "0x40 \<le> v" "v \<le> 0x4000"
  shows "SV_GetFragmentSize True info = int v"
  using assms dec_not_Nil [of v] by (simp add: SV_GetFragmentSize_def Let_def atoi_dec)

lemma cut_asked_size:
  assumes "1400 < v" "sz_wf msg" "unat (sb_cursize msg) < 2 ^ 31"
  shows "1400 < unat (sb_cursize msg) \<Longrightarrow> Netchan_CreateFragments_core (int v) c msg = Inl SysError"
    and "unat (sb_cursize msg) \<le> 1400 \<Longrightarrow> \<exists>hs. Netchan_CreateFragments_core (int v) c msg = Inr (c\<lparr>nc_waiting := hs\<rparr>)"
proof -
  let ?n = "unat (sb_cursize msg)"
  show "Netchan_CreateFragments_core (int v) c msg = Inl SysError" if "1400 < ?n"
  proof -
    have "create_loop (int v) (sb_data msg) 1 0 ?n empty_holder = Inl SysError"
      using write_too_long [of v "sb_data msg"] write_too_long [of ?n "sb_data msg"] assms that
      by (subst create_loop.simps) (auto simp: Let_def)
    moreover have "sb_cursize msg \<noteq> 0"
      using that by auto
    ultimately show ?thesis
      by (simp add: Netchan_CreateFragments_core_def)
  qed
  show "\<exists>hs. Netchan_CreateFragments_core (int v) c msg = Inr (c\<lparr>nc_waiting := hs\<rparr>)" if n: "?n \<le> 1400"
  proof (cases "sb_cursize msg = 0")
    case True
    then have "Netchan_CreateFragments_core (int v) c msg = Inr (c\<lparr>nc_waiting := nc_waiting c\<rparr>)"
      by (simp add: Netchan_CreateFragments_core_def)
    then show ?thesis
      by blast
  next
    case False
    have "SZ_Write (SZ_Clear (fb_buf Netchan_AllocFragbuf)) (sb_data msg) (of_nat ?n) = Inr (full_buf (take ?n (sb_data msg)))"
      using n assms(2) unfolding SZ_Clear_fresh by (intro write_fresh) (simp_all add: Netchan_AllocFragbuf_def sz_wf_nat)
    then have "\<exists>h. create_loop (int v) (sb_data msg) 1 0 ?n empty_holder = Inr h"
      using assms(1) n False by (subst create_loop.simps) (simp add: Let_def create_loop.simps [of _ _ _ _ 0] unat_eq_zero)
    then show ?thesis
      using False by (auto simp: Netchan_CreateFragments_core_def enqueue_holder_def)
  qed
qed

text \<open>
  A client chooses the size of the fragments the server sends it with \<^verbatim>\<open>cl_dlmax\<close> in its info string,
  up to 16384, but a fragment buffer holds 1400 bytes: with any value above 1400, a message of more
  than 1400 bytes that is cut into fragments for that client ends the server, whatever the channel
  itself still holds.
\<close>

theorem client_fragment_size_fatal:
  assumes "Info_ValueForKey info (cstr ''cl_dlmax'') = dec v" "1400 < v" "v \<le> 0x4000"
    and "sz_wf msg" "1400 < unat (sb_cursize msg)" "unat (sb_cursize msg) < 2 ^ 31"
    and "sz_wf (nc_message c)" "unat (sb_cursize (nc_message c)) < 2 ^ 31"
  shows "Netchan_CreateFragments (SV_GetFragmentSize True info) c (Some msg) = Inl SysError"
proof -
  have sz: "SV_GetFragmentSize True info = int v"
    using assms(1-3) by (intro fragment_size_asked) auto
  note msg = cut_asked_size(1) [OF assms(2,4,6,5)] and own = cut_asked_size [OF assms(2,7,8), of c]
  show ?thesis
  proof (cases "1400 < unat (sb_cursize (nc_message c))")
    case True
    then have "0 < sb_cursize (nc_message c)"
      by (simp add: word_less_nat_alt)
    then show ?thesis
      using own(1) True sz by (simp add: Netchan_CreateFragments_def)
  next
    case False
    then obtain hs where "Netchan_CreateFragments_core (int v) c (nc_message c) = Inr (c\<lparr>nc_waiting := hs\<rparr>)"
      using own(2) by auto
    then show ?thesis
      using msg sz by (simp add: Netchan_CreateFragments_def)
  qed
qed

theorem client_fragment_size_fatal_witness:
  "Netchan_CreateFragments (SV_GetFragmentSize True (render [(cstr ''cl_dlmax'', dec 5000)]))
     (zero_netchan\<lparr>nc_message := SZ_Alloc 300\<rparr>)
     (Some \<lparr>sb_overflow = 0, sb_data = replicate 4000 0, sb_maxsize = 4000, sb_cursize = 2000\<rparr>) = Inl SysError"
proof (rule client_fragment_size_fatal)
  have "pairs_ok [(cstr ''cl_dlmax'', dec 5000)]"
    by (simp add: pairs_ok_def cstr_def cchar_def bslash_def dec.simps)
  from ValueForKey_render [OF this, of "cstr ''cl_dlmax''"]
  show "Info_ValueForKey (render [(cstr ''cl_dlmax'', dec 5000)]) (cstr ''cl_dlmax'') = dec 5000"
    by (simp add: lookup_def)
qed (simp_all add: sz_wf_nat SZ_Alloc_def)

section \<open>A file from a buffer\<close>

lemma buffer_loop_rest:
  assumes "0 < fragsize" "fragsize \<le> 1400" "0 \<le> sent" "sent + left \<le> int (length buffer)"
  shows "\<exists>h' k. buffer_loop fragsize filename buffer False i sent left h = Inr h' \<and>
    concat (map (\<lambda>f. sz_contents (fb_buf f)) (fh_frags h')) =
      concat (map (\<lambda>f. sz_contents (fb_buf f)) (fh_frags h)) @ take k (drop (nat sent) buffer) \<and>
    2 * int k \<le> (if left \<le> 0 then 0 else left + fragsize) \<and> int k \<le> max 0 left"
  using assms(3,4)
proof (induction "nat left" arbitrary: i sent left h rule: less_induct)
  case less
  show ?case
  proof (cases "left \<le> 0")
    case True
    then show ?thesis
      by (intro exI [of _ h] exI [of _ 0]) (simp add: buffer_loop.simps)
  next
    case False
    define chunk where "chunk = (if fragsize \<le> left then fragsize else left)"
    have chunk: "0 < chunk" "chunk \<le> left" "chunk \<le> 1400" "chunk \<le> fragsize" "sent + chunk \<le> int (length buffer)"
      using False assms(1,2) less(3) by (auto simp: chunk_def)
    let ?src = "drop (nat sent) buffer"
    have "SZ_Write (fb_buf Netchan_AllocFragbuf) ?src (of_nat (nat chunk)) = Inr (full_buf (take (nat chunk) ?src))"
      using chunk less(2) by (intro write_fresh) (simp_all add: Netchan_AllocFragbuf_def)
    then have w: "MSG_WriteBuf (fb_buf Netchan_AllocFragbuf) (of_int chunk) (Some ?src) = Inr (full_buf (take (nat chunk) ?src))"
      using chunk(1) by (simp add: MSG_WriteBuf_def)
    define f where "f = Netchan_AllocFragbuf\<lparr>fb_id := i, fb_buf := full_buf (take (nat chunk) ?src), fb_is_file := True,
                 fb_in_memory := True, fb_size := chunk, fb_offset := sent\<rparr>"
    have f: "sz_contents (fb_buf f) = take (nat chunk) ?src"
      using chunk by (simp add: f_def full_buf_contents)
    have step: "buffer_loop fragsize filename buffer False i sent left h =
        buffer_loop fragsize filename buffer False (i + 1) (sent + chunk) (left - chunk - chunk) (Netchan_AddFragbufToTail h f)"
      using False assms(1) w by (subst buffer_loop.simps) (simp add: chunk_def [symmetric] SZ_Clear_fresh Let_def f_def)
    obtain h' k where h': "buffer_loop fragsize filename buffer False (i + 1) (sent + chunk) (left - chunk - chunk)
          (Netchan_AddFragbufToTail h f) = Inr h'"
        "concat (map (\<lambda>f. sz_contents (fb_buf f)) (fh_frags h')) =
          concat (map (\<lambda>f. sz_contents (fb_buf f)) (fh_frags (Netchan_AddFragbufToTail h f))) @ take k (drop (nat (sent + chunk)) buffer)"
        "2 * int k \<le> (if left - chunk - chunk \<le> 0 then 0 else left - chunk - chunk + fragsize)" "int k \<le> max 0 (left - chunk - chunk)"
      using less(1) [of "left - chunk - chunk" "sent + chunk" "i + 1" "Netchan_AddFragbufToTail h f"] chunk less(2,3) by auto
    have "take (nat chunk) ?src @ take k (drop (nat (sent + chunk)) buffer) = take (nat chunk + k) ?src"
      using chunk less(2) unfolding take_add drop_drop by (simp add: nat_add_distrib add.commute)
    then have "concat (map (\<lambda>f. sz_contents (fb_buf f)) (fh_frags h')) =
        concat (map (\<lambda>f. sz_contents (fb_buf f)) (fh_frags h)) @ take (nat chunk + k) ?src"
      using h'(2) f by (simp add: Netchan_AddFragbufToTail_def)
    moreover have "2 * int (nat chunk + k) \<le> left + fragsize" "int (nat chunk + k) \<le> left"
      using h'(3,4) chunk by (auto simp: chunk_def split: if_splits)
    ultimately show ?thesis
      using step h'(1) False by (intro exI [of _ h'] exI [of _ "nat chunk + k"]) simp
  qed
qed

text \<open>
  A file sent from a buffer never arrives whole: for every file of at least the length of its name
  (with the terminator), which must fit a fragment, the fragments hold the name and a proper prefix of
  the file, of about half of it when it needs many fragments (the loop takes the part of each fragment
  off what is left twice).
\<close>

theorem file_from_buffer_truncated:
  assumes "0 < fragsize" "fragsize \<le> 1400" "int (length filename) < fragsize"
    and "length filename < length buffer" "length buffer < 2 ^ 31"
  shows "\<exists>h k. Netchan_CreateFileFragmentsFromBuffer fragsize c filename buffer (int (length buffer)) = Inr (enqueue_holder 1 h c) \<and>
    concat (map (\<lambda>f. sz_contents (fb_buf f)) (fh_frags h)) = filename @ [0] @ take k buffer \<and>
    k < length buffer \<and> 2 * int k \<le> int (length buffer) + fragsize"
proof -
  let ?N = "int (length buffer)" and ?n = "int (length filename) + 1"
  have "buffer \<noteq> []"
    using assms(4) by auto
  define m where "m = (if fragsize \<le> ?N then fragsize else ?N)"
  have m: "?n \<le> m" "m \<le> ?N" "m \<le> fragsize"
    using assms(3,4) by (auto simp: m_def)
  have "SZ_Write (fb_buf Netchan_AllocFragbuf) (filename @ [0]) (of_nat (length (filename @ [0]))) = Inr (full_buf (filename @ [0]))"
    using assms(2,3) write_fresh [of "fb_buf Netchan_AllocFragbuf" "length (filename @ [0])" "filename @ [0]"]
    by (simp add: Netchan_AllocFragbuf_def)
  then have name: "MSG_WriteString (fb_buf Netchan_AllocFragbuf) (Some filename) = Inr (full_buf (filename @ [0]))"
    by (simp add: MSG_WriteString_def add.commute)
  have cur: "int (unat (sb_cursize (full_buf (filename @ [0])))) = ?n"
    using assms(2,3) unat_of_nat_u32 [of "length (filename @ [0])"] by (simp add: full_buf_def)
  define part where "part = take (nat (m - ?n)) buffer"
  have "sz_wf (full_buf (filename @ [0]))" "nat (m - ?n) \<le> sz_room (full_buf (filename @ [0]))"
  proof -
    have "unat (sb_cursize (full_buf (filename @ [0]))) = length filename + 1" "unat (sb_maxsize (full_buf (filename @ [0]))) = 1400"
      "length (sb_data (full_buf (filename @ [0]))) = 1400"
      using unat_of_nat_u32 [of "length (filename @ [0 :: u8])"] assms(2,3) by (simp_all add: full_buf_def)
    then show "sz_wf (full_buf (filename @ [0]))" "nat (m - ?n) \<le> sz_room (full_buf (filename @ [0]))"
      unfolding sz_wf_nat sz_room_def using assms(2,3) m by auto
  qed
  then obtain b where b: "sz_put (full_buf (filename @ [0])) part = Inr b" "sz_contents b = filename @ [0] @ part"
    using sz_put_append [of "full_buf (filename @ [0])" part] full_buf_contents [of "filename @ [0]"] assms(2,3)
    by (fastforce simp: part_def)
  have "SZ_Write (full_buf (filename @ [0])) buffer (of_nat (nat (m - ?n))) = Inr b"
    using m assms(5) b(1) by (subst SZ_Write_take) (simp_all add: part_def nat_less_iff)
  then have w: "MSG_WriteBuf (full_buf (filename @ [0])) (of_int (m - ?n)) (Some buffer) = Inr b"
    using m(1) by (simp add: MSG_WriteBuf_def)
  have "(of_int (m - ?n) :: u32) = of_int m - sb_cursize (full_buf (filename @ [0]))"
    unfolding cur [symmetric] by simp
  from w [unfolded this] have w': "MSG_WriteBuf (full_buf (filename @ [0])) (of_int m - sb_cursize (full_buf (filename @ [0]))) (Some buffer) = Inr b" .
  define f where "f = Netchan_AllocFragbuf\<lparr>fb_id := 1, fb_buf := b, fb_is_file := True, fb_in_memory := True,
      fb_size := m - ?n, fb_offset := 0\<rparr>"
  have step: "buffer_loop fragsize filename buffer True 1 0 ?N empty_holder =
      buffer_loop fragsize filename buffer False 2 (m - ?n) (?N - m - (m - ?n)) (Netchan_AddFragbufToTail empty_holder f)"
    using assms(1) \<open>buffer \<noteq> []\<close> name cur w' by (subst buffer_loop.simps) (simp add: m_def [symmetric] SZ_Clear_fresh Let_def f_def)
  obtain h k where h: "buffer_loop fragsize filename buffer False 2 (m - ?n) (?N - m - (m - ?n)) (Netchan_AddFragbufToTail empty_holder f) = Inr h"
      "concat (map (\<lambda>f. sz_contents (fb_buf f)) (fh_frags h)) =
        concat (map (\<lambda>f. sz_contents (fb_buf f)) (fh_frags (Netchan_AddFragbufToTail empty_holder f))) @ take k (drop (nat (m - ?n)) buffer)"
      "2 * int k \<le> (if ?N - m - (m - ?n) \<le> 0 then 0 else ?N - m - (m - ?n) + fragsize)" "int k \<le> max 0 (?N - m - (m - ?n))"
    using buffer_loop_rest [OF assms(1,2), of "m - ?n" "?N - m - (m - ?n)" buffer filename 2 "Netchan_AddFragbufToTail empty_holder f"] m
    by auto
  have "concat (map (\<lambda>f. sz_contents (fb_buf f)) (fh_frags h)) = filename @ [0] @ take (nat (m - ?n) + k) buffer"
    using h(2) b(2) unfolding take_add by (simp add: Netchan_AddFragbufToTail_def f_def part_def)
  moreover have "nat (m - ?n) + k < length buffer" "2 * int (nat (m - ?n) + k) \<le> ?N + fragsize"
    using h(3,4) m assms(4) by (auto simp: m_def split: if_splits)
  moreover have "Netchan_CreateFileFragmentsFromBuffer fragsize c filename buffer ?N = Inr (enqueue_holder 1 h c)"
    using \<open>buffer \<noteq> []\<close> step h(1) by (simp add: Netchan_CreateFileFragmentsFromBuffer_def)
  ultimately show ?thesis
    by blast
qed

theorem file_from_buffer_truncated_witness:
  "\<exists>h k. Netchan_CreateFileFragmentsFromBuffer 128 zero_netchan (cstr ''tempdecal.wad'') (replicate 1000 7) 1000 =
       Inr (enqueue_holder 1 h zero_netchan) \<and>
     concat (map (\<lambda>f. sz_contents (fb_buf f)) (fh_frags h)) = cstr ''tempdecal.wad'' @ [0] @ take k (replicate 1000 7) \<and> k \<le> 564"
proof -
  have "\<exists>h k. Netchan_CreateFileFragmentsFromBuffer 128 zero_netchan (cstr ''tempdecal.wad'') (replicate 1000 7) (int (length (replicate 1000 (7 :: u8)))) =
       Inr (enqueue_holder 1 h zero_netchan) \<and>
     concat (map (\<lambda>f. sz_contents (fb_buf f)) (fh_frags h)) = cstr ''tempdecal.wad'' @ [0] @ take k (replicate 1000 7) \<and>
     k < length (replicate 1000 (7 :: u8)) \<and> 2 * int k \<le> int (length (replicate 1000 (7 :: u8))) + 128"
    by (rule file_from_buffer_truncated) (simp_all add: cstr_def)
  then show ?thesis
    by (fastforce simp del: take_replicate)
qed

section \<open>A file from fragments\<close>

lemma copy_rest:
  "foldE (\<lambda>(block, pos) f. bindE (peek 0 (unat (sb_cursize (fb_buf f))) (sb_data (fb_buf f))) (\<lambda>bs.
      bindE (poke pos bs block) (\<lambda>block. Inr (block, pos + length bs)))) (block, pos) fs = Inr (block', pos') \<Longrightarrow>
    pos' = pos + (\<Sum>f \<leftarrow> fs. unat (sb_cursize (fb_buf f)))"
proof (induction fs arbitrary: block pos)
  case (Cons f fs)
  from Cons.prems obtain block1 where
    "unat (sb_cursize (fb_buf f)) \<le> length (sb_data (fb_buf f))"
    "foldE (\<lambda>(block, pos) f. bindE (peek 0 (unat (sb_cursize (fb_buf f))) (sb_data (fb_buf f))) (\<lambda>bs.
      bindE (poke pos bs block) (\<lambda>block. Inr (block, pos + length bs)))) (block1, pos + unat (sb_cursize (fb_buf f))) fs = Inr (block', pos')"
    by (auto simp: outcome_simps peek_Inr)
  from Cons.IH [OF this(2)] show ?case
    by simp
qed simp

lemma copy_file_pos:
  assumes "copy_file (f # fs) rc block = Inr (block', pos)"
  shows "pos = unat (sb_cursize (fb_buf f) - rc) + (\<Sum>f \<leftarrow> fs. unat (sb_cursize (fb_buf f)))"
  using assms copy_rest by (fastforce simp: copy_file_def outcome_simps peek_Inr)

lemma no_bytes_no_size:
  assumes "unat (sb_cursize (fb_buf f) - rc) + (\<Sum>f \<leftarrow> fs. unat (sb_cursize (fb_buf f))) = 0"
  shows "sum_list (map (\<lambda>f. sb_cursize (fb_buf f)) (f # fs)) - rc = 0"
proof -
  have "sb_cursize (fb_buf f) = rc" "\<And>f. f \<in> set fs \<Longrightarrow> sb_cursize (fb_buf f) = 0"
    using assms by (auto simp: unat_eq_zero sum_list_eq_0_iff)
  moreover from this(2) have "sum_list (map (\<lambda>f. sb_cursize (fb_buf f)) fs) = 0"
    by (induction fs) auto
  ultimately show ?thesis
    by simp
qed

text \<open>
  Files received in fragments: \<^verbatim>\<open>Netchan_CopyFileFragments\<close> writes a file only under a non-empty
  name with neither \<open>..\<close> nor a colon in it, and only when no such file exists; but the file it writes
  is always empty: it writes from the end of the block it has filled, and with anything received it
  leaves the block or frees a pointer that is not one of \<^verbatim>\<open>malloc\<close>.
\<close>

theorem copied_file_is_empty:
  assumes "Netchan_CopyFileFragments exists mem (c, m) = Inr (r, Some (filename, bs), s')"
  shows "bs = [] \<and> filename \<noteq> [] \<and> \<not> dotdot filename \<and> cchar CHR '':'' \<notin> set filename \<and> \<not> exists filename"
proof -
  have written: "take (unat n) (drop pos block) = []"
    if "copy_file (f # fs) rc (replicate (unat n) 0) = Inr (block, pos)" "free_block (Some (block, pos)) = Inr u"
      "n = sb_cursize (fb_buf f) + sum_list (map (\<lambda>f. sb_cursize (fb_buf f)) fs) - rc" for f fs rc n block pos u
  proof -
    have "pos = 0"
      using that(2) by (simp add: free_block_def split: if_splits)
    then have "n = 0"
      using no_bytes_no_size [of f rc fs] copy_file_pos [OF that(1)] that(3) by simp
    then show ?thesis
      by simp
  qed
  show ?thesis
    using assms unfolding Netchan_CopyFileFragments_def Let_def
    by (auto simp: bindE_eq_Inr peek_Inr split: if_splits list.splits prod.splits dest!: written)
qed

definition sample_file_chan :: netchan where
  "sample_file_chan = zero_netchan\<lparr>nc_ready := (\<lambda>_. True), nc_incoming := (\<lambda>_. [Netchan_AllocFragbuf\<lparr>fb_buf := full_buf [97, 0]\<rparr>])\<rparr>"

definition sample_msg :: netmsg where
  "sample_msg = \<lparr>nm_buf = \<lparr>sb_overflow = 0, sb_data = replicate 8 0, sb_maxsize = 8, sb_cursize = 0\<rparr>, nm_readcount = 0, nm_badread = False\<rparr>"

lemma sample_file_written:
  "\<exists>s'. Netchan_CopyFileFragments (\<lambda>_. False) True (sample_file_chan, sample_msg) = Inr (True, Some ([97], []), s')"
proof -
  let ?b = "\<lparr>sb_overflow = 0, sb_data = [97, 0, 0, 0, 0, 0, 0, 0], sb_maxsize = 8, sb_cursize = 2\<rparr>"
  have w: "SZ_Write (SZ_Clear (nm_buf sample_msg)) (sb_data (full_buf [97, 0])) (sb_cursize (full_buf [97, 0])) = Inr ?b"
    by (simp add: SZ_Write_def SZ_GetSpace_def SZ_Clear_def sample_msg_def full_buf_def peek_def poke_def) (simp add: numeral_eq_Suc)
  have r: "MSG_ReadString \<lparr>nm_buf = ?b, nm_readcount = 0, nm_badread = False\<rparr> =
      Inr ([97], \<lparr>nm_buf = ?b, nm_readcount = 2, nm_badread = False\<rparr>)"
    by (simp add: MSG_ReadString_def MSG_ReadStringStatic_def read_string_loop.simps MSG_ReadChar_def peek_def word_le_nat_alt)
  show ?thesis
    using w r unfolding Netchan_CopyFileFragments_def
    by (simp add: sample_file_chan_def MSG_BeginReading_def sample_msg_def full_buf_def cchar_def copy_file_def peek_def poke_def
        free_block_def Let_def)
qed

theorem copied_file_is_empty_witness:
  "\<exists>s'. Netchan_CopyFileFragments (\<lambda>_. False) True (sample_file_chan, sample_msg) = Inr (True, Some ([97], []), s') \<and> \<not> dotdot [97]"
  using sample_file_written copied_file_is_empty [of "\<lambda>_. False" True sample_file_chan sample_msg True "[97]" "[]"] by blast

end
