(* ===== verification/Reliable.thy ===== *)
theory Reliable
  imports Prelude "HOL-Library.Sublist"
begin

text \<open>
  The reliable stream of a network channel, abstractly: what \<^verbatim>\<open>Netchan_Transmit\<close> and \<^verbatim>\<open>Netchan_Process\<close> do with
  the sequence numbers and the reliable bit when no fragments are under way. Two endpoints exchange
  packets over a network that may lose, duplicate and reorder them: any packet sent can be delivered
  at any later time, any number of times. The theory \<open>Transport\<close> shows that the code refines these
  steps.
\<close>

section \<open>Endpoints and packets\<close>

record endpoint =
  e_out :: nat
  e_bit :: bool
  e_last :: nat
  e_pend :: "u8 list"
  e_msg :: "u8 list"
  e_in :: nat
  e_ack :: nat
  e_rack :: bool
  e_flip :: bool

record packet =
  p_seq :: nat
  p_rel :: bool
  p_ack :: nat
  p_flip :: bool
  p_body :: "u8 list"

definition pad_body :: "u8 list \<Rightarrow> u8 list" where
  "pad_body bs = bs @ replicate (8 - length bs) 1"

definition resends :: "endpoint \<Rightarrow> bool" where
  "resends e \<longleftrightarrow> e_ack e > e_last e \<and> e_rack e \<noteq> e_bit e"

definition loads :: "endpoint \<Rightarrow> bool" where
  "loads e \<longleftrightarrow> e_pend e = [] \<and> e_msg e \<noteq> []"

definition load :: "endpoint \<Rightarrow> endpoint" where
  "load e = (if loads e then e\<lparr>e_bit := \<not> e_bit e, e_pend := e_msg e, e_msg := []\<rparr> else e)"

definition packet_of :: "u8 list \<Rightarrow> endpoint \<Rightarrow> packet" where
  "packet_of data e = \<lparr>p_seq = e_out e, p_rel = resends e \<or> loads e, p_ack = e_in e, p_flip = e_flip e,
     p_body = pad_body ((if resends e \<or> loads e then e_pend (load e) else []) @ data)\<rparr>"

definition after_send :: "endpoint \<Rightarrow> endpoint" where
  "after_send e = (load e)\<lparr>e_out := e_out e + 1, e_last := (if resends e \<or> loads e then e_out e else e_last e)\<rparr>"

definition after_receive :: "packet \<Rightarrow> endpoint \<Rightarrow> endpoint" where
  "after_receive p e = e\<lparr>e_pend := (if p_flip p = e_bit e \<and> e_ack e + 1 \<ge> e_last e then [] else e_pend e),
     e_in := p_seq p, e_ack := p_ack p, e_rack := p_flip p, e_flip := (if p_rel p then \<not> e_flip e else e_flip e)\<rparr>"

definition start :: endpoint where
  "start = \<lparr>e_out = 1, e_bit = False, e_last = 0, e_pend = [], e_msg = [], e_in = 0, e_ack = 0, e_rack = False, e_flip = False\<rparr>"

section \<open>The two endpoints and the network\<close>

text \<open>
  For each side: the endpoint, the packets it has sent (with the count of blocks
  received at that time), the blocks it has loaded, the bodies of the reliable packets
  it has taken, and the count of received blocks its peer has last reported.
\<close>

record sent_packet =
  sp_packet :: packet
  sp_got :: nat

record system =
  s_end :: "bool \<Rightarrow> endpoint"
  s_wire :: "bool \<Rightarrow> sent_packet list"
  s_loads :: "bool \<Rightarrow> u8 list list"
  s_got :: "bool \<Rightarrow> u8 list list"
  s_known :: "bool \<Rightarrow> nat"

definition sys_send :: "bool \<Rightarrow> u8 list \<Rightarrow> system \<Rightarrow> system" where
  "sys_send s data S =
     (let e = s_end S s; ls = (if loads e then s_loads S s @ [e_msg e] else s_loads S s) in
      S\<lparr>s_end := (s_end S)(s := after_send e), s_loads := (s_loads S)(s := ls),
        s_wire := (s_wire S)(s := s_wire S s @ [\<lparr>sp_packet = packet_of data e, sp_got = length (s_got S s)\<rparr>])\<rparr>)"

definition sys_receive :: "bool \<Rightarrow> sent_packet \<Rightarrow> system \<Rightarrow> system" where
  "sys_receive t q S =
     (let e = s_end S t; p = sp_packet q in
      if p_seq p \<le> e_in e then S
      else S\<lparr>s_end := (s_end S)(t := after_receive p e), s_known := (s_known S)(t := sp_got q),
        s_got := (s_got S)(t := if p_rel p then s_got S t @ [p_body p] else s_got S t)\<rparr>)"

definition sys_write :: "bool \<Rightarrow> u8 list \<Rightarrow> system \<Rightarrow> system" where
  "sys_write s msg S = S\<lparr>s_end := (s_end S)(s := (s_end S s)\<lparr>e_msg := msg\<rparr>)\<rparr>"

inductive sys_step :: "system \<Rightarrow> system \<Rightarrow> bool" where
  step_send: "sys_step S (sys_send s data S)"
| step_receive: "q \<in> set (s_wire S (\<not> t)) \<Longrightarrow> sys_step S (sys_receive t q S)"
| step_write: "sys_step S (sys_write s msg S)"

definition sys_start :: system where
  "sys_start = \<lparr>s_end = (\<lambda>_. start), s_wire = (\<lambda>_. []), s_loads = (\<lambda>_. []), s_got = (\<lambda>_. []), s_known = (\<lambda>_. 0)\<rparr>"

section \<open>The invariant of one direction\<close>

text \<open>What the sender \<open>s\<close> and its peer agree on, and what the packets in between can still do.\<close>

definition counts_ok :: "bool \<Rightarrow> system \<Rightarrow> bool" where
  "counts_ok s S \<longleftrightarrow>
     e_bit (s_end S s) = odd (length (s_loads S s)) \<and>
     e_flip (s_end S (\<not> s)) = odd (length (s_got S (\<not> s))) \<and>
     length (s_got S (\<not> s)) \<le> length (s_loads S s) \<and> length (s_loads S s) \<le> length (s_got S (\<not> s)) + 1 \<and>
     (e_pend (s_end S s) \<noteq> [] \<longrightarrow> s_loads S s \<noteq> [] \<and> e_pend (s_end S s) = last (s_loads S s)) \<and>
     list_all2 prefix (take (length (s_got S (\<not> s))) (s_loads S s)) (s_got S (\<not> s))"

definition ack_ok :: "bool \<Rightarrow> system \<Rightarrow> bool" where
  "ack_ok s S \<longleftrightarrow>
     e_rack (s_end S s) = odd (s_known S s) \<and>
     s_known S s \<le> length (s_got S (\<not> s)) \<and> length (s_loads S s) \<le> s_known S s + 1 \<and>
     (e_pend (s_end S s) = [] \<longrightarrow> s_known S s = length (s_loads S s)) \<and>
     e_ack (s_end S s) \<le> e_in (s_end S (\<not> s)) \<and>
     (s_known S s < length (s_got S (\<not> s)) \<longrightarrow> e_ack (s_end S s) < e_last (s_end S s))"

definition live_ok :: "bool \<Rightarrow> system \<Rightarrow> sent_packet \<Rightarrow> bool" where
  "live_ok s S q \<longleftrightarrow> p_seq (sp_packet q) < e_out (s_end S s) \<and>
     (p_rel (sp_packet q) \<and> p_seq (sp_packet q) > e_in (s_end S (\<not> s)) \<longrightarrow>
        p_seq (sp_packet q) = e_last (s_end S s) \<and>
        length (s_loads S s) = length (s_got S (\<not> s)) + 1 \<and> prefix (last (s_loads S s)) (p_body (sp_packet q)))"

definition data_ok :: "bool \<Rightarrow> system \<Rightarrow> bool" where
  "data_ok s S \<longleftrightarrow> e_last (s_end S s) < e_out (s_end S s) \<and> e_in (s_end S (\<not> s)) < e_out (s_end S s) \<and>
     (\<forall>q \<in> set (s_wire S s). live_ok s S q)"

definition fits :: "bool \<Rightarrow> system \<Rightarrow> sent_packet \<Rightarrow> bool" where
  "fits s S q \<longleftrightarrow>
     p_flip (sp_packet q) = odd (sp_got q) \<and> sp_got q \<le> length (s_got S (\<not> s)) \<and>
     p_ack (sp_packet q) \<le> e_in (s_end S (\<not> s)) \<and>
     (sp_got q < length (s_got S (\<not> s)) \<longrightarrow> p_ack (sp_packet q) < e_last (s_end S s)) \<and>
     (p_seq (sp_packet q) > e_in (s_end S s) \<longrightarrow> s_known S s \<le> sp_got q)"

definition report_ok :: "bool \<Rightarrow> system \<Rightarrow> bool" where
  "report_ok s S \<longleftrightarrow> (\<forall>q \<in> set (s_wire S (\<not> s)). fits s S q) \<and>
     (\<forall>q \<in> set (s_wire S (\<not> s)). \<forall>q' \<in> set (s_wire S (\<not> s)).
        p_seq (sp_packet q) \<le> p_seq (sp_packet q') \<longrightarrow> sp_got q \<le> sp_got q')"

definition direction_ok :: "bool \<Rightarrow> system \<Rightarrow> bool" where
  "direction_ok s S \<longleftrightarrow> counts_ok s S \<and> ack_ok s S \<and> data_ok s S \<and> report_ok s S"

lemmas direction_defs = direction_ok_def counts_ok_def ack_ok_def data_ok_def report_ok_def

lemma odd_between: "odd k = odd (n :: nat) \<Longrightarrow> k \<le> n \<Longrightarrow> n \<le> k + 1 \<Longrightarrow> k = n"
  by presburger

lemma odd_between_neq: "odd k \<noteq> odd (n :: nat) \<Longrightarrow> k \<le> n \<Longrightarrow> n \<le> k + 1 \<Longrightarrow> n = k + 1"
  by presburger

text \<open>A resend means that the last block has not been received, and that no packet with it is left.\<close>

lemma resends_undelivered:
  assumes "direction_ok s S" "resends (s_end S s)"
  shows "length (s_loads S s) = length (s_got S (\<not> s)) + 1" "s_known S s = length (s_got S (\<not> s))"
    "e_pend (s_end S s) \<noteq> []" "e_last (s_end S s) < e_in (s_end S (\<not> s))"
proof -
  have "odd (s_known S s) \<noteq> odd (length (s_loads S s))" and k: "s_known S s \<le> length (s_got S (\<not> s))"
      "length (s_got S (\<not> s)) \<le> length (s_loads S s)" "length (s_loads S s) \<le> s_known S s + 1"
      "\<not> e_ack (s_end S s) < e_last (s_end S s)" "e_ack (s_end S s) \<le> e_in (s_end S (\<not> s))"
    using assms by (auto simp: direction_defs resends_def)
  then have n: "length (s_loads S s) = s_known S s + 1"
    by (intro odd_between_neq) auto
  show "s_known S s = length (s_got S (\<not> s))"
    using assms(1) k by (auto simp: ack_ok_def direction_ok_def)
  then show "length (s_loads S s) = length (s_got S (\<not> s)) + 1"
    using n by simp
  show "e_pend (s_end S s) \<noteq> []"
    using assms(1) n by (auto simp: ack_ok_def direction_ok_def)
  show "e_last (s_end S s) < e_in (s_end S (\<not> s))"
    using assms k by (auto simp: resends_def)
qed

lemma loads_delivered:
  assumes "direction_ok s S" "loads (s_end S s)"
  shows "s_known S s = length (s_loads S s)" "length (s_got S (\<not> s)) = length (s_loads S s)" "\<not> resends (s_end S s)"
proof -
  show *: "s_known S s = length (s_loads S s)" "length (s_got S (\<not> s)) = length (s_loads S s)"
    using assms by (auto simp: direction_defs loads_def)
  show "\<not> resends (s_end S s)"
    using resends_undelivered(1) [OF assms(1)] *(2) by auto
qed


section \<open>Every step keeps it\<close>

lemma load_simps [simp]:
  "e_out (load e) = e_out e" "e_last (load e) = e_last e" "e_in (load e) = e_in e" "e_ack (load e) = e_ack e"
  "e_rack (load e) = e_rack e" "e_flip (load e) = e_flip e"
  "loads e \<Longrightarrow> e_bit (load e) = (\<not> e_bit e)" "loads e \<Longrightarrow> e_pend (load e) = e_msg e"
  "\<not> loads e \<Longrightarrow> load e = e"
  by (auto simp: load_def)

lemma after_send_simps [simp]:
  "e_out (after_send e) = e_out e + 1" "e_in (after_send e) = e_in e" "e_ack (after_send e) = e_ack e"
  "e_rack (after_send e) = e_rack e" "e_flip (after_send e) = e_flip e" "e_bit (after_send e) = e_bit (load e)"
  "e_pend (after_send e) = e_pend (load e)" "e_last (after_send e) = (if resends e \<or> loads e then e_out e else e_last e)"
  by (auto simp: after_send_def)

lemma packet_of_simps [simp]:
  "p_seq (packet_of d e) = e_out e" "p_rel (packet_of d e) = (resends e \<or> loads e)" "p_ack (packet_of d e) = e_in e"
  "p_flip (packet_of d e) = e_flip e"
  by (auto simp: packet_of_def)

lemma packet_of_body: "resends e \<or> loads e \<Longrightarrow> prefix (e_pend (load e)) (p_body (packet_of d e))"
  by (simp add: packet_of_def pad_body_def)

lemma neq_not [simp]: "(\<not> s) \<noteq> s" "s \<noteq> (\<not> s)"
  by auto

lemma sys_send_simps [simp]:
  "s_end (sys_send u d S) s = (if s = u then after_send (s_end S s) else s_end S s)"
  "s_loads (sys_send u d S) s = (if s = u \<and> loads (s_end S s) then s_loads S s @ [e_msg (s_end S s)] else s_loads S s)"
  "s_got (sys_send u d S) = s_got S" "s_known (sys_send u d S) = s_known S"
  "s \<noteq> u \<Longrightarrow> s_wire (sys_send u d S) s = s_wire S s"
  "set (s_wire (sys_send u d S) u) = insert \<lparr>sp_packet = packet_of d (s_end S u),
     sp_got = length (s_got S u)\<rparr> (set (s_wire S u))"
  by (auto simp: sys_send_def Let_def)

lemma send_by_sender:
  assumes ok: "direction_ok s S"
  shows "direction_ok s (sys_send s data S)"
proof (cases "loads (s_end S s)")
  case True
  note l = loads_delivered [OF ok True] and ok = ok [unfolded direction_ok_def]
  have m: "e_msg (s_end S s) \<noteq> []"
    using True by (simp add: loads_def)
  have pre: "prefix (e_msg (s_end S s)) (p_body (packet_of data (s_end S s)))"
    using packet_of_body [of "s_end S s" data] True by simp
  have "counts_ok s (sys_send s data S)"
    using ok l True m by (simp add: counts_ok_def)
  moreover have "ack_ok s (sys_send s data S)"
    using ok l True m by (simp add: ack_ok_def)
  moreover have "live_ok s (sys_send s data S) q" if "q \<in> set (s_wire (sys_send s data S) s)" for q
    using ok l True m pre that by (auto simp add: live_ok_def data_ok_def)
  then have "data_ok s (sys_send s data S)"
    using ok True by (simp add: data_ok_def)
  moreover have "report_ok s (sys_send s data S)"
    using ok l True by (auto simp add: report_ok_def data_ok_def fits_def)
  ultimately show ?thesis
    by (simp add: direction_ok_def)
next
  case False
  note r = resends_undelivered [OF ok] and ok' = ok [unfolded direction_ok_def]
  have pre: "resends (s_end S s) \<Longrightarrow> prefix (last (s_loads S s)) (p_body (packet_of data (s_end S s)))"
    using packet_of_body [of "s_end S s" data] False r(3) ok by (auto simp: direction_ok_def counts_ok_def)
  have "counts_ok s (sys_send s data S)"
    using ok' False by (simp add: counts_ok_def)
  moreover have "ack_ok s (sys_send s data S)"
    using ok' r False unfolding ack_ok_def by simp
  moreover have "live_ok s (sys_send s data S) q" if "q \<in> set (s_wire (sys_send s data S) s)" for q
    using ok' r False pre that by (cases "resends (s_end S s)") (auto simp add: live_ok_def data_ok_def)
  then have "data_ok s (sys_send s data S)"
    using ok' by (simp add: data_ok_def)
  moreover have "report_ok s (sys_send s data S)"
    using ok' r False by (auto simp add: report_ok_def data_ok_def fits_def)
  ultimately show ?thesis
    by (simp add: direction_ok_def)
qed

lemma send_by_peer:
  assumes "direction_ok s S" "data_ok (\<not> s) S"
  shows "direction_ok s (sys_send (\<not> s) data S)"
proof -
  have "counts_ok s (sys_send (\<not> s) data S)"
    using assms by (simp add: direction_ok_def counts_ok_def)
  moreover have "ack_ok s (sys_send (\<not> s) data S)"
    using assms by (simp add: direction_ok_def ack_ok_def)
  moreover have "data_ok s (sys_send (\<not> s) data S)"
    using assms by (simp add: direction_ok_def data_ok_def live_ok_def)
  moreover have "fits s (sys_send (\<not> s) data S) q" if "q \<in> set (s_wire (sys_send (\<not> s) data S) (\<not> s))" for q
    using that assms unfolding direction_ok_def report_ok_def
    by (cases "q \<in> set (s_wire S (\<not> s))") (auto simp add: fits_def counts_ok_def ack_ok_def)
  moreover have "p_seq (sp_packet q) < e_out (s_end S (\<not> s)) \<and> sp_got q \<le> length (s_got S (\<not> s))"
    if "q \<in> set (s_wire S (\<not> s))" for q
    using assms that by (simp add: direction_ok_def report_ok_def fits_def data_ok_def live_ok_def)
  then have "report_ok s (sys_send (\<not> s) data S)" if "\<forall>q \<in> set (s_wire (sys_send (\<not> s) data S) (\<not> s)). fits s (sys_send (\<not> s) data S) q"
    using that assms(1) by (force simp add: direction_ok_def report_ok_def)
  ultimately show ?thesis
    by (simp add: direction_ok_def)
qed

lemma after_receive_simps [simp]:
  "e_out (after_receive p e) = e_out e" "e_bit (after_receive p e) = e_bit e" "e_last (after_receive p e) = e_last e"
  "e_msg (after_receive p e) = e_msg e" "e_in (after_receive p e) = p_seq p" "e_ack (after_receive p e) = p_ack p"
  "e_rack (after_receive p e) = p_flip p" "e_flip (after_receive p e) = (if p_rel p then \<not> e_flip e else e_flip e)"
  "e_pend (after_receive p e) = (if p_flip p = e_bit e \<and> e_ack e + 1 \<ge> e_last e then [] else e_pend e)"
  by (auto simp: after_receive_def)

lemma sys_receive_simps [simp]:
  assumes "\<not> p_seq (sp_packet q) \<le> e_in (s_end S t)"
  shows "s_end (sys_receive t q S) s = (if s = t then after_receive (sp_packet q) (s_end S s) else s_end S s)"
    "s_got (sys_receive t q S) s = (if s = t \<and> p_rel (sp_packet q) then s_got S s @ [p_body (sp_packet q)] else s_got S s)"
    "s_known (sys_receive t q S) s = (if s = t then sp_got q else s_known S s)"
    "s_loads (sys_receive t q S) = s_loads S" "s_wire (sys_receive t q S) = s_wire S"
  using assms by (auto simp: sys_receive_def Let_def)

lemma sys_receive_old [simp]: "p_seq (sp_packet q) \<le> e_in (s_end S t) \<Longrightarrow> sys_receive t q S = S"
  by (simp add: sys_receive_def)

lemma receive_by_peer:
  assumes ok: "direction_ok s S" and q: "q \<in> set (s_wire S s)"
  shows "direction_ok s (sys_receive (\<not> s) q S)"
proof (cases "p_seq (sp_packet q) \<le> e_in (s_end S (\<not> s))")
  case False
  note ok' = ok [unfolded direction_ok_def]
  have live: "live_ok s S q"
    using ok' q by (simp add: data_ok_def)
  have rel: "p_rel (sp_packet q) \<Longrightarrow> p_seq (sp_packet q) = e_last (s_end S s) \<and> s_loads S s \<noteq> [] \<and>
      length (s_loads S s) = length (s_got S (\<not> s)) + 1 \<and> prefix (last (s_loads S s)) (p_body (sp_packet q))"
    using live False by (auto simp: live_ok_def)
  have all: "list_all2 prefix (s_loads S s) (s_got S (\<not> s) @ [p_body (sp_packet q)])" if "p_rel (sp_packet q)"
  proof -
    have "take (length (s_got S (\<not> s))) (s_loads S s) = butlast (s_loads S s)"
      using rel [OF that] by (simp add: butlast_conv_take)
    then have "list_all2 prefix (butlast (s_loads S s)) (s_got S (\<not> s))"
      using ok' by (simp add: counts_ok_def)
    then have "list_all2 prefix (butlast (s_loads S s) @ [last (s_loads S s)]) (s_got S (\<not> s) @ [p_body (sp_packet q)])"
      using rel [OF that] by (intro list_all2_appendI) auto
    then show ?thesis
      using rel [OF that] by simp
  qed
  have "counts_ok s (sys_receive (\<not> s) q S)"
    using ok' rel all False by (auto simp: counts_ok_def)
  moreover have "ack_ok s (sys_receive (\<not> s) q S)"
    using ok' rel False by (auto simp: ack_ok_def)
  moreover have "data_ok s (sys_receive (\<not> s) q S)"
    using ok' live rel False by (auto simp: data_ok_def live_ok_def)
  moreover have "report_ok s (sys_receive (\<not> s) q S)"
    using ok' rel False unfolding report_ok_def by (auto simp: fits_def)
  ultimately show ?thesis
    by (simp add: direction_ok_def)
qed (use ok in simp)

lemma receive_by_sender:
  assumes ok: "direction_ok s S" and q: "q \<in> set (s_wire S (\<not> s))"
  shows "direction_ok s (sys_receive s q S)"
proof (cases "p_seq (sp_packet q) \<le> e_in (s_end S s)")
  case False
  note ok' = ok [unfolded direction_ok_def]
  have fits: "fits s S q"
    using ok' q by (simp add: report_ok_def)
  have known: "s_known S s \<le> sp_got q"
    using fits False by (simp add: fits_def)
  have cleared: "sp_got q = length (s_loads S s)" if "e_pend (after_receive (sp_packet q) (s_end S s)) = []"
  proof (cases "e_pend (s_end S s) = []")
    case True
    then show ?thesis
      using ok' fits known by (auto simp: ack_ok_def counts_ok_def fits_def)
  next
    case nonempty: False
    then have "odd (sp_got q) = odd (length (s_loads S s))"
      using that ok' fits by (auto simp: counts_ok_def fits_def split: if_splits)
    then show ?thesis
      using ok' fits known by (intro odd_between) (auto simp: ack_ok_def counts_ok_def fits_def)
  qed
  have "counts_ok s (sys_receive s q S)"
    using ok' False by (auto simp: counts_ok_def)
  moreover have "ack_ok s (sys_receive s q S)"
  proof -
    have "e_rack (after_receive (sp_packet q) (s_end S s)) = odd (sp_got q) \<and> sp_got q \<le> length (s_got S (\<not> s)) \<and>
        p_ack (sp_packet q) \<le> e_in (s_end S (\<not> s)) \<and> (sp_got q < length (s_got S (\<not> s)) \<longrightarrow> p_ack (sp_packet q) < e_last (s_end S s))"
      using fits by (simp add: fits_def)
    moreover have "length (s_loads S s) \<le> sp_got q + 1"
      using ok' known by (simp add: ack_ok_def)
    ultimately show ?thesis
      using cleared False by (simp add: ack_ok_def del: after_receive_simps(7,9))
  qed
  moreover have "data_ok s (sys_receive s q S)"
    using ok' False by (auto simp: data_ok_def live_ok_def)
  moreover have "report_ok s (sys_receive s q S)"
    using ok' q False unfolding report_ok_def by (auto simp: fits_def)
  ultimately show ?thesis
    by (simp add: direction_ok_def)
qed (use ok in simp)

lemma sys_write_simps [simp]:
  "e_out (s_end (sys_write u m S) s) = e_out (s_end S s)" "e_bit (s_end (sys_write u m S) s) = e_bit (s_end S s)"
  "e_last (s_end (sys_write u m S) s) = e_last (s_end S s)" "e_pend (s_end (sys_write u m S) s) = e_pend (s_end S s)"
  "e_in (s_end (sys_write u m S) s) = e_in (s_end S s)" "e_ack (s_end (sys_write u m S) s) = e_ack (s_end S s)"
  "e_rack (s_end (sys_write u m S) s) = e_rack (s_end S s)" "e_flip (s_end (sys_write u m S) s) = e_flip (s_end S s)"
  "s_loads (sys_write u m S) = s_loads S" "s_got (sys_write u m S) = s_got S"
  "s_known (sys_write u m S) = s_known S" "s_wire (sys_write u m S) = s_wire S"
  by (auto simp: sys_write_def)

lemma write_keeps: "direction_ok s S \<Longrightarrow> direction_ok s (sys_write u m S)"
  by (simp add: direction_defs live_ok_def fits_def)

lemma start_ok: "direction_ok s sys_start"
  by (simp add: direction_defs sys_start_def start_def)

lemma step_keeps:
  assumes "sys_step S S'" "\<forall>s. direction_ok s S"
  shows "\<forall>s. direction_ok s S'"
  using assms
proof (induction rule: sys_step.induct)
  case (step_send S u data)
  have "direction_ok s (sys_send u data S)" for s
  proof (cases "u = s")
    case True
    then show ?thesis
      using send_by_sender step_send by simp
  next
    case False
    then have "u = (\<not> s)"
      by simp
    then show ?thesis
      using send_by_peer [of s S data] step_send direction_ok_def [of "\<not> s" S] by blast
  qed
  then show ?case
    by simp
next
  case (step_receive q S t)
  have "direction_ok s (sys_receive t q S)" for s
  proof (cases "t = s")
    case True
    then show ?thesis
      using receive_by_sender step_receive by simp
  next
    case False
    then have "t = (\<not> s)"
      by simp
    then show ?thesis
      using receive_by_peer [of s S q] step_receive by simp
  qed
  then show ?case
    by simp
next
  case (step_write S u m)
  then show ?case
    by (simp add: write_keeps)
qed

inductive reachable :: "system \<Rightarrow> bool" where
  reach_start: "reachable sys_start"
| reach_step: "reachable S \<Longrightarrow> sys_step S S' \<Longrightarrow> reachable S'"

lemma reachable_ok: "reachable S \<Longrightarrow> direction_ok s S"
proof -
  have "reachable S \<Longrightarrow> \<forall>s. direction_ok s S"
    by (induction rule: reachable.induct) (use start_ok step_keeps in auto)
  then show "reachable S \<Longrightarrow> direction_ok s S"
    by blast
qed

section \<open>What follows\<close>

text \<open>
  The reliable blocks are taken once each and in the order they were loaded, and at most one is
  outstanding.
\<close>

definition in_order :: "u8 list list \<Rightarrow> u8 list list \<Rightarrow> bool" where
  "in_order loaded got \<longleftrightarrow> length got \<le> length loaded \<and> length loaded \<le> length got + 1 \<and>
     list_all2 prefix (take (length got) loaded) got"

lemma reachable_in_order: "reachable S \<Longrightarrow> in_order (s_loads S s) (s_got S (\<not> s))"
  using reachable_ok [of S s] by (simp add: direction_ok_def counts_ok_def in_order_def)

text \<open>An exchange: one side sends and its packet arrives.\<close>

definition exchange :: "bool \<Rightarrow> u8 list \<Rightarrow> system \<Rightarrow> system" where
  "exchange s data S = (let S = sys_send s data S in sys_receive (\<not> s) (last (s_wire S s)) S)"

lemma last_sent: "last (s_wire (sys_send s d S) s) = \<lparr>sp_packet = packet_of d (s_end S s),
     sp_got = length (s_got S s)\<rparr>"
  by (auto simp: sys_send_def Let_def)

lemma exchange_reachable: "reachable S \<Longrightarrow> reachable (exchange s d S)"
proof -
  assume r: "reachable S"
  have "reachable (sys_send s d S)"
    using r by (rule reach_step) (rule step_send)
  moreover have "sys_step (sys_send s d S) (sys_receive (\<not> s) (last (s_wire (sys_send s d S) s)) (sys_send s d S))"
    by (rule step_receive) (simp add: last_sent)
  ultimately show ?thesis
    unfolding exchange_def Let_def by (rule reach_step)
qed

lemma exchange_simps:
  assumes "reachable S"
  shows "s_end (exchange s d S) s = after_send (s_end S s)"
    "s_end (exchange s d S) (\<not> s) = after_receive (packet_of d (s_end S s)) (s_end S (\<not> s))"
    "s_loads (exchange s d S) s = s_loads S s @ (if loads (s_end S s) then [e_msg (s_end S s)] else [])"
    "s_loads (exchange s d S) (\<not> s) = s_loads S (\<not> s)"
    "s_got (exchange s d S) (\<not> s) = s_got S (\<not> s) @
       (if resends (s_end S s) \<or> loads (s_end S s) then [p_body (packet_of d (s_end S s))] else [])"
    "s_got (exchange s d S) s = s_got S s"
    "s_known (exchange s d S) (\<not> s) = length (s_got S s)"
proof -
  have new: "\<not> p_seq (sp_packet (last (s_wire (sys_send s d S) s))) \<le> e_in (s_end (sys_send s d S) (\<not> s))"
    using reachable_ok [OF assms, of s] by (simp add: last_sent direction_ok_def data_ok_def)
  show "s_end (exchange s d S) s = after_send (s_end S s)"
    "s_end (exchange s d S) (\<not> s) = after_receive (packet_of d (s_end S s)) (s_end S (\<not> s))"
    "s_loads (exchange s d S) s = s_loads S s @ (if loads (s_end S s) then [e_msg (s_end S s)] else [])"
    "s_loads (exchange s d S) (\<not> s) = s_loads S (\<not> s)"
    "s_got (exchange s d S) (\<not> s) = s_got S (\<not> s) @
       (if resends (s_end S s) \<or> loads (s_end S s) then [p_body (packet_of d (s_end S s))] else [])"
    "s_got (exchange s d S) s = s_got S s"
    "s_known (exchange s d S) (\<not> s) = length (s_got S s)"
    unfolding exchange_def Let_def sys_receive_simps [OF new] by (simp_all add: last_sent)
qed

text \<open>
  Three exchanges are enough for the last block, however much was lost before, and a fourth frees the
  sender for the next one.
\<close>

definition three_exchanges :: "bool \<Rightarrow> u8 list \<Rightarrow> u8 list \<Rightarrow> u8 list \<Rightarrow> system \<Rightarrow> system" where
  "three_exchanges s d0 d1 d2 S = exchange s d2 (exchange (\<not> s) d1 (exchange s d0 S))"

lemma resends_when_lost:
  assumes "direction_ok s S" "length (s_loads S s) = length (s_got S (\<not> s)) + 1" "e_last (s_end S s) < e_ack (s_end S s)"
  shows "resends (s_end S s)"
proof -
  have "s_known S s = length (s_got S (\<not> s))"
    using assms by (auto simp: direction_ok_def ack_ok_def)
  then show ?thesis
    using assms by (simp add: resends_def direction_ok_def ack_ok_def counts_ok_def)
qed

lemma three_exchanges_deliver:
  fixes s d0 d1 d2
  assumes r: "reachable S"
  defines "T \<equiv> three_exchanges s d0 d1 d2 S"
  shows "length (s_got T (\<not> s)) = length (s_loads T s)" "prefix (s_loads S s) (s_loads T s)"
    "e_out (s_end T s) = e_out (s_end S s) + 2" "e_ack (s_end T s) = e_out (s_end S s)"
proof -
  define A B where "A = exchange s d0 S" and "B = exchange (\<not> s) d1 A"
  have rA: "reachable A" and rB: "reachable B"
    unfolding A_def B_def by (intro exchange_reachable r)+
  note a = exchange_simps [OF r, of s d0, folded A_def]
  note b = exchange_simps [OF rA, of "\<not> s" d1, folded B_def, simplified]
  have T: "T = exchange s d2 B"
    by (simp add: T_def three_exchanges_def A_def B_def)
  note t = exchange_simps [OF rB, of s d2, folded T]
  show "prefix (s_loads S s) (s_loads T s)"
    by (simp add: t(3) b(4) a(3))
  show "e_out (s_end T s) = e_out (s_end S s) + 2" "e_ack (s_end T s) = e_out (s_end S s)"
    by (simp_all add: t(1) b(2) a(1) a(2))
  show "length (s_got T (\<not> s)) = length (s_loads T s)"
  proof (cases "length (s_loads B s) = length (s_got B (\<not> s))")
    case True
    then have "\<not> resends (s_end B s)"
      using resends_undelivered(1) [OF reachable_ok [OF rB], of s] by auto
    then show ?thesis
      using True by (simp add: t(3) t(5))
  next
    case False
    have "in_order (s_loads B s) (s_got B (\<not> s))"
      using rB by (rule reachable_in_order)
    then have lost: "length (s_loads B s) = length (s_got B (\<not> s)) + 1"
      using False by (simp add: in_order_def)
    then have plain: "\<not> resends (s_end S s)" "\<not> loads (s_end S s)"
      using resends_undelivered(1) [OF reachable_ok [OF r], of s] loads_delivered(2) [OF reachable_ok [OF r], of s]
      by (auto simp: b(4) b(6) a(3) a(5) split: if_splits)
    then have "e_last (s_end B s) < e_ack (s_end B s)"
      using reachable_ok [OF r, of s] by (simp add: b(2) a(1) a(2) direction_ok_def data_ok_def)
    then have "resends (s_end B s)"
      using resends_when_lost [OF reachable_ok [OF rB] lost] by simp
    moreover from this have "\<not> loads (s_end B s)"
      using loads_delivered(3) [OF reachable_ok [OF rB]] by blast
    ultimately show ?thesis
      using lost by (simp add: t(3) t(5))
  qed
qed

lemma fourth_exchange_frees:
  assumes r: "reachable S"
  shows "e_pend (s_end (exchange (\<not> s) d3 (three_exchanges s d0 d1 d2 S)) s) = []"
proof -
  define T where "T = three_exchanges s d0 d1 d2 S"
  note t = three_exchanges_deliver [OF r, of s d0 d1 d2, folded T_def]
  have rT: "reachable T"
    unfolding T_def three_exchanges_def by (intro exchange_reachable r)
  have "e_last (s_end T s) < e_out (s_end T s)" "e_flip (s_end T (\<not> s)) = e_bit (s_end T s)"
    using reachable_ok [OF rT, of s] t(1) by (simp_all add: direction_ok_def data_ok_def counts_ok_def)
  then show ?thesis
    using exchange_simps(2) [OF rT, of "\<not> s" d3] t(3,4) by (simp add: T_def [symmetric])
qed

end
