(* ===== verification/Wire.thy ===== *)
theory Wire
  imports Netchan Reliable Reassembly
begin

text \<open>
  The channel without fragments refines the abstract endpoint of \<open>Reliable\<close>: \<open>ep_of\<close> reads the endpoint
  off a \<open>netchan\<close>, \<open>wire_of\<close> is the datagram of an abstract packet, \<open>Netchan_Transmit\<close> sends the packet
  \<open>packet_of\<close> and steps to \<open>after_send\<close>, \<open>Netchan_Process\<close> steps to \<open>after_receive\<close>.
\<close>

section \<open>The abstraction\<close>

definition ep_of :: "netchan \<Rightarrow> endpoint" where
  "ep_of c = \<lparr>e_out = unat (nc_out_seq c), e_bit = (nc_out_rel_seq c = 1), e_last = unat (nc_out_last_rel c),
     e_pend = take (unat (nc_rel_len c)) (nc_rel_buf c), e_msg = sz_contents (nc_message c),
     e_in = unat (nc_in_seq c), e_ack = unat (nc_in_ack c), e_rack = (nc_in_rel_ack c = 1), e_flip = (nc_in_rel_seq c = 1)\<rparr>"

text \<open>
  A quiet channel: no fragments queued or under way, the message and the reliable data small enough to
  travel whole, the bits 0 or 1, and the sequence numbers below the two flag bits.
\<close>

definition message_small :: "sizebuf \<Rightarrow> bool" where
  "message_small b \<longleftrightarrow> sz_wf b \<and> sb_overflow b AND 2 = 0 \<and> unat (sb_cursize b) \<le> 1200"

definition quiet :: "netchan \<Rightarrow> bool" where
  "quiet c \<longleftrightarrow> nc_waiting c = (\<lambda>_. []) \<and> nc_sending c = (\<lambda>_. []) \<and> nc_frag_sent c = (\<lambda>_. False) \<and>
     message_small (nc_message c) \<and> unat (nc_rel_len c) \<le> 1200 \<and> 1200 \<le> length (nc_rel_buf c) \<and>
     nc_out_rel_seq c \<le> 1 \<and> nc_in_rel_seq c \<le> 1 \<and> nc_in_rel_ack c \<le> 1 \<and>
     nc_in_seq c < 2 ^ 30 \<and> nc_in_ack c < 2 ^ 30"

definition flagged :: "bool \<Rightarrow> nat \<Rightarrow> u32" where
  "flagged b n = of_nat n OR push_bit 31 (of_bool b)"

definition munged :: "u32 \<Rightarrow> u8 list \<Rightarrow> u8 list" where
  "munged z payload = (case COM_Munge2 payload (of_nat (length payload)) z of Inr p \<Rightarrow> p | Inl _ \<Rightarrow> [])"

definition wire_of :: "packet \<Rightarrow> u8 list" where
  "wire_of p = bytes32 (flagged (p_rel p) (p_seq p)) @ bytes32 (flagged (p_flip p) (p_ack p)) @
     munged (of_nat (p_seq p) AND 0xFF) (p_body p)"

lemma munged:
  assumes "length payload < 2 ^ 32"
  shows "length (munged z payload) = length payload"
    "COM_Munge2 (payload @ post) (of_nat (length payload)) z = Inr (munged z payload @ post)"
    "COM_UnMunge2 (munged z payload @ post) (of_nat (length payload)) z = Inr (payload @ post)"
  unfolding munged_def by (rule munge2.scrambled_form [OF assms])+

lemma ep_of_simps [simp]:
  "e_out (ep_of c) = unat (nc_out_seq c)" "e_bit (ep_of c) = (nc_out_rel_seq c = 1)"
  "e_last (ep_of c) = unat (nc_out_last_rel c)" "e_pend (ep_of c) = take (unat (nc_rel_len c)) (nc_rel_buf c)"
  "e_msg (ep_of c) = sz_contents (nc_message c)" "e_in (ep_of c) = unat (nc_in_seq c)"
  "e_ack (ep_of c) = unat (nc_in_ack c)" "e_rack (ep_of c) = (nc_in_rel_ack c = 1)"
  "e_flip (ep_of c) = (nc_in_rel_seq c = 1)"
  by (simp_all add: ep_of_def)

lemma ep_of_other [simp]:
  "ep_of (c\<lparr>nc_flow := f\<rparr>) = ep_of c" "ep_of (c\<lparr>nc_cleartime := t\<rparr>) = ep_of c" "ep_of (c\<lparr>nc_last_received := r\<rparr>) = ep_of c"
  by (simp_all add: ep_of_def)

lemma quiet_other [simp]:
  "quiet (c\<lparr>nc_flow := f\<rparr>) = quiet c" "quiet (c\<lparr>nc_cleartime := t\<rparr>) = quiet c" "quiet (c\<lparr>nc_last_received := r\<rparr>) = quiet c"
  by (simp_all add: quiet_def)

lemma bit_word_cases: "(w :: u32) \<le> 1 \<Longrightarrow> w = 0 \<or> w = 1"
  by (metis word_le_nat_alt unat_1 le_eq_less_or_eq less_one unat_eq_zero word_unat_eq_iff)

lemma quiet_bits:
  assumes "quiet c"
  shows "nc_out_rel_seq c = of_bool (e_bit (ep_of c))" "nc_in_rel_seq c = of_bool (e_flip (ep_of c))"
    "nc_in_rel_ack c = of_bool (e_rack (ep_of c))"
  using assms by (auto simp: quiet_def dest!: bit_word_cases)

lemma quiet_pend: "quiet c \<Longrightarrow> e_pend (ep_of c) = [] \<longleftrightarrow> nc_rel_len c = 0"
  by (auto simp: quiet_def unat_eq_0)

lemma quiet_msg: "quiet c \<Longrightarrow> e_msg (ep_of c) = [] \<longleftrightarrow> sb_cursize (nc_message c) = 0"
  using length_sz_contents [of "nc_message c"] by (auto simp: quiet_def message_small_def unat_eq_0 simp flip: length_0_conv)

section \<open>Loading the reliable buffer\<close>

lemma FragSend_quiet: "quiet c \<Longrightarrow> Netchan_FragSend c = c"
  by (simp add: Netchan_FragSend_def quiet_def)

lemma transmit_start_quiet: "quiet c \<Longrightarrow> transmit_start env c = Inr (c, \<lambda>_. False, sb_cursize (nc_message c) \<noteq> 0)"
  using FragSend_quiet [of c] by (simp add: transmit_start_def quiet_def)

definition no_frags :: "netchan \<Rightarrow> netchan" where
  "no_frags c = c\<lparr>nc_frag_id := both 0 (nc_frag_id c), nc_frag_sent := both False (nc_frag_sent c),
     nc_frag_start := both 0 (nc_frag_start c), nc_frag_len := both 0 (nc_frag_len c)\<rparr>"

definition take_message :: "u8 list \<Rightarrow> netchan \<Rightarrow> netchan" where
  "take_message rel c = (let c = c\<lparr>nc_out_rel_seq := nc_out_rel_seq c XOR 1\<rparr> in
     c\<lparr>nc_rel_buf := rel, nc_rel_len := sb_cursize (nc_message c),
       nc_message := (nc_message c)\<lparr>sb_cursize := 0\<rparr>,
       nc_frag_start := both (ucast (sb_cursize (nc_message c))) (nc_frag_start c)\<rparr>)"

lemma no_frags_quiet: "quiet c \<Longrightarrow> quiet (no_frags c)" "ep_of (no_frags c) = ep_of c"
  by (simp_all add: quiet_def no_frags_def both_def ep_of_def fun_eq_iff)

lemma send_fragment_none: "nc_sending c i = [] \<Longrightarrow> send_fragment env active i c = Inr (c, i + 1)"
  by (simp add: send_fragment_def)

lemma load_reliable_quiet:
  assumes q: "quiet c"
  obtains c' where "load_reliable env resend c = Inr (c', resend \<or> loads (ep_of c))"
    "quiet c'" "ep_of c' = load (ep_of c)" "nc_socket c' = nc_socket c" "nc_remote c' = nc_remote c"
    "nc_in_rel_seq c' = nc_in_rel_seq c" "nc_out_seq c' = nc_out_seq c"
proof -
  consider (pending) "nc_rel_len c \<noteq> 0" | (idle) "nc_rel_len c = 0" "sb_cursize (nc_message c) = 0"
    | (loading) "nc_rel_len c = 0" "sb_cursize (nc_message c) \<noteq> 0"
    by blast
  then show thesis
  proof cases
    case pending
    then have "\<not> loads (ep_of c)"
      using quiet_pend [OF q] by (simp add: loads_def)
    then show ?thesis
      using pending q that [of c] by (simp add: load_reliable_def)
  next
    case idle
    then have l: "\<not> loads (ep_of c)"
      using quiet_msg [OF q] by (simp add: loads_def)
    have "load_reliable env resend c = Inr (no_frags c, resend)"
      using idle transmit_start_quiet [OF q, of env] q
      by (simp add: load_reliable_def send_fragment_none no_frags_def quiet_def Let_def)
    then show ?thesis
      using that [of "no_frags c"] l no_frags_quiet [of c] q by (simp add: no_frags_def)
  next
    case loading
    then have l: "loads (ep_of c)"
      using quiet_msg [OF q] quiet_pend [OF q] by (simp add: loads_def)
    define msg where "msg = sz_contents (nc_message c)"
    have m: "message_small (nc_message c)" "1200 \<le> length (nc_rel_buf c)"
      using q by (simp_all add: quiet_def)
    have len: "length msg = unat (sb_cursize (nc_message c))" "length msg \<le> 1200"
      using m length_sz_contents [of "nc_message c"] by (simp_all add: msg_def message_small_def)
    have pk: "peek 0 (unat (sb_cursize (nc_message c))) (sb_data (nc_message c)) = Inr msg"
      using m by (simp add: peek_def msg_def sz_contents_def message_small_def sz_wf_nat)
    obtain rel where rel: "poke 0 msg (nc_rel_buf c) = Inr rel"
      using poke_total [of 0 msg "nc_rel_buf c"] len m by auto
    have r: "length rel = length (nc_rel_buf c)" "take (unat (sb_cursize (nc_message c))) rel = sz_contents (nc_message c)"
      using length_poke [OF rel] poke_take_through [OF rel] len(1) by (simp_all add: msg_def)
    let ?c = "take_message rel (no_frags c)"
    have "load_reliable env resend c = Inr (?c, True)"
      using loading transmit_start_quiet [OF q, of env] q pk rel
      by (simp add: load_reliable_def send_fragment_none no_frags_def take_message_def quiet_def Let_def)
    moreover have "quiet ?c"
      using q len r unfolding quiet_def no_frags_def take_message_def Let_def
      by (auto simp: both_def fun_eq_iff message_small_def sz_wf_nat dest!: bit_word_cases)
    moreover have "ep_of ?c = load (ep_of c)"
      using l r len bit_word_cases [of "nc_out_rel_seq c"] q
      by (auto simp: load_def no_frags_def take_message_def Let_def ep_of_def sz_contents_def quiet_def)
    ultimately show ?thesis
      using that [of ?c] l by (simp add: take_message_def no_frags_def Let_def)
  qed
qed

section \<open>Building the packet\<close>

text \<open>A packet under construction that holds \<open>bs\<close>.\<close>

definition building :: "u8 list \<Rightarrow> sizebuf \<Rightarrow> bool" where
  "building bs p \<longleftrightarrow> sz_wf p \<and> sb_maxsize p = 4037 \<and> sz_contents p = bs"

lemma building_start: "building [] fresh_packet"
  by (simp add: building_def fresh_packet_def sz_wf_nat sz_contents_def)

lemma building_length: "building bs p \<Longrightarrow> unat (sb_cursize p) = length bs"
  using length_sz_contents [of p] by (auto simp: building_def)

lemma building_put:
  assumes "building bs p" "length bs + length xs \<le> 4037"
  obtains p' where "sz_put p xs = Inr p'" "building (bs @ xs) p'"
proof -
  have "length xs \<le> sz_room p"
    using assms building_length [OF assms(1)] by (simp add: building_def sz_room_def)
  then show thesis
    using sz_put_append [of p xs] assms(1) that by (auto simp: building_def)
qed

lemma pad_packet_building:
  "building bs p \<Longrightarrow> length bs \<le> 4000 \<Longrightarrow> \<exists>p'. pad_packet p = Inr p' \<and> building (bs @ replicate (16 - length bs) 1) p'"
proof (induction "16 - length bs" arbitrary: bs p)
  case 0
  then have "\<not> sb_cursize p < 16"
    using building_length [OF 0(2)] by (simp add: word_less_nat_alt)
  then show ?case
    using 0 by (subst pad_packet.simps) simp
next
  case (Suc k)
  obtain p1 where p1: "sz_put p [1] = Inr p1" "building (bs @ [1]) p1"
    using building_put [OF Suc.prems(1), of "[1]"] Suc.prems(2) by auto
  have "sb_cursize p < 16" "sb_cursize p < sb_cursize p1"
    using Suc(2) building_length [OF Suc.prems(1)] building_length [OF p1(2)] by (simp_all add: word_less_nat_alt)
  then have "pad_packet p = pad_packet p1"
    using p1 by (subst pad_packet.simps) (simp add: MSG_WriteByte_def)
  moreover have "\<exists>p'. pad_packet p1 = Inr p' \<and> building ((bs @ [1]) @ replicate (16 - length (bs @ [1])) 1) p'"
    using Suc(2) by (intro Suc(1) p1(2)) auto
  moreover have "(1 :: u8) # replicate (15 - length bs) 1 = replicate (16 - length bs) 1"
    using Suc(2) by (cases "16 - length bs") (auto simp flip: replicate_Suc)
  ultimately show ?case
    by simp
qed

lemma building_write:
  assumes "building bs p" "length bs + length xs \<le> 4037"
  obtains p' where "SZ_Write p xs (of_nat (length xs)) = Inr p'" "building (bs @ xs) p'"
  using building_put [OF assms] SZ_Write_sz_put [of "length xs" xs p] assms(2) by auto

lemma build_packet_quiet:
  assumes q: "quiet c" and R: "R = (if reliable then e_pend (ep_of c) else [])" and fits: "length R + length data \<le> 1392"
  defines "c' \<equiv> c\<lparr>nc_out_seq := nc_out_seq c + 1, nc_out_last_rel := (if reliable then nc_out_seq c else nc_out_last_rel c)\<rparr>"
  obtains p where "build_packet resend reliable c data = Inr (p, c')"
    "building (bytes32 (nc_out_seq c OR push_bit 31 (of_bool reliable)) @ bytes32 (nc_in_seq c OR push_bit 31 (nc_in_rel_seq c)) @ pad_body (R @ data)) p"
proof -
  let ?h0 = "bytes32 (nc_out_seq c OR push_bit 31 (of_bool reliable))" and ?h1 = "bytes32 (nc_in_seq c OR push_bit 31 (nc_in_rel_seq c))"
  obtain p0 where p0: "sz_put fresh_packet ?h0 = Inr p0" "building ?h0 p0"
    using building_put [OF building_start, of ?h0] by auto
  obtain p1 where p1: "sz_put p0 ?h1 = Inr p1" "building (?h0 @ ?h1) p1"
    using building_put [OF p0(2), of ?h1] by auto
  obtain p2 where p2: "sz_put p1 R = Inr p2" "building ((?h0 @ ?h1) @ R) p2"
    using building_put [OF p1(2), of R] fits by auto
  obtain p3 where p3: "SZ_Write p2 data (of_nat (length data)) = Inr p3" "building (((?h0 @ ?h1) @ R) @ data) p3"
    using building_write [OF p2(2), of data] fits by auto
  obtain p4 where p4: "pad_packet p3 = Inr p4"
      "building ((((?h0 @ ?h1) @ R) @ data) @ replicate (16 - length (((?h0 @ ?h1) @ R) @ data)) 1) p4"
    using pad_packet_building [OF p3(2)] fits by auto
  have nofrags: "\<not> nc_frag_sent c 0" "\<not> nc_frag_sent c (Suc 0)"
    using q by (simp_all add: quiet_def)
  have rel: "SZ_Write p1 (nc_rel_buf c) (nc_rel_len c) = Inr p2" if reliable
    using SZ_Write_take [of "unat (nc_rel_len c)" "nc_rel_buf c" p1] p2(1) that q unat_u32_lt [of "nc_rel_len c"]
    by (simp add: R quiet_def)
  have p2': "p2 = p1" if "\<not> reliable"
    using p2(1) that by (simp add: R sz_put_def SZ_GetSpace_def poke_def outcome_simps split: if_splits) (use p1(2) in \<open>auto simp: building_def sz_wf_def\<close>)
  have room: "\<not> (if resend then 0x578 else sb_maxsize p2) - sb_cursize p2 < of_nat (length data)"
  proof -
    have "unat (sb_cursize p2) = 8 + length R"
      using building_length [OF p2(2)] by simp
    then show ?thesis
      using p2(2) fits by (simp add: building_def word_less_nat_alt unat_sub word_le_nat_alt unat_of_nat_u32) arith
  qed
  have "build_packet resend reliable c data = Inr (p4, c')"
    using p0 p1 p3 p4 rel p2' room nofrags
    by (cases reliable; cases resend) (simp_all add: build_packet_def MSG_WriteLong_def Let_def c'_def)
  moreover have "building (?h0 @ ?h1 @ pad_body (R @ data)) p4"
    using p4(2) by (simp add: pad_body_def)
  ultimately show thesis
    by (rule that)
qed

section \<open>Sending\<close>

lemma flow_update_only: "\<exists>f v. flow_update t i (c, s) = (c\<lparr>nc_flow := f\<rparr>, v)"
  by (auto simp: flow_update_def Let_def intro: exI [of _ "nc_flow c"])

lemma UpdateFlow_only: "\<exists>f. Netchan_UpdateFlow t (flow_record t' i sz c) = c\<lparr>nc_flow := f\<rparr>"
proof -
  define c1 where "c1 = flow_record t' i sz c"
  obtain f0 v0 where 0: "flow_update t 0 (c1, 0, 0) = (c1\<lparr>nc_flow := f0\<rparr>, v0)"
    using flow_update_only [of t 0 c1 "(0, 0)"] by auto
  obtain f1 v1 where 1: "flow_update t 1 (c1\<lparr>nc_flow := f0\<rparr>, v0) = (c1\<lparr>nc_flow := f0, nc_flow := f1\<rparr>, v1)"
    using flow_update_only [of t 1 "c1\<lparr>nc_flow := f0\<rparr>" v0] by auto
  show ?thesis
    unfolding Netchan_UpdateFlow_def c1_def [symmetric] 0 1
    by (auto simp: c1_def flow_record_def Let_def)
qed

text \<open>What the sending end needs of its surroundings: an open socket, and a system call that does not fail.\<close>

definition env_ok :: "netenv \<Rightarrow> bool" where
  "env_ok env \<longleftrightarrow> \<not> ne_demo env \<and> (\<forall>sent d. ne_sendto env sent d \<noteq> -1)"

definition line_ok :: "netchan \<Rightarrow> net \<Rightarrow> bool" where
  "line_ok c n \<longleftrightarrow> nc_socket c \<le> 2 \<and> nt_socket n (nc_socket c) \<and> na_type (nc_remote c) = NA_IP"

definition remote_addr :: "netchan \<Rightarrow> sockaddr" where
  "remote_addr c = \<lparr>sa_family = AF_INET, sa_addr = na_ip (nc_remote c), sa_port = na_port (nc_remote c)\<rparr>"

lemma send_line:
  assumes "env_ok env" "line_ok c n" "length bs \<le> 1400"
  shows "NET_SendPacket (ne_sendto env) (ne_errno env) ded (nc_socket c) bs (nc_remote c) n =
    Inr (n\<lparr>nt_sent := nt_sent n @ [(nc_socket c, remote_addr c, bs)]\<rparr>)"
  using assms by (simp add: NET_SendPacket_def line_ok_def env_ok_def NetadrToSockadr_def NET_SendLong_def remote_addr_def)

lemma transmit_refines:
  assumes q: "quiet c" and env: "env_ok env" "line_ok c n" and small: "length data \<le> 192"
    and seq: "unat (nc_out_seq c) < 2 ^ 30 - 1"
  obtains c' where "Netchan_Transmit env data (c, n) =
      Inr (c', n\<lparr>nt_sent := nt_sent n @ [(nc_socket c, remote_addr c, wire_of (packet_of data (ep_of c)))]\<rparr>)"
    "quiet c'" "ep_of c' = after_send (ep_of c)" "nc_socket c' = nc_socket c" "nc_remote c' = nc_remote c"
    "nc_in_rel_seq c' = nc_in_rel_seq c"
proof -
  let ?e = "ep_of c"
  define resend reliable where "resend = resends ?e" and "reliable = (resends ?e \<or> loads ?e)"
  obtain c1 where c1: "load_reliable env resend c = Inr (c1, reliable)" "quiet c1" "ep_of c1 = load ?e"
      "nc_socket c1 = nc_socket c" "nc_remote c1 = nc_remote c" "nc_in_rel_seq c1 = nc_in_rel_seq c" "nc_out_seq c1 = nc_out_seq c"
    unfolding reliable_def resend_def by (rule load_reliable_quiet [OF q, of env "resends ?e"]) (use q in auto)
  have ins: "nc_in_seq c1 = nc_in_seq c"
    using arg_cong [OF c1(3), of e_in] by (simp add: word_unat_eq_iff)
  define R where "R = (if reliable then e_pend (ep_of c1) else [])"
  have "length R \<le> 1200"
    using c1(2) by (simp add: R_def quiet_def)
  then have fits: "length R + length data \<le> 1392"
    using small by simp
  define c2 where "c2 = c1\<lparr>nc_out_seq := nc_out_seq c1 + 1, nc_out_last_rel := (if reliable then nc_out_seq c1 else nc_out_last_rel c1)\<rparr>"
  define body where "body = pad_body (R @ data)"
  define hdr where "hdr = bytes32 (nc_out_seq c1 OR push_bit 31 (of_bool reliable)) @ bytes32 (nc_in_seq c1 OR push_bit 31 (nc_in_rel_seq c1))"
  obtain p where p: "build_packet resend reliable c1 data = Inr (p, c2)" "building (hdr @ body) p"
    using build_packet_quiet [OF c1(2) R_def fits] unfolding c2_def hdr_def body_def append_assoc by blast
  have body: "length body \<le> 1392" "length hdr = 8"
    using fits by (auto simp: body_def pad_body_def hdr_def)
  have cur: "unat (sb_cursize p) = 8 + length body"
    using building_length [OF p(2)] body by simp
  then have cur': "sb_cursize p - 8 = of_nat (length body)"
    using body(1) by (simp add: word_unat_eq_iff unat_sub word_le_nat_alt unat_of_nat_u32)
  obtain rest where rest: "sb_data p = hdr @ body @ rest"
    using p(2) by (metis append.assoc append_take_drop_id building_def sz_contents_def)
  define z where "z = nc_out_seq c AND 0xFF"
  have mung: "COM_Munge2 (drop 8 (sb_data p)) (sb_cursize p - 8) z = Inr (munged z body @ rest)"
    using munged(2) [of body rest z] body rest cur' by simp
  have wire: "take (unat (sb_cursize p)) (take 8 (sb_data p) @ munged z body @ rest) = wire_of (packet_of data ?e)"
  proof -
    have "hdr = bytes32 (flagged (resends ?e \<or> loads ?e) (e_out ?e)) @ bytes32 (flagged (e_flip ?e) (e_in ?e))"
      using quiet_bits(2) [OF q] c1(6,7) ins by (simp add: hdr_def flagged_def reliable_def)
    moreover have "body = p_body (packet_of data ?e)"
      using c1(3) by (simp add: body_def R_def reliable_def packet_of_def)
    moreover have "length (munged z body) = length body"
      using body(1) by (intro munged(1)) simp
    ultimately show ?thesis
      using rest body cur by (simp add: wire_of_def z_def)
  qed
  obtain f where f: "Netchan_UpdateFlow (ne_realtime env) (flow_record (ne_realtime env) 0 (sb_cursize p) c2) = c2\<lparr>nc_flow := f\<rparr>"
    using UpdateFlow_only by blast
  have line: "NET_SendPacket (ne_sendto env) (ne_errno env) (ne_dedicated env) (nc_socket c2)
      (wire_of (packet_of data ?e)) (nc_remote c2) n =
      Inr (n\<lparr>nt_sent := nt_sent n @ [(nc_socket c, remote_addr c, wire_of (packet_of data ?e))]\<rparr>)"
  proof -
    have "length (wire_of (packet_of data ?e)) \<le> 1400"
      using body cur unfolding wire [symmetric] by simp
    moreover have "line_ok c2 n" "remote_addr c2 = remote_addr c"
      using env(2) c1(4,5) by (simp_all add: line_ok_def remote_addr_def c2_def)
    ultimately show ?thesis
      using send_line [OF env(1), of c2 n] c1(4) by (simp add: c2_def)
  qed
  let ?t = "add_time (nc_cleartime c2) (ne_realtime env) (real (unat (sb_cursize p + 28)))
    (if ne_lan env \<and> ne_lan_rate env < 1000 then ne_lan_rate env else nc_rate c2)"
  let ?c = "c2\<lparr>nc_flow := f, nc_cleartime := ?t\<rparr>"
  have "Netchan_Transmit env data (c, n) =
      Inr (?c, n\<lparr>nt_sent := nt_sent n @ [(nc_socket c, remote_addr c, wire_of (packet_of data ?e))]\<rparr>)"
  proof -
    have over: "\<not> sb_overflow (nc_message c) AND 2 \<noteq> 0"
      using q by (simp add: quiet_def message_small_def)
    have res: "(nc_in_ack c > nc_out_last_rel c \<and> nc_in_rel_ack c \<noteq> nc_out_rel_seq c) = resend"
      using q by (auto simp: quiet_def resend_def resends_def word_less_nat_alt dest!: bit_word_cases)
    have z: "(nc_out_seq c2 - 1) AND 0xFF = z"
      by (simp add: c2_def z_def c1(7))
    show ?thesis
      using c1(1) p(1) mung wire line env(1) over
      unfolding Netchan_Transmit_def prod.case res Let_def
      by (simp add: f z env_ok_def)
  qed
  moreover have "quiet ?c"
    using c1(2) by (simp add: c2_def quiet_def)
  moreover have "ep_of ?c = after_send ?e"
  proof -
    have "unat (nc_out_seq c + 1) = unat (nc_out_seq c) + 1"
      using seq by (simp add: unat_u32_add)
    moreover have "ep_of c2 = (ep_of c1)\<lparr>e_out := unat (nc_out_seq c1 + 1), e_last := (if reliable then unat (nc_out_seq c1) else e_last (ep_of c1))\<rparr>"
      by (simp add: ep_of_def c2_def)
    ultimately have "ep_of c2 = (load ?e)\<lparr>e_out := e_out ?e + 1, e_last := (if reliable then e_out ?e else e_last ?e)\<rparr>"
      unfolding c1(3,7) by simp
    then show ?thesis
      by (simp add: after_send_def reliable_def)
  qed
  ultimately show thesis
    using that [of ?c] c1(4-6) by (simp add: c2_def)
qed

section \<open>Receiving\<close>

lemma flag_masks:
  "bit (0x80000000 :: u32) i \<longleftrightarrow> i = 31" "bit (0x40000000 :: u32) i \<longleftrightarrow> i = 30" "bit (0x3FFFFFFF :: u32) i \<longleftrightarrow> i < 30"
proof -
  have m: "(0x80000000 :: u32) = push_bit 31 1" "(0x40000000 :: u32) = push_bit 30 1" "(0x3FFFFFFF :: u32) = mask 30"
    by (simp_all add: push_bit_eq_mult mask_eq_exp_minus_1)
  show "bit (0x80000000 :: u32) i \<longleftrightarrow> i = 31" "bit (0x40000000 :: u32) i \<longleftrightarrow> i = 30" "bit (0x3FFFFFFF :: u32) i \<longleftrightarrow> i < 30"
    unfolding m bit_push_bit_iff bit_mask_iff bit_1_iff by (auto dest: le_antisym)
qed

lemma seq_bits: "n < 2 ^ 30 \<Longrightarrow> bit (of_nat n :: u32) i \<Longrightarrow> i < 30"
  by (metis bit_take_bit_iff take_bit_nat_eq_self of_nat_take_bit take_bit_of_nat)

lemma flagged_parts:
  assumes "n < 2 ^ 30"
  shows "flagged b n AND 0x80000000 \<noteq> 0 \<longleftrightarrow> b" "flagged b n AND 0x40000000 = 0" "flagged b n AND 0x3FFFFFFF = of_nat n"
proof -
  note bits = flagged_def flag_masks bit_and_iff bit_or_iff bit_push_bit_iff
  have "bit (flagged b n AND 0x80000000) i = bit (push_bit 31 (of_bool b) :: u32) i" if "i < 32" for i
    using seq_bits [OF assms, of i] that unfolding bits by (auto simp: bit_0)
  then have "flagged b n AND 0x80000000 = push_bit 31 (of_bool b)"
    by (intro bit_word_eqI) simp
  moreover have "push_bit 31 1 \<noteq> (0 :: u32)"
    by (simp add: push_bit_eq_mult)
  ultimately show "flagged b n AND 0x80000000 \<noteq> 0 \<longleftrightarrow> b"
    by auto
  show "flagged b n AND 0x40000000 = 0" "flagged b n AND 0x3FFFFFFF = of_nat n"
  proof -
    have "bit (flagged b n AND 0x40000000) i = bit (0 :: u32) i" "bit (flagged b n AND 0x3FFFFFFF) i = bit (of_nat n :: u32) i"
      if "i < 32" for i
      using seq_bits [OF assms, of i] that unfolding bits by (auto simp: bit_0)
    then show "flagged b n AND 0x40000000 = 0" "flagged b n AND 0x3FFFFFFF = of_nat n"
      by (intro bit_word_eqI; simp)+
  qed
qed

definition packet_ok :: "packet \<Rightarrow> bool" where
  "packet_ok p \<longleftrightarrow> p_seq p < 2 ^ 30 \<and> p_ack p < 2 ^ 30 \<and> 8 \<le> length (p_body p) \<and> length (p_body p) \<le> 1392"

lemma length_wire_of: "packet_ok p \<Longrightarrow> length (wire_of p) = 8 + length (p_body p)"
  using munged(1) [of "p_body p"] by (simp add: wire_of_def packet_ok_def)

definition holds_packet :: "packet \<Rightarrow> net \<Rightarrow> bool" where
  "holds_packet p n \<longleftrightarrow> sz_wf (nt_buf n) \<and> unat (sb_maxsize (nt_buf n)) < 2 ^ 31 \<and> sz_contents (nt_buf n) = wire_of p"

lemma accept_refines:
  fixes env
  assumes q: "quiet (ns_chan s)" and p: "packet_ok p"
  defines "s' \<equiv> accept_packet env (of_nat (p_seq p)) (of_nat (p_ack p)) (p_rel p) (p_flip p) s"
  shows "quiet (ns_chan s')" "ep_of (ns_chan s') = after_receive p (ep_of (ns_chan s))" "ns_net s' = ns_net s"
    "nc_socket (ns_chan s') = nc_socket (ns_chan s)" "nc_remote (ns_chan s') = nc_remote (ns_chan s)"
proof -
  let ?c = "ns_chan s"
  have nat: "unat (of_nat (p_seq p) :: u32) = p_seq p" "unat (of_nat (p_ack p) :: u32) = p_ack p"
    using p by (simp_all add: packet_ok_def unat_of_nat_u32)
  have low: "(of_nat (p_seq p) :: u32) < 2 ^ 30" "(of_nat (p_ack p) :: u32) < 2 ^ 30"
    using p nat by (simp_all add: packet_ok_def word_less_nat_alt)
  have ack1: "unat (nc_in_ack ?c + 1) = unat (nc_in_ack ?c) + 1"
    using q by (simp add: quiet_def word_less_nat_alt unat_u32_add)
  have clear: "of_bool (p_flip p) = nc_out_rel_seq ?c \<and> nc_in_ack ?c + 1 \<ge> nc_out_last_rel ?c \<longleftrightarrow>
      p_flip p = e_bit (ep_of ?c) \<and> e_ack (ep_of ?c) + 1 \<ge> e_last (ep_of ?c)"
    using quiet_bits(1) [OF q] ack1 by (auto simp: word_le_nat_alt)
  define c1 where "c1 = (if of_bool (p_flip p) = nc_out_rel_seq ?c \<and> nc_in_ack ?c + 1 \<ge> nc_out_last_rel ?c then ?c\<lparr>nc_rel_len := 0\<rparr> else ?c)"
  define c2 where "c2 = c1\<lparr>nc_in_seq := of_nat (p_seq p), nc_in_ack := of_nat (p_ack p), nc_in_rel_ack := of_bool (p_flip p),
     nc_in_rel_seq := (if p_rel p then nc_in_rel_seq c1 XOR 1 else nc_in_rel_seq c1)\<rparr>"
  obtain f where f: "Netchan_UpdateFlow (ne_realtime env) (flow_record (ne_realtime env) 1 (sb_cursize (nt_buf (ns_net s))) c2) = c2\<lparr>nc_flow := f\<rparr>"
    using UpdateFlow_only by blast
  have s': "ns_chan s' = c2\<lparr>nc_flow := f\<rparr>" "ns_net s' = ns_net s"
    unfolding s'_def accept_packet_def Let_def c1_def [symmetric] c2_def [symmetric] f by simp_all
  show "ns_net s' = ns_net s" "nc_socket (ns_chan s') = nc_socket ?c" "nc_remote (ns_chan s') = nc_remote ?c"
    by (simp_all add: s' c2_def c1_def)
  show "quiet (ns_chan s')"
    using q low by (auto simp: s' c2_def c1_def quiet_def dest!: bit_word_cases)
  show "ep_of (ns_chan s') = after_receive p (ep_of ?c)"
    using q nat bit_word_cases [of "nc_in_rel_seq ?c"] unfolding s' c2_def c1_def clear
    by (auto simp: ep_of_def after_receive_def quiet_def)
qed

text \<open>What every packet goes through first: the two words are read and the rest is unscrambled.\<close>

lemma process_start:
  assumes adr: "NET_CompareAdr (nc_remote (ns_chan s)) (nt_from (ns_net s))"
    and buf: "sz_wf (nt_buf (ns_net s))" "unat (sb_maxsize (nt_buf (ns_net s))) < 2 ^ 31"
    and bytes: "sz_contents (nt_buf (ns_net s)) = bytes32 w0 @ bytes32 w1 @ munged (sq AND 0xFF) body"
    and small: "length body \<le> 1392" and plain: "w1 AND 0x40000000 = 0" and sq: "w0 AND 0x3FFFFFFF = sq"
  obtains s3 m' where "Netchan_Process env s =
      (if w0 AND 0x40000000 \<noteq> 0 then
         bindE (read_headers s3) (\<lambda>(hs, s).
           if \<not> Netchan_Validate hs then Inr (False, s)
           else if nc_in_seq (ns_chan s) \<ge> sq then Inr (False, s)
           else take_fragments env hs (accept_packet env sq (w1 AND 0x3FFFFFFF) (w0 AND 0x80000000 \<noteq> 0) (w1 AND 0x80000000 \<noteq> 0) s))
       else if nc_in_seq (ns_chan s3) \<ge> sq then Inr (False, s3)
       else Inr (True, accept_packet env sq (w1 AND 0x3FFFFFFF) (w0 AND 0x80000000 \<noteq> 0) (w1 AND 0x80000000 \<noteq> 0) s3))"
    "ns_chan s3 = (ns_chan s)\<lparr>nc_last_received := ne_realtime env\<rparr>" "ns_net s3 = (ns_net s)\<lparr>nt_message := m'\<rparr>"
    "nm_wf m'" "unread m' = body" "unat (nm_readcount m') = 8"
    "sb_maxsize (nm_buf m') = sb_maxsize (nt_buf (ns_net s))" "length (sb_data (nm_buf m')) = length (sb_data (nt_buf (ns_net s)))"
proof -
  let ?wire = "bytes32 w0 @ bytes32 w1 @ munged (sq AND 0xFF) body"
  define s1 where "s1 = s\<lparr>ns_chan := (ns_chan s)\<lparr>nc_last_received := ne_realtime env\<rparr>\<rparr>"
  define m0 where "m0 = MSG_BeginReading (nt_message (ns_net s1))"
  have m0: "nm_wf m0" "unread m0 = ?wire" "nm_buf m0 = nt_buf (ns_net s)"
    using buf bytes by (simp_all add: m0_def MSG_BeginReading_def s1_def nm_wf_def unread_def)
  have len: "length (munged (sq AND 0xFF) body) = length body"
    using munged(1) [of body] small by simp
  have r0: "MSG_ReadLong m0 = Inr (w0, advance 4 m0)"
    using MSG_ReadLong_wf [OF m0(1)] m0(2) len by simp
  have a4: "nm_wf (advance 4 m0)" "unread (advance 4 m0) = drop 4 ?wire"
    using m0 len advance_wf [OF m0(1), of 4] advance_unread [OF m0(1), of 4] by simp_all
  have r1: "MSG_ReadLong (advance 4 m0) = Inr (w1, advance 8 m0)"
    using MSG_ReadLong_wf [OF a4(1)] a4(2) len by simp
  define s2 where "s2 = s1\<lparr>ns_net := (ns_net s1)\<lparr>nt_message := advance 8 m0\<rparr>\<rparr>"
  define b where "b = nt_buf (ns_net s)"
  have cur: "unat (sb_cursize b) = 8 + length body"
    using buf(1) bytes len length_sz_contents [of b] by (simp add: b_def)
  obtain rest where rest: "sb_data b = ?wire @ rest"
    using bytes by (metis append_take_drop_id b_def sz_contents_def)
  have cur': "sb_cursize b - 8 = of_nat (length body)"
    using cur small by (simp add: word_unat_eq_iff unat_sub word_le_nat_alt unat_of_nat_u32)
  define d where "d = bytes32 w0 @ bytes32 w1 @ body @ rest"
  define m' where "m' = (advance 8 m0)\<lparr>nm_buf := b\<lparr>sb_data := d\<rparr>\<rparr>"
  define s3 where "s3 = s2\<lparr>ns_net := (ns_net s2)\<lparr>nt_message := m'\<rparr>\<rparr>"
  have un: "unmunge_packet sq s2 = Inr s3"
    using munged(3) [of body "sq AND 0xFF" rest] small cur' rest
    by (simp add: unmunge_packet_def Let_def s2_def m0(3) b_def [symmetric] s3_def m'_def d_def)
  have c3: "ns_chan s3 = (ns_chan s)\<lparr>nc_last_received := ne_realtime env\<rparr>" "ns_net s3 = (ns_net s)\<lparr>nt_message := m'\<rparr>"
    by (simp_all add: s3_def s2_def s1_def)
  have count: "unat (nm_readcount (advance 8 m0)) = 8"
    using advance_count(1) [OF m0(1), of 8] m0(2) len by (simp add: m0_def MSG_BeginReading_def)
  then have m': "unread m' = body" "unat (nm_readcount m') = 8" "sb_maxsize (nm_buf m') = sb_maxsize b" "length (sb_data (nm_buf m')) = length (sb_data b)"
    using cur len rest by (simp_all add: m'_def d_def unread_def sz_contents_def)
  have "nm_wf m'"
    using buf count cur m'(4) by (simp add: nm_wf_def m'_def sz_wf_nat b_def word_le_nat_alt)
  then show thesis
    using that [of s3 m', OF _ c3 _ m' [unfolded b_def]] adr r0 r1 un plain sq
    by (simp add: Netchan_Process_def s1_def [symmetric] m0_def [symmetric] s2_def [symmetric] Let_def sq cong: if_cong)
qed

lemma process_refines:
  assumes q: "quiet (ns_chan s)" and p: "packet_ok p" and held: "holds_packet p (ns_net s)"
    and adr: "NET_CompareAdr (nc_remote (ns_chan s)) (nt_from (ns_net s))"
  defines "new \<equiv> e_in (ep_of (ns_chan s)) < p_seq p"
  obtains s' m' where "Netchan_Process env s = Inr (new, s')" "quiet (ns_chan s')"
    "ep_of (ns_chan s') = (if new then after_receive p (ep_of (ns_chan s)) else ep_of (ns_chan s))"
    "nc_socket (ns_chan s') = nc_socket (ns_chan s)" "nc_remote (ns_chan s') = nc_remote (ns_chan s)"
    "ns_net s' = (ns_net s)\<lparr>nt_message := m'\<rparr>" "unread m' = p_body p"
    "sb_maxsize (nm_buf m') = sb_maxsize (nt_buf (ns_net s))" "length (sb_data (nm_buf m')) = length (sb_data (nt_buf (ns_net s)))"
proof -
  have f: "p_seq p < 2 ^ 30" "p_ack p < 2 ^ 30"
    using p by (simp_all add: packet_ok_def)
  note w0 = flagged_parts [OF f(1), of "p_rel p"] and w1 = flagged_parts [OF f(2), of "p_flip p"]
  obtain s3 m' where s3: "Netchan_Process env s =
      (if nc_in_seq (ns_chan s) \<ge> of_nat (p_seq p) then Inr (False, s3)
       else Inr (True, accept_packet env (of_nat (p_seq p)) (of_nat (p_ack p)) (p_rel p) (p_flip p) s3))"
      and c3: "ns_chan s3 = (ns_chan s)\<lparr>nc_last_received := ne_realtime env\<rparr>" "ns_net s3 = (ns_net s)\<lparr>nt_message := m'\<rparr>"
      and m': "unread m' = p_body p" "sb_maxsize (nm_buf m') = sb_maxsize (nt_buf (ns_net s))"
        "length (sb_data (nm_buf m')) = length (sb_data (nt_buf (ns_net s)))"
    using process_start [OF adr, of "flagged (p_rel p) (p_seq p)" "flagged (p_flip p) (p_ack p)" "of_nat (p_seq p)" "p_body p" env] held p
    unfolding w0 w1 by (simp add: holds_packet_def wire_of_def packet_ok_def) blast
  have seq: "nc_in_seq (ns_chan s) \<ge> of_nat (p_seq p) \<longleftrightarrow> \<not> new"
    using p by (simp add: new_def word_le_nat_alt packet_ok_def unat_of_nat_u32 not_less)
  have q3: "quiet (ns_chan s3)"
    using q by (simp add: c3)
  note acc = accept_refines [OF q3 p, of env]
  show thesis
  proof (cases new)
    case True
    then show ?thesis
      using that [of "accept_packet env (of_nat (p_seq p)) (of_nat (p_ack p)) (p_rel p) (p_flip p) s3" m'] s3 seq acc m' c3 by simp
  next
    case False
    then show ?thesis
      using that [of s3 m'] s3 seq q3 m' c3 by simp
  qed
qed

end
