(* ===== verification/Link.thy ===== *)
theory Link
  imports Wire
begin

text \<open>
  Two channels over a network: both ends run \<^verbatim>\<open>Netchan_Transmit\<close>, \<^verbatim>\<open>NET_QueuePacket\<close> and
  \<^verbatim>\<open>Netchan_Process\<close>, and the network delivers any datagram that was sent, at any later time and any
  number of times, or never. Each end keeps two logs: the messages it has moved into the reliable
  buffer, and what its reader finds in the packets that toggled \<^verbatim>\<open>incoming_reliable_sequence\<close>.
\<close>

section \<open>The link\<close>

record link =
  lk_chan :: "bool \<Rightarrow> netchan"
  lk_net :: "bool \<Rightarrow> net"
  lk_loads :: "bool \<Rightarrow> u8 list list"
  lk_got :: "bool \<Rightarrow> u8 list list"

definition loaded_now :: "netchan \<Rightarrow> u8 list list" where
  "loaded_now c = (if nc_rel_len c = 0 \<and> sb_cursize (nc_message c) \<noteq> 0 then [sz_contents (nc_message c)] else [])"

definition link_send :: "netenv \<Rightarrow> bool \<Rightarrow> u8 list \<Rightarrow> link \<Rightarrow> link outcome" where
  "link_send env s data L =
     bindE (Netchan_Transmit env data (lk_chan L s, lk_net L s)) (\<lambda>(c, n).
       Inr (L\<lparr>lk_chan := (lk_chan L)(s := c), lk_net := (lk_net L)(s := n),
         lk_loads := (lk_loads L)(s := lk_loads L s @ loaded_now (lk_chan L s))\<rparr>))"

text \<open>The datagram arrives from the address the receiver knows its peer by.\<close>

definition link_receive :: "netenv \<Rightarrow> bool \<Rightarrow> u8 list \<Rightarrow> link \<Rightarrow> link outcome" where
  "link_receive env t bs L =
     (let c = lk_chan L t in
      bindE (NET_QueuePacket (\<lambda>_. False) False (nc_socket c) [Received bs (remote_addr c)] (lk_net L t)) (\<lambda>(got, _, n).
        if \<not> got then Inr (L\<lparr>lk_net := (lk_net L)(t := n)\<rparr>)
        else bindE (Netchan_Process env \<lparr>ns_chan = c, ns_net = n, ns_drop = 0, ns_texts = []\<rparr>) (\<lambda>(ok, s).
          Inr (L\<lparr>lk_chan := (lk_chan L)(t := ns_chan s), lk_net := (lk_net L)(t := ns_net s),
            lk_got := (lk_got L)(t := lk_got L t @
              (if ok \<and> nc_in_rel_seq (ns_chan s) \<noteq> nc_in_rel_seq c then [unread (nt_message (ns_net s))] else []))\<rparr>))))"

definition link_write :: "bool \<Rightarrow> u8 list \<Rightarrow> link \<Rightarrow> link outcome" where
  "link_write s bs L =
     bindE (SZ_Write (nc_message (lk_chan L s)) bs (of_nat (length bs))) (\<lambda>m.
       Inr (L\<lparr>lk_chan := (lk_chan L)(s := (lk_chan L s)\<lparr>nc_message := m\<rparr>)\<rparr>))"

text \<open>Both ends fresh from \<^verbatim>\<open>Netchan_Setup\<close>, their sockets open.\<close>

definition link_start :: "(bool \<Rightarrow> netadr) \<Rightarrow> link" where
  "link_start adr =
     \<lparr>lk_chan = (\<lambda>s. case Netchan_Setup 0 (if s then 1 else 0) (adr s) 0 (zero_netchan, nt_message empty_net) of
          Inr (c, _) \<Rightarrow> c | Inl _ \<Rightarrow> zero_netchan),
      lk_net = (\<lambda>_. empty_net), lk_loads = (\<lambda>_. []), lk_got = (\<lambda>_. [])\<rparr>"

text \<open>An exchange: one end sends, and its datagram arrives.\<close>

definition datagrams :: "bool \<Rightarrow> link \<Rightarrow> u8 list list" where
  "datagrams s L = map (\<lambda>(_, _, bs). bs) (nt_sent (lk_net L s))"

definition link_exchange :: "netenv \<Rightarrow> bool \<Rightarrow> u8 list \<Rightarrow> link \<Rightarrow> link outcome" where
  "link_exchange env s data L =
     bindE (link_send env s data L) (\<lambda>L. link_receive env (\<not> s) (last (datagrams s L)) L)"

definition three_rounds :: "netenv \<Rightarrow> bool \<Rightarrow> u8 list \<Rightarrow> u8 list \<Rightarrow> u8 list \<Rightarrow> link \<Rightarrow> link outcome" where
  "three_rounds env s d0 d1 d2 L =
     bindE (link_exchange env s d0 L) (\<lambda>L. bindE (link_exchange env (\<not> s) d1 L) (\<lambda>L. link_exchange env s d2 L))"

text \<open>
  The steps. Messages stay within the 1200 bytes that travel without fragments, the unreliable part
  within what is left of a packet, and the sequence numbers below the flag bits.
\<close>

definition can_send :: "netenv \<Rightarrow> bool \<Rightarrow> u8 list \<Rightarrow> link \<Rightarrow> bool" where
  "can_send env s data L \<longleftrightarrow> env_ok env \<and> length data \<le> 192 \<and> unat (nc_out_seq (lk_chan L s)) < 2 ^ 30 - 1"

definition can_write :: "bool \<Rightarrow> u8 list \<Rightarrow> link \<Rightarrow> bool" where
  "can_write s bs L \<longleftrightarrow> unat (sb_cursize (nc_message (lk_chan L s))) + length bs \<le> 1200 \<and>
     unat (sb_cursize (nc_message (lk_chan L s))) + length bs \<le> unat (sb_maxsize (nc_message (lk_chan L s)))"

inductive link_step :: "link \<Rightarrow> link \<Rightarrow> bool" where
  "can_send env s data L \<Longrightarrow> link_send env s data L = Inr L' \<Longrightarrow> link_step L L'"
| "env_ok env \<Longrightarrow> bs \<in> set (datagrams (\<not> t) L) \<Longrightarrow> link_receive env t bs L = Inr L' \<Longrightarrow> link_step L L'"
| "can_write s bs L \<Longrightarrow> link_write s bs L = Inr L' \<Longrightarrow> link_step L L'"

inductive link_reach :: "(bool \<Rightarrow> netadr) \<Rightarrow> link \<Rightarrow> bool" for adr where
  "link_reach adr (link_start adr)"
| "link_reach adr L \<Longrightarrow> link_step L L' \<Longrightarrow> link_reach adr L'"

section \<open>Arrival\<close>

definition buffer_ok :: "net \<Rightarrow> bool" where
  "buffer_ok n \<longleftrightarrow> 1400 \<le> unat (sb_maxsize (nt_buf n)) \<and> unat (sb_maxsize (nt_buf n)) < 2 ^ 31 \<and>
     unat (sb_maxsize (nt_buf n)) \<le> length (sb_data (nt_buf n))"

lemma arrival:
  assumes p: "packet_ok p" and n: "buffer_ok n" "line_ok c n"
  obtains n' where "NET_QueuePacket (\<lambda>_. False) False (nc_socket c) [Received (wire_of p) (remote_addr c)] n = Inr (True, [], n')"
    "holds_packet p n'" "buffer_ok n'" "line_ok c n'" "nt_sent n' = nt_sent n" "NET_CompareAdr (nc_remote c) (nt_from n')"
proof -
  have len: "length (wire_of p) \<le> 1400" "4 \<le> length (wire_of p)"
    using length_wire_of [OF p] p by (simp_all add: packet_ok_def)
  obtain d where d: "poke 0 (wire_of p) (sb_data (nt_buf n)) = Inr d"
    using poke_total [of 0 "wire_of p" "sb_data (nt_buf n)"] len n by (auto simp: buffer_ok_def)
  have d': "length d = length (sb_data (nt_buf n))" "take (length (wire_of p)) d = wire_of p"
    using length_poke [OF d] poke_take_through [OF d] by simp_all
  have "take 4 d = take 4 (wire_of p)"
    using d'(2) len(2) by (metis min.absorb1 take_take)
  then have first: "load32 0 d = Inr (flagged (p_rel p) (p_seq p))"
    using d'(1) len n by (simp add: load32_def peek_def wire_of_def buffer_ok_def)
  have "flagged (p_rel p) (p_seq p) AND 0x40000000 = 0"
    using p by (simp add: packet_ok_def flagged_parts(2))
  then have plain: "flagged (p_rel p) (p_seq p) \<noteq> 0xFFFFFFFE"
    by auto
  let ?n = "(set_buf (\<lambda>b. b\<lparr>sb_data := d, sb_cursize := of_nat (length (wire_of p))\<rparr>) n)
     \<lparr>nt_from := (nt_from n)\<lparr>na_type := NA_IP, na_ip := na_ip (nc_remote c), na_port := na_port (nc_remote c)\<rparr>\<rparr>"
  have "NET_QueuePacket (\<lambda>_. False) False (nc_socket c) [Received (wire_of p) (remote_addr c)] n = Inr (True, [], ?n)"
    using n(2) d len first plain
    by (simp add: NET_QueuePacket_def line_ok_def SockadrToNetadr_def remote_addr_def Let_def)
  moreover have "holds_packet p ?n"
    using len n(1) d' by (simp add: holds_packet_def sz_wf_nat buffer_ok_def sz_contents_def unat_of_nat_u32)
  moreover have "buffer_ok ?n" "line_ok c ?n" "NET_CompareAdr (nc_remote c) (nt_from ?n)"
    using n d' by (simp_all add: buffer_ok_def line_ok_def NET_CompareAdr_def)
  ultimately show thesis
    using that by simp
qed

section \<open>The simulation\<close>

definition end_ok :: "netchan \<Rightarrow> net \<Rightarrow> bool" where
  "end_ok c n \<longleftrightarrow> quiet c \<and> line_ok c n \<and> buffer_ok n \<and> unat (nc_out_seq c) < 2 ^ 30"

definition sim :: "link \<Rightarrow> system \<Rightarrow> bool" where
  "sim L S \<longleftrightarrow> (\<forall>s. end_ok (lk_chan L s) (lk_net L s) \<and> s_end S s = ep_of (lk_chan L s) \<and>
     s_loads S s = lk_loads L s \<and> s_got S s = lk_got L s \<and>
     datagrams s L = map (wire_of \<circ> sp_packet) (s_wire S s) \<and> (\<forall>q \<in> set (s_wire S s). packet_ok (sp_packet q)))"

lemma loaded_now: "quiet c \<Longrightarrow> loaded_now c = (if loads (ep_of c) then [e_msg (ep_of c)] else [])"
  using quiet_pend [of c] quiet_msg [of c] by (simp add: loaded_now_def loads_def)

lemma packet_of_ok:
  assumes q: "quiet c" and data: "length data \<le> 192" and seq: "unat (nc_out_seq c) < 2 ^ 30"
  shows "packet_ok (packet_of data (ep_of c))"
proof -
  have "length (e_pend (load (ep_of c))) \<le> 1200"
    using q length_sz_contents [of "nc_message c"] by (auto simp: load_def quiet_def message_small_def)
  then show ?thesis
    using q data seq by (auto simp: packet_ok_def packet_of_def pad_body_def quiet_def word_less_nat_alt)
qed

lemma sim_send:
  assumes sim: "sim L S" and can: "can_send env s data L"
  obtains L' where "link_send env s data L = Inr L'" "sim L' (sys_send s data S)"
proof -
  let ?c = "lk_chan L s" and ?n = "lk_net L s"
  have ok: "quiet ?c" "line_ok ?c ?n" "buffer_ok ?n" and e: "s_end S s = ep_of ?c"
    using sim by (simp_all add: sim_def end_ok_def)
  obtain c' where c': "Netchan_Transmit env data (?c, ?n) =
      Inr (c', ?n\<lparr>nt_sent := nt_sent ?n @ [(nc_socket ?c, remote_addr ?c, wire_of (packet_of data (ep_of ?c)))]\<rparr>)"
      "quiet c'" "ep_of c' = after_send (ep_of ?c)" "nc_socket c' = nc_socket ?c" "nc_remote c' = nc_remote ?c"
    using transmit_refines [OF ok(1) _ ok(2), of env data] can unfolding can_send_def by blast
  let ?n' = "?n\<lparr>nt_sent := nt_sent ?n @ [(nc_socket ?c, remote_addr ?c, wire_of (packet_of data (ep_of ?c)))]\<rparr>"
  let ?L = "L\<lparr>lk_chan := (lk_chan L)(s := c'), lk_net := (lk_net L)(s := ?n'),
     lk_loads := (lk_loads L)(s := lk_loads L s @ loaded_now ?c)\<rparr>"
  have send: "link_send env s data L = Inr ?L"
    using c'(1) by (simp add: link_send_def)
  have "unat (nc_out_seq c') < 2 ^ 30"
    using arg_cong [OF c'(3), of e_out] can by (simp add: can_send_def)
  then have "end_ok c' ?n'"
    using ok c' by (simp add: end_ok_def line_ok_def buffer_ok_def)
  moreover have "packet_ok (packet_of data (ep_of ?c))"
    using packet_of_ok ok(1) can by (simp add: can_send_def)
  ultimately have "sim ?L (sys_send s data S)"
    using sim c'(3) e loaded_now [OF ok(1)] by (auto simp: sim_def sys_send_def Let_def datagrams_def)
  with send show thesis
    by (rule that)
qed

lemma sim_receive:
  assumes sim: "sim L S" and q: "q \<in> set (s_wire S (\<not> t))"
  obtains L' where "link_receive env t (wire_of (sp_packet q)) L = Inr L'" "sim L' (sys_receive t q S)"
proof -
  let ?c = "lk_chan L t" and ?n = "lk_net L t" and ?p = "sp_packet q"
  have ok: "quiet ?c" "line_ok ?c ?n" "buffer_ok ?n" "unat (nc_out_seq ?c) < 2 ^ 30" and e: "s_end S t = ep_of ?c" and p: "packet_ok ?p"
    using sim q by (auto simp: sim_def end_ok_def)
  obtain n' where n': "NET_QueuePacket (\<lambda>_. False) False (nc_socket ?c) [Received (wire_of ?p) (remote_addr ?c)] ?n = Inr (True, [], n')"
      "holds_packet ?p n'" "buffer_ok n'" "line_ok ?c n'" "nt_sent n' = nt_sent ?n" "NET_CompareAdr (nc_remote ?c) (nt_from n')"
    using arrival [OF p ok(3,2)] by blast
  let ?s = "\<lparr>ns_chan = ?c, ns_net = n', ns_drop = 0, ns_texts = []\<rparr>"
  define new where "new = (e_in (ep_of ?c) < p_seq ?p)"
  obtain s' m' where s': "Netchan_Process env ?s = Inr (new, s')" "quiet (ns_chan s')"
      "ep_of (ns_chan s') = (if new then after_receive ?p (ep_of ?c) else ep_of ?c)"
      "nc_socket (ns_chan s') = nc_socket ?c" "nc_remote (ns_chan s') = nc_remote ?c"
      "ns_net s' = n'\<lparr>nt_message := m'\<rparr>" "unread m' = p_body ?p"
      "sb_maxsize (nm_buf m') = sb_maxsize (nt_buf n')" "length (sb_data (nm_buf m')) = length (sb_data (nt_buf n'))"
    unfolding new_def by (rule process_refines [of ?s ?p env, unfolded netstate.simps, OF ok(1) p n'(2,6)])
  let ?got = "if new \<and> nc_in_rel_seq (ns_chan s') \<noteq> nc_in_rel_seq ?c then [p_body ?p] else []"
  let ?L = "L\<lparr>lk_chan := (lk_chan L)(t := ns_chan s'), lk_net := (lk_net L)(t := n'\<lparr>nt_message := m'\<rparr>),
     lk_got := (lk_got L)(t := lk_got L t @ ?got)\<rparr>"
  have receive: "link_receive env t (wire_of ?p) L = Inr ?L"
    using n'(1) s'(1) by (simp add: link_receive_def Let_def s'(6,7))
  have flip: "nc_in_rel_seq (ns_chan s') \<noteq> nc_in_rel_seq ?c \<longleftrightarrow> new \<and> p_rel ?p"
    using quiet_bits(2) [OF ok(1)] quiet_bits(2) [OF s'(2)] s'(3) by auto
  have "nc_out_seq (ns_chan s') = nc_out_seq ?c"
    using arg_cong [OF s'(3), of e_out] by (simp add: word_unat_eq_iff split: if_splits)
  then have "end_ok (ns_chan s') (n'\<lparr>nt_message := m'\<rparr>)"
    using s' n'(3,4) ok(4) by (simp add: end_ok_def line_ok_def buffer_ok_def)
  then have "sim ?L (sys_receive t q S)"
    using sim s'(3) e flip n'(5) by (auto simp: sim_def sys_receive_def Let_def datagrams_def new_def)
  with receive show thesis
    by (rule that)
qed

lemma sim_write:
  assumes sim: "sim L S" and can: "can_write s bs L"
  obtains L' where "link_write s bs L = Inr L'" "sim L' (sys_write s (e_msg (s_end S s) @ bs) S)"
proof -
  let ?c = "lk_chan L s"
  have ok: "quiet ?c" "line_ok ?c (lk_net L s)" "buffer_ok (lk_net L s)" "unat (nc_out_seq ?c) < 2 ^ 30" and e: "s_end S s = ep_of ?c"
    using sim by (simp_all add: sim_def end_ok_def)
  have wf: "sz_wf (nc_message ?c)" "length bs \<le> sz_room (nc_message ?c)" "length bs < 2 ^ 32"
    using ok(1) can by (auto simp: quiet_def message_small_def can_write_def sz_room_def)
  obtain m where m: "sz_put (nc_message ?c) bs = Inr m" "sz_wf m" "sz_contents m = sz_contents (nc_message ?c) @ bs"
      "sb_overflow m = sb_overflow (nc_message ?c)"
    using sz_put_append [OF wf(1,2)] by blast
  let ?L = "L\<lparr>lk_chan := (lk_chan L)(s := ?c\<lparr>nc_message := m\<rparr>)\<rparr>"
  have "link_write s bs L = Inr ?L"
    using m(1) SZ_Write_sz_put [OF refl wf(3)] by (simp add: link_write_def)
  moreover have "message_small m"
    using ok(1) m can length_sz_contents [OF m(2)] length_sz_contents [OF wf(1)]
    by (simp add: message_small_def quiet_def can_write_def)
  then have "end_ok (?c\<lparr>nc_message := m\<rparr>) (lk_net L s)"
    using ok by (simp add: end_ok_def quiet_def line_ok_def)
  moreover have "ep_of (?c\<lparr>nc_message := m\<rparr>) = (ep_of ?c)\<lparr>e_msg := sz_contents m\<rparr>"
    by (simp add: ep_of_def)
  ultimately show thesis
    using that [of ?L] sim e m(3) by (auto simp: sim_def sys_write_def datagrams_def)
qed

lemma Setup_fresh:
  "Netchan_Setup t sock adr idx (zero_netchan, m) =
     Inr (zero_netchan\<lparr>nc_socket := sock, nc_remote := adr, nc_client := idx, nc_last_received := t, nc_first_received := t,
       nc_rate := 0, nc_out_seq := 1, nc_message := (nc_message zero_netchan)\<lparr>sb_overflow := 1, sb_maxsize := 0xF96\<rparr>\<rparr>,
       flush_message (flush_message m))"
  by (simp add: Netchan_Setup_def Netchan_Clear_def Netchan_ClearFragments_def Netchan_FlushIncoming_def
      free_block_def zero_netchan_def)

lemma sim_start:
  assumes "\<forall>s. na_type (adr s) = NA_IP"
  shows "sim (link_start adr) sys_start"
proof -
  have one: "(1 :: u32) AND 2 = 0"
    by simp
  show ?thesis
    unfolding sim_def link_start_def Setup_fresh sys_start_def
    using assms by (auto simp: end_ok_def quiet_def message_small_def sz_wf_nat line_ok_def buffer_ok_def datagrams_def
        empty_net_def zero_netchan_def ep_of_def start_def sz_contents_def)
qed

lemma wire_back: "sim L S \<Longrightarrow> bs \<in> set (datagrams s L) \<Longrightarrow> \<exists>q \<in> set (s_wire S s). bs = wire_of (sp_packet q)"
  by (auto simp: sim_def)

lemma link_reach_sim:
  assumes "link_reach adr L" "\<forall>s. na_type (adr s) = NA_IP"
  shows "\<exists>S. reachable S \<and> sim L S"
  using assms(1)
proof (induction rule: link_reach.induct)
  case 1
  then show ?case
    using sim_start [OF assms(2)] reach_start by blast
next
  case (2 L L')
  then obtain S where S: "reachable S" "sim L S"
    by blast
  from 2(2) show ?case
  proof (cases rule: link_step.cases)
    case (1 env s data)
    then show ?thesis
      using sim_send [OF S(2) 1(1)] reach_step [OF S(1) step_send] by (metis sum.inject(2))
  next
    case (2 env bs t)
    obtain q where q: "q \<in> set (s_wire S (\<not> t))" "bs = wire_of (sp_packet q)"
      using wire_back [OF S(2) 2(2)] by blast
    then show ?thesis
      using sim_receive [OF S(2) q(1), of env] 2(3) reach_step [OF S(1) step_receive [OF q(1)]] by (metis sum.inject(2))
  next
    case (3 s bs)
    then show ?thesis
      using sim_write [OF S(2) 3(1)] reach_step [OF S(1) step_write] by (metis sum.inject(2))
  qed
qed

lemma sim_exchange:
  assumes sim: "sim L S" and r: "reachable S" and can: "can_send env s data L"
  obtains L' where "link_exchange env s data L = Inr L'" "sim L' (exchange s data S)"
    "unat (nc_out_seq (lk_chan L' s)) = unat (nc_out_seq (lk_chan L s)) + 1"
    "nc_out_seq (lk_chan L' (\<not> s)) = nc_out_seq (lk_chan L (\<not> s))"
proof -
  obtain L1 where L1: "link_send env s data L = Inr L1" "sim L1 (sys_send s data S)"
    using sim_send [OF sim can] by blast
  define q where "q = last (s_wire (sys_send s data S) s)"
  have q: "q \<in> set (s_wire (sys_send s data S) (\<not> (\<not> s)))"
    by (simp add: q_def last_sent)
  have "s_wire (sys_send s data S) s \<noteq> []"
    by (auto simp flip: set_empty)
  then have "last (datagrams s L1) = wire_of (sp_packet q)"
    using L1(2) by (simp add: sim_def last_map q_def)
  then obtain L' where L': "link_exchange env s data L = Inr L'" "sim L' (exchange s data S)"
    using sim_receive [OF L1(2) q, of env] L1(1) by (auto simp: link_exchange_def exchange_def Let_def q_def)
  have "e_out (s_end (exchange s data S) s) = e_out (s_end S s) + 1" "e_out (s_end (exchange s data S) (\<not> s)) = e_out (s_end S (\<not> s))"
    by (simp_all add: exchange_simps(1,2) [OF r])
  then show thesis
    using that [OF L'] L'(2) sim by (simp add: sim_def word_unat_eq_iff)
qed

section \<open>The reliable stream\<close>

definition at_ip :: "(bool \<Rightarrow> netadr) \<Rightarrow> bool" where
  "at_ip adr \<longleftrightarrow> (\<forall>s. na_type (adr s) = NA_IP)"

text \<open>A short run for the witnesses: one end writes a message and sends it, the other receives it.\<close>

definition sample_adr :: "bool \<Rightarrow> netadr" where
  "sample_adr s = no_adr\<lparr>na_type := NA_IP, na_ip := (10, 0, 0, if s then 1 else 2), na_port := 27015\<rparr>"

definition sample_env :: netenv where
  "sample_env = \<lparr>ne_realtime = 10, ne_sendto = (\<lambda>_ d. int (length (snd (snd d)))), ne_errno = E_OTHER, ne_dedicated = True,
     ne_files = (\<lambda>_. None), ne_fragsize = 128, ne_demo = False, ne_lan = False, ne_lan_rate = 0, ne_is_client = False,
     ne_any_source = False\<rparr>"

lemma sample_ok: "at_ip sample_adr" "env_ok sample_env"
  by (simp_all add: at_ip_def sample_adr_def env_ok_def sample_env_def)

lemma sample_run:
  "\<exists>L. link_reach sample_adr L \<and> lk_loads L True = [[1, 2, 3]] \<and> lk_got L False = [[1, 2, 3, 1, 1, 1, 1, 1]] \<and>
    (\<forall>s. nc_out_seq (lk_chan L s) < 3)"
proof -
  have sim0: "sim (link_start sample_adr) sys_start"
    using sample_ok(1) sim_start by (simp add: at_ip_def)
  have cw: "can_write True [1, 2, 3] (link_start sample_adr)"
    unfolding can_write_def link_start_def Setup_fresh by (simp add: zero_netchan_def)
  from sim_write [OF sim0 this] obtain L1 where L1: "link_write True [1, 2, 3] (link_start sample_adr) = Inr L1"
      "sim L1 (sys_write True [1, 2, 3] sys_start)"
    by (auto simp: sys_start_def start_def)
  have r1: "reachable (sys_write True [1, 2, 3] sys_start)"
    by (rule reach_step [OF reach_start step_write])
  have c1: "unat (nc_out_seq (lk_chan L1 s)) = 1" for s
    using L1(2) by (auto simp: sim_def sys_write_def sys_start_def start_def dest!: spec [of _ s] arg_cong [where f = e_out] split: if_splits)
  then have can: "can_send sample_env True [] L1"
    by (simp add: can_send_def sample_ok)
  obtain L where L: "link_exchange sample_env True [] L1 = Inr L" "sim L (exchange True [] (sys_write True [1, 2, 3] sys_start))"
      "unat (nc_out_seq (lk_chan L True)) = 2" "nc_out_seq (lk_chan L False) = nc_out_seq (lk_chan L1 False)"
    using sim_exchange [OF L1(2) r1 can] c1 [of True] by (auto simp del: One_nat_def)
  have reach1: "link_reach sample_adr L1"
    by (rule link_reach.intros(2) [OF link_reach.intros(1) link_step.intros(3) [OF cw L1(1)]])
  obtain L2 where L2: "link_send sample_env True [] L1 = Inr L2" "link_receive sample_env False (last (datagrams True L2)) L2 = Inr L"
    using L(1) by (auto simp: link_exchange_def outcome_simps)
  have "datagrams True L2 \<noteq> []"
  proof -
    obtain L2' where "link_send sample_env True [] L1 = Inr L2'" "sim L2' (sys_send True [] (sys_write True [1, 2, 3] sys_start))"
      using sim_send [OF L1(2) can] by blast
    then have "datagrams True L2 = map (wire_of \<circ> sp_packet) (s_wire (sys_send True [] (sys_write True [1, 2, 3] sys_start)) True)"
      using L2(1) by (simp add: sim_def)
    then show ?thesis
      by (simp add: sys_send_def Let_def)
  qed
  then have last: "last (datagrams True L2) \<in> set (datagrams (\<not> False) L2)"
    by simp
  have "link_reach sample_adr L2"
    by (rule link_reach.intros(2) [OF reach1 link_step.intros(1) [OF can L2(1)]])
  then have "link_reach sample_adr L"
    by (rule link_reach.intros(2)) (rule link_step.intros(2) [OF sample_ok(2) last L2(2)])
  moreover have "lk_loads L True = [[1, 2, 3]]" "lk_got L False = [[1, 2, 3, 1, 1, 1, 1, 1]]"
  proof -
    let ?S = "exchange True [] (sys_write True [1, 2, 3] sys_start)"
    have e: "loads (s_end (sys_write True [1, 2, 3] sys_start) True)"
      by (simp add: loads_def sys_write_def sys_start_def start_def)
    have "s_loads ?S True = [[1, 2, 3]]" "s_got ?S (\<not> True) = [[1, 2, 3, 1, 1, 1, 1, 1]]"
      unfolding exchange_simps(3,5) [OF r1] using e
      by (simp_all add: packet_of_def pad_body_def numeral_eq_Suc) (simp_all add: sys_write_def sys_start_def start_def)
    then show "lk_loads L True = [[1, 2, 3]]" "lk_got L False = [[1, 2, 3, 1, 1, 1, 1, 1]]"
      using L(2) by (simp_all add: sim_def)
  qed
  moreover have "nc_out_seq (lk_chan L s) < 3" for s
    using L(3,4) c1 [of False] by (cases s) (simp_all add: word_less_nat_alt)
  ultimately show ?thesis
    by blast
qed

text \<open>
  C2. Well-typed ends cannot go wrong: in every state the link can reach from two channels just set up,
  both channels keep their invariant (no fragments, a well-formed message buffer, flags that are 0 or 1,
  sequence numbers below the flag bits, a receive buffer that holds a datagram), and every operation
  succeeds: sending within the size bounds, receiving any datagram the other end ever sent, writing
  within the buffer. No length check, index or system error of the code is hit.
\<close>

theorem link_never_fails:
  assumes "at_ip adr" "link_reach adr L"
  shows "end_ok (lk_chan L s) (lk_net L s) \<and>
    (can_send env s data L \<longrightarrow> (\<exists>L'. link_send env s data L = Inr L')) \<and>
    (bs \<in> set (datagrams (\<not> s) L) \<longrightarrow> (\<exists>L'. link_receive env s bs L = Inr L')) \<and>
    (can_write s bs L \<longrightarrow> (\<exists>L'. link_write s bs L = Inr L'))"
proof -
  obtain S where S: "reachable S" "sim L S"
    using link_reach_sim assms unfolding at_ip_def by blast
  have "\<exists>L'. link_receive env s bs L = Inr L'" if bs: "bs \<in> set (datagrams (\<not> s) L)"
    using wire_back [OF S(2) bs] sim_receive [OF S(2)] by metis
  then show ?thesis
    using S(2) sim_send [OF S(2)] sim_write [OF S(2)] unfolding sim_def [of L S] by metis
qed

theorem link_never_fails_witness:
  "\<exists>L. lk_got L False = [[1, 2, 3, 1, 1, 1, 1, 1]] \<and> end_ok (lk_chan L True) (lk_net L True) \<and>
     (\<exists>L'. link_send sample_env True [7] L = Inr L')"
proof -
  obtain L where L: "link_reach sample_adr L" "lk_got L False = [[1, 2, 3, 1, 1, 1, 1, 1]]" "nc_out_seq (lk_chan L True) < 3"
    using sample_run by blast
  have "can_send sample_env True [7] L"
    using L(3) sample_ok(2) by (simp add: can_send_def word_less_nat_alt)
  then show ?thesis
    using link_never_fails [OF sample_ok(1) L(1), of True sample_env "[7]"] L(2) by blast
qed

text \<open>
  C1. The reliable stream is a stream: over a network that loses, repeats and reorders datagrams as it
  likes, the reliable messages one end has taken are, in order and each exactly once, the messages the
  other end has put on their way (each followed by what the sender added behind it in the packet), and
  at most the last one is still missing.
\<close>

theorem reliable_in_order:
  assumes "at_ip adr" "link_reach adr L"
  shows "length (lk_got L (\<not> s)) \<le> length (lk_loads L s) \<and> length (lk_loads L s) \<le> length (lk_got L (\<not> s)) + 1 \<and>
    list_all2 prefix (take (length (lk_got L (\<not> s))) (lk_loads L s)) (lk_got L (\<not> s))"
proof -
  obtain S where "reachable S" "sim L S"
    using link_reach_sim assms unfolding at_ip_def by blast
  then show ?thesis
    using reachable_in_order [of S s] by (simp add: sim_def in_order_def)
qed

theorem reliable_in_order_witness:
  "\<exists>L :: link. lk_loads L True = [[1, 2, 3]] \<and> lk_got L False = [[1, 2, 3, 1, 1, 1, 1, 1]] \<and>
    list_all2 prefix (take (length (lk_got L False)) (lk_loads L True)) (lk_got L False)"
proof -
  obtain L where L: "link_reach sample_adr L" "lk_loads L True = [[1, 2, 3]]" "lk_got L False = [[1, 2, 3, 1, 1, 1, 1, 1]]"
    using sample_run by blast
  then show ?thesis
    using reliable_in_order [OF sample_ok(1) L(1), of True] by - (rule exI [of _ L], simp)
qed

text \<open>
  C3. What is lost is delivered in the end: from every reachable state, whatever was lost before, three
  exchanges (an end sends, its peer answers, it sends again, and these datagrams arrive) deliver every
  reliable message put on its way so far, and with a fourth the sender's reliable buffer is empty, so
  that the next message can follow.
\<close>

theorem reliable_delivered:
  assumes "at_ip adr" "link_reach adr L" and env: "env_ok env"
    and small: "length d0 \<le> 192" "length d1 \<le> 192" "length d2 \<le> 192" "length d3 \<le> 192"
    and seq: "\<forall>s. unat (nc_out_seq (lk_chan L s)) < 2 ^ 30 - 4"
  shows "\<exists>L3 L4. three_rounds env s d0 d1 d2 L = Inr L3 \<and> length (lk_got L3 (\<not> s)) = length (lk_loads L3 s) \<and>
    prefix (lk_loads L s) (lk_loads L3 s) \<and> link_exchange env (\<not> s) d3 L3 = Inr L4 \<and> nc_rel_len (lk_chan L4 s) = 0"
proof -
  obtain S where S: "reachable S" "sim L S"
    using link_reach_sim assms(1,2) unfolding at_ip_def by blast
  have can0: "can_send env s d0 L"
    using env small spec [OF seq, of s] by (simp add: can_send_def)
  obtain A where A: "link_exchange env s d0 L = Inr A" "sim A (exchange s d0 S)"
      "unat (nc_out_seq (lk_chan A s)) = unat (nc_out_seq (lk_chan L s)) + 1" "nc_out_seq (lk_chan A (\<not> s)) = nc_out_seq (lk_chan L (\<not> s))"
    using sim_exchange [OF S(2,1) can0] by blast
  have rA: "reachable (exchange s d0 S)"
    using S(1) by (rule exchange_reachable)
  have "can_send env (\<not> s) d1 A"
    using env small A(4) spec [OF seq, of "\<not> s"] by (simp add: can_send_def)
  then obtain B where B: "link_exchange env (\<not> s) d1 A = Inr B" "sim B (exchange (\<not> s) d1 (exchange s d0 S))"
      "unat (nc_out_seq (lk_chan B (\<not> s))) = unat (nc_out_seq (lk_chan A (\<not> s))) + 1" "nc_out_seq (lk_chan B s) = nc_out_seq (lk_chan A s)"
    using sim_exchange [OF A(2) rA, of env "\<not> s" d1] by auto
  have rB: "reachable (exchange (\<not> s) d1 (exchange s d0 S))"
    using rA by (rule exchange_reachable)
  have "can_send env s d2 B"
    using env small A(3) B(4) spec [OF seq, of s] by (simp add: can_send_def)
  then obtain T where T: "link_exchange env s d2 B = Inr T" "sim T (three_exchanges s d0 d1 d2 S)"
      "nc_out_seq (lk_chan T (\<not> s)) = nc_out_seq (lk_chan B (\<not> s))"
    using sim_exchange [OF B(2) rB, of env s d2] unfolding three_exchanges_def by auto
  have rT: "reachable (three_exchanges s d0 d1 d2 S)"
    using rB unfolding three_exchanges_def by (rule exchange_reachable)
  have "can_send env (\<not> s) d3 T"
    using env small A(4) B(3) T(3) spec [OF seq, of "\<not> s"] by (simp add: can_send_def)
  then obtain F where F: "link_exchange env (\<not> s) d3 T = Inr F" "sim F (exchange (\<not> s) d3 (three_exchanges s d0 d1 d2 S))"
    using sim_exchange [OF T(2) rT, of env "\<not> s" d3] by auto
  have "e_pend (ep_of (lk_chan F s)) = []" "quiet (lk_chan F s)"
    using fourth_exchange_frees [OF S(1), of s d3 d0 d1 d2] F(2) by (simp_all add: sim_def end_ok_def)
  then have "nc_rel_len (lk_chan F s) = 0"
    using quiet_pend by blast
  moreover have "three_rounds env s d0 d1 d2 L = Inr T"
    using A(1) B(1) T(1) by (simp add: three_rounds_def)
  moreover have "length (lk_got T (\<not> s)) = length (lk_loads T s)" "prefix (lk_loads L s) (lk_loads T s)"
    using three_exchanges_deliver(1,2) [OF S(1), of s d0 d1 d2] T(2) S(2) by (simp_all add: sim_def)
  ultimately show ?thesis
    using F(1) by blast
qed

theorem reliable_delivered_witness:
  "\<exists>L L3. lk_loads L True = [[1, 2, 3]] \<and> three_rounds sample_env True [5] [6] [7] L = Inr L3 \<and>
     length (lk_got L3 False) = length (lk_loads L3 True)"
proof -
  obtain L where L: "link_reach sample_adr L" "lk_loads L True = [[1, 2, 3]]" "\<And>s. nc_out_seq (lk_chan L s) < 3"
    using sample_run by blast
  have "\<forall>s. unat (nc_out_seq (lk_chan L s)) < 2 ^ 30 - 4"
    using L(3) by (force simp: word_less_nat_alt intro: less_trans)
  then show ?thesis
    using reliable_delivered [OF sample_ok(1) L(1) sample_ok(2), of "[5]" "[6]" "[7]" "[]" True] L(2) by auto
qed

section \<open>One packet\<close>

text \<open>
  C4. What is sent is what is read: the datagram \<^verbatim>\<open>Netchan_Transmit\<close> hands to the socket is queued by
  the peer as one packet and accepted by its \<^verbatim>\<open>Netchan_Process\<close>, which leaves its reader at the
  unscrambled payload: the reliable data if the packet carries any (the receiver's reliable bit tells),
  the unreliable data, and ones up to eight bytes. The receiver has the sender's sequence number and the
  sender's acknowledgement.
\<close>

theorem packet_arrives:
  assumes a: "quiet a" "line_ok a na" "env_ok env" "length data \<le> 192" "unat (nc_out_seq a) < 2 ^ 30 - 1"
    and b: "quiet b" "line_ok b nb" "buffer_ok nb" and newer: "nc_in_seq b < nc_out_seq a"
  shows "\<exists>a' bs n' s'. Netchan_Transmit env data (a, na) = Inr (a', na\<lparr>nt_sent := nt_sent na @ [(nc_socket a, remote_addr a, bs)]\<rparr>) \<and>
    NET_QueuePacket (\<lambda>_. False) False (nc_socket b) [Received bs (remote_addr b)] nb = Inr (True, [], n') \<and>
    Netchan_Process env' \<lparr>ns_chan = b, ns_net = n', ns_drop = 0, ns_texts = []\<rparr> = Inr (True, s') \<and>
    unread (nt_message (ns_net s')) = pad_body ((if nc_in_rel_seq (ns_chan s') \<noteq> nc_in_rel_seq b
      then take (unat (nc_rel_len a')) (nc_rel_buf a') else []) @ data) \<and>
    nc_in_seq (ns_chan s') = nc_out_seq a \<and> nc_in_ack (ns_chan s') = nc_in_seq a"
proof -
  define p where "p = packet_of data (ep_of a)"
  have p: "packet_ok p"
    using packet_of_ok [OF a(1,4)] a(5) by (simp add: p_def)
  obtain a' where a': "Netchan_Transmit env data (a, na) = Inr (a', na\<lparr>nt_sent := nt_sent na @ [(nc_socket a, remote_addr a, wire_of p)]\<rparr>)"
      "ep_of a' = after_send (ep_of a)"
    unfolding p_def by (rule transmit_refines [OF a(1,3,2,4,5)])
  obtain n' where n': "NET_QueuePacket (\<lambda>_. False) False (nc_socket b) [Received (wire_of p) (remote_addr b)] nb = Inr (True, [], n')"
      "holds_packet p n'" "NET_CompareAdr (nc_remote b) (nt_from n')"
    using arrival [OF p b(3,2)] by blast
  let ?s = "\<lparr>ns_chan = b, ns_net = n', ns_drop = 0, ns_texts = []\<rparr>"
  have new: "(e_in (ep_of b) < p_seq p) = True"
    using newer by (simp add: p_def word_less_nat_alt)
  obtain s' m' where s': "Netchan_Process env' ?s = Inr (True, s')" "quiet (ns_chan s')" "ep_of (ns_chan s') = after_receive p (ep_of b)"
      "ns_net s' = n'\<lparr>nt_message := m'\<rparr>" "unread m' = p_body p"
    by (rule process_refines [of ?s p env', unfolded netstate.simps new if_True, OF b(1) p n'(2,3)])
  have flip: "nc_in_rel_seq (ns_chan s') \<noteq> nc_in_rel_seq b \<longleftrightarrow> p_rel p"
    using quiet_bits(2) [OF b(1)] quiet_bits(2) [OF s'(2)] s'(3) by auto
  have "e_pend (ep_of a') = e_pend (load (ep_of a))"
    using a'(2) by simp
  then have "unread m' = pad_body ((if nc_in_rel_seq (ns_chan s') \<noteq> nc_in_rel_seq b
      then take (unat (nc_rel_len a')) (nc_rel_buf a') else []) @ data)"
    unfolding flip s'(5) by (simp add: p_def packet_of_def)
  moreover have "nc_in_seq (ns_chan s') = nc_out_seq a" "nc_in_ack (ns_chan s') = nc_in_seq a"
    using arg_cong [OF s'(3), of e_in] arg_cong [OF s'(3), of e_ack] by (simp_all add: p_def word_unat_eq_iff)
  ultimately show ?thesis
    using a'(1) n'(1) s'(1,4) by (intro exI conjI) simp_all
qed

theorem packet_arrives_witness:
  "\<exists>a' n' s' bs. Netchan_Transmit sample_env [9] (lk_chan (link_start sample_adr) True, empty_net) =
       Inr (a', empty_net\<lparr>nt_sent := [(1, remote_addr (lk_chan (link_start sample_adr) True), bs)]\<rparr>) \<and>
     Netchan_Process sample_env \<lparr>ns_chan = lk_chan (link_start sample_adr) False, ns_net = n', ns_drop = 0, ns_texts = []\<rparr> = Inr (True, s') \<and>
     nc_in_seq (ns_chan s') = 1"
proof -
  let ?a = "lk_chan (link_start sample_adr) True" and ?b = "lk_chan (link_start sample_adr) False"
  have net: "lk_net (link_start sample_adr) s = empty_net" for s
    by (simp add: link_start_def)
  have "sim (link_start sample_adr) sys_start"
    using sample_ok(1) sim_start by (simp add: at_ip_def)
  then have ok: "quiet ?a" "line_ok ?a empty_net" "quiet ?b" "line_ok ?b empty_net" "buffer_ok empty_net"
    by (simp_all add: sim_def end_ok_def net)
  have seq: "nc_out_seq ?a = 1" "nc_in_seq ?b = 0" "nc_socket ?a = 1" "nt_sent empty_net = []"
    unfolding link_start_def Setup_fresh by (simp_all add: zero_netchan_def empty_net_def)
  have fresh: "length [9 :: u8] \<le> 192" "unat (nc_out_seq ?a) < 2 ^ 30 - 1" "nc_in_seq ?b < nc_out_seq ?a"
    unfolding seq by simp_all
  show ?thesis
    using packet_arrives [OF ok(1,2) sample_ok(2) fresh(1,2) ok(3-5) fresh(3), of sample_env] unfolding seq append.simps by blast
qed

section \<open>Any packet\<close>

lemma completion_keeps:
  assumes "Netchan_CheckForCompletion b i expected s = Inr s'"
  shows "nc_in_seq (ns_chan s') = nc_in_seq (ns_chan s)"
  using assms by (auto simp: Netchan_CheckForCompletion_def Let_def outcome_simps split: if_splits)

lemma put_fragment_keeps:
  assumes "put_fragment b i ID src len s = Inr (r, s')"
  shows "nc_in_seq (ns_chan s') = nc_in_seq (ns_chan s)"
  using assms unfolding put_fragment_def
  by (auto simp: Let_def outcome_simps split: prod.splits option.splits if_splits dest!: completion_keeps)

lemma take_fragment_keeps:
  assumes "take_fragment env i (hs, s) = Inr (go, hs', s')"
  shows "nc_in_seq (ns_chan s') = nc_in_seq (ns_chan s)"
  using assms unfolding take_fragment_def store_fragment_def cut_fragment_def
  by (auto simp: Let_def outcome_simps split: if_splits dest!: put_fragment_keeps)

lemma take_fragments_keeps:
  assumes "take_fragments env hs s = Inr (r, s')"
  shows "nc_in_seq (ns_chan s') = nc_in_seq (ns_chan s)"
  using assms unfolding take_fragments_def
  by (auto simp: outcome_simps split: prod.splits if_splits dest!: take_fragment_keeps)

lemma accept_packet_seq: "nc_in_seq (ns_chan (accept_packet env sequence ack reliable confirm s)) = sequence"
proof -
  have "nc_in_seq (Netchan_UpdateFlow t (flow_record t' i sz c)) = nc_in_seq c" for t t' i sz c
    using UpdateFlow_only [of t t' i sz c] by auto
  then show ?thesis
    by (simp add: accept_packet_def Let_def)
qed

lemma unmunge_chan: "unmunge_packet z s = Inr s' \<Longrightarrow> ns_chan s' = ns_chan s"
  by (auto simp: unmunge_packet_def Let_def outcome_simps)

lemma headers_chan: "read_headers s = Inr (hs, s') \<Longrightarrow> ns_chan s' = ns_chan s"
  by (auto simp: read_headers_def outcome_simps)

text \<open>What holds of every result of a computation that does not fail.\<close>

definition after :: "'a outcome \<Rightarrow> ('a \<Rightarrow> bool) \<Rightarrow> bool" where
  "after m P \<longleftrightarrow> (\<forall>x. m = Inr x \<longrightarrow> P x)"

lemma after_Inr [intro]: "P x \<Longrightarrow> after (Inr x) P"
  by (simp add: after_def)

lemma after_bind [intro]: "(\<And>x. m = Inr x \<Longrightarrow> after (f x) P) \<Longrightarrow> after (bindE m f) P"
  by (auto simp: after_def outcome_simps)

lemma after_if [intro]: "(b \<Longrightarrow> after m P) \<Longrightarrow> (\<not> b \<Longrightarrow> after m' P) \<Longrightarrow> after (if b then m else m') P"
  by simp

definition refused_or_newer :: "netchan \<Rightarrow> bool \<times> netstate \<Rightarrow> bool" where
  "refused_or_newer c x \<longleftrightarrow> (case x of (ok, s) \<Rightarrow>
     nc_in_seq c < nc_in_seq (ns_chan s) \<or> (\<not> ok \<and> (\<exists>t. ns_chan s = c\<lparr>nc_last_received := t\<rparr>)))"

lemma taken_is_newer:
  assumes "ns_chan s = c\<lparr>nc_last_received := t\<rparr>"
  shows "after (if nc_in_seq (ns_chan s) \<ge> sequence then Inr (False, s)
      else take_fragments env hs (accept_packet env sequence ack reliable confirm s)) (refused_or_newer c)"
    "after (if nc_in_seq (ns_chan s) \<ge> sequence then Inr (False, s)
      else Inr (True, accept_packet env sequence ack reliable confirm s)) (refused_or_newer c)"
proof -
  have "nc_in_seq (ns_chan s) = nc_in_seq c"
    by (simp add: assms)
  then show "after (if nc_in_seq (ns_chan s) \<ge> sequence then Inr (False, s)
      else take_fragments env hs (accept_packet env sequence ack reliable confirm s)) (refused_or_newer c)"
    "after (if nc_in_seq (ns_chan s) \<ge> sequence then Inr (False, s)
      else Inr (True, accept_packet env sequence ack reliable confirm s)) (refused_or_newer c)"
    using assms
    by (auto simp: after_def refused_or_newer_def not_le accept_packet_seq dest!: take_fragments_keeps)
qed

lemma process_taken: "after (Netchan_Process env s) (refused_or_newer (ns_chan s))"
proof -
  let ?P = "refused_or_newer (ns_chan s)" and ?c = "(ns_chan s)\<lparr>nc_last_received := ne_realtime env\<rparr>"
  have keep: "?P (False, s')" if "ns_chan s' = (ns_chan s)\<lparr>nc_last_received := t\<rparr>" for s' t
    using that by (auto simp: refused_or_newer_def)
  have first: "?P (False, s)"
    by (rule keep [of s "nc_last_received (ns_chan s)"]) simp
  show ?thesis
    unfolding Netchan_Process_def Let_def
    apply (rule after_if)
     apply (rule after_Inr, rule first)
    apply (rule after_bind, simp only: split_paired_all prod.case)
    apply (rule after_bind, simp only: split_paired_all prod.case)
    apply (rule after_if)
     apply (rule after_Inr, rule keep [of _ "ne_realtime env"], simp)
    apply (rule after_bind)
    apply (drule unmunge_chan)
    apply (rule after_if)
     apply (rule after_bind, simp only: split_paired_all prod.case)
     apply (drule headers_chan)
     apply (rule after_if)
      apply (rule after_Inr, rule keep [of _ "ne_realtime env"], simp)
     apply (rule taken_is_newer(1) [where t = "ne_realtime env"], simp)
    apply (rule taken_is_newer(2) [where t = "ne_realtime env"], simp)
    done
qed

text \<open>
  C5. No packet is taken twice or out of order: whatever bytes arrive, from whomever, with whatever
  fragments and settings, a packet \<^verbatim>\<open>Netchan_Process\<close> returns from either raises the channel's incoming
  sequence number or is refused and changes nothing in the channel but the time of the last packet.
\<close>

theorem process_only_newer:
  assumes "Netchan_Process env s = Inr (ok, s')"
  shows "nc_in_seq (ns_chan s) < nc_in_seq (ns_chan s') \<or>
    (\<not> ok \<and> (\<exists>t. ns_chan s' = (ns_chan s)\<lparr>nc_last_received := t\<rparr>))"
  using process_taken [of env s] assms by (simp add: after_def refused_or_newer_def)

theorem process_only_newer_witness:
  "\<exists>s'. Netchan_Process sample_env sample_state = Inr (False, s') \<and>
     (\<exists>t. ns_chan s' = zero_netchan\<lparr>nc_last_received := t\<rparr>)"
proof -
  let ?s = "sample_state\<lparr>ns_chan := zero_netchan\<lparr>nc_last_received := 10\<rparr>, ns_net := empty_net
    \<lparr>nt_message := (nt_message empty_net)\<lparr>nm_badread := True\<rparr>\<rparr>\<rparr>"
  have run: "Netchan_Process sample_env sample_state = Inr (False, ?s)"
    by (simp add: Netchan_Process_def sample_env_def sample_state_def zero_netchan_def empty_net_def NET_CompareAdr_def
        no_adr_def MSG_ReadLong_def MSG_BeginReading_def Let_def)
  have "ns_chan sample_state = zero_netchan" "nc_in_seq (ns_chan ?s) = nc_in_seq zero_netchan"
    by (simp_all add: sample_state_def)
  then show ?thesis
    using process_only_newer [OF run] run by (intro exI [of _ ?s]) simp
qed

end
