(* ===== verification/Malformed.thy ===== *)
theory Malformed
  imports Link
begin

text \<open>
  Packets with fragment headers as bytes, and what two of them do to a receiver although
  \<^verbatim>\<open>Netchan_Validate\<close> lets them pass.
\<close>

section \<open>Headers on the wire\<close>

definition header_ok :: "fraghdr \<Rightarrow> bool" where
  "header_ok h \<longleftrightarrow> fr_used h \<and> unat (fr_off h) < 2 ^ 15 \<and> unat (fr_len h) < 2 ^ 15"

definition header_bytes :: "fraghdr \<Rightarrow> u8 list" where
  "header_bytes h = 1 # bytes32 (fr_id h) @ bytes16 (ucast (fr_off h)) @ bytes16 (ucast (fr_len h))"

lemma length_header_bytes [simp]: "length (header_bytes h) = 9"
  by (simp add: header_bytes_def)

lemma scast_ucast_small: "unat (w :: u32) < 2 ^ 15 \<Longrightarrow> (scast (ucast w :: u16) :: u32) = w"
proof (rule bit_word_eqI)
  fix n assume w: "unat w < 2 ^ 15" and n: "n < LENGTH(32)"
  have "take_bit 15 w = w"
    using w by (simp add: word_unat_eq_iff unsigned_take_bit_eq take_bit_nat_eq_self)
  then have high: "\<not> bit w i" if "15 \<le> i" for i
    using that by (metis bit_take_bit_iff not_less)
  show "bit (scast (ucast w :: u16) :: u32) n = bit w n"
    using n high [of n] high [of 15] by (auto simp: bit_simps not_less min_def)
qed

lemma read_header_back:
  assumes wf: "nm_wf m" and h: "header_ok h" and un: "unread m = header_bytes h @ rest"
  shows "read_frag_header m = Inr (h, advance 9 m)" "nm_wf (advance 9 m)" "unread (advance 9 m) = rest"
proof -
  have b: "MSG_ReadByte m = Inr (1, advance 1 m)"
    using MSG_ReadChar_wf [OF wf] un by (simp add: MSG_ReadByte_Char header_bytes_def)
  have k: "k \<le> 9 \<Longrightarrow> nm_wf (advance k m) \<and> unread (advance k m) = drop k (header_bytes h) @ rest" for k
    using advance_wf [OF wf, of k] advance_unread [OF wf, of k] un by simp
  have l: "MSG_ReadLong (advance 1 m) = Inr (fr_id h, advance 5 m)"
    using MSG_ReadLong_wf [of "advance 1 m"] k [of 1] by (simp add: header_bytes_def)
  have s: "MSG_ReadShort (advance 5 m) = Inr (fr_off h, advance 7 m)"
    using MSG_ReadShort_wf [of "advance 5 m"] k [of 5] h by (simp add: header_bytes_def header_ok_def scast_ucast_small)
  have n: "MSG_ReadShort (advance 7 m) = Inr (fr_len h, advance 9 m)"
    using MSG_ReadShort_wf [of "advance 7 m"] k [of 7] h by (simp add: header_bytes_def header_ok_def scast_ucast_small)
  show "read_frag_header m = Inr (h, advance 9 m)"
    using b l s n h by (cases h) (simp add: read_frag_header_def header_ok_def)
  show "nm_wf (advance 9 m)" "unread (advance 9 m) = rest"
    using k [of 9] by simp_all
qed

text \<open>An unreliable datagram with two fragment headers and the bytes behind them.\<close>

definition frag_packet :: "nat \<Rightarrow> nat \<Rightarrow> fraghdr \<Rightarrow> fraghdr \<Rightarrow> u8 list \<Rightarrow> u8 list" where
  "frag_packet sq ack h0 h1 rest =
     bytes32 (of_nat sq OR 0x40000000) @ bytes32 (of_nat ack) @ munged (of_nat sq AND 0xFF) (header_bytes h0 @ header_bytes h1 @ rest)"

definition two_headers :: "fraghdr \<Rightarrow> fraghdr \<Rightarrow> nat \<Rightarrow> fraghdr" where
  "two_headers h0 h1 = (\<lambda>i. if i = 0 then h0 else h1)"

lemma frag_flags:
  assumes "n < 2 ^ 30"
  shows "(of_nat n OR 0x40000000) AND 0x80000000 = (0 :: u32)" "(of_nat n OR 0x40000000) AND 0x40000000 = (0x40000000 :: u32)"
    "(of_nat n OR 0x40000000) AND 0x3FFFFFFF = (of_nat n :: u32)"
proof -
  note bits = flag_masks bit_and_iff bit_or_iff
  have "bit ((of_nat n OR 0x40000000) AND 0x80000000 :: u32) i = bit (0 :: u32) i"
      "bit ((of_nat n OR 0x40000000) AND 0x40000000 :: u32) i = bit (0x40000000 :: u32) i"
      "bit ((of_nat n OR 0x40000000) AND 0x3FFFFFFF :: u32) i = bit (of_nat n :: u32) i" if "i < 32" for i
    using seq_bits [OF assms, of i] unfolding bits by auto
  then show "(of_nat n OR 0x40000000) AND 0x80000000 = (0 :: u32)" "(of_nat n OR 0x40000000) AND 0x40000000 = (0x40000000 :: u32)"
    "(of_nat n OR 0x40000000) AND 0x3FFFFFFF = (of_nat n :: u32)"
    by (intro bit_word_eqI; simp)+
qed

lemma ack_flags:
  assumes "n < 2 ^ 30"
  shows "of_nat n AND 0x40000000 = (0 :: u32)" "of_nat n AND 0x3FFFFFFF = (of_nat n :: u32)"
  using flagged_parts(2,3) [OF assms, of False] by (simp_all add: flagged_def)

text \<open>The packet has been queued: it comes from the peer, is newer, and its bytes are in the message buffer.\<close>

definition holds_frags :: "nat \<Rightarrow> nat \<Rightarrow> fraghdr \<Rightarrow> fraghdr \<Rightarrow> u8 list \<Rightarrow> netstate \<Rightarrow> bool" where
  "holds_frags sq ack h0 h1 rest s \<longleftrightarrow>
     NET_CompareAdr (nc_remote (ns_chan s)) (nt_from (ns_net s)) \<and>
     sz_wf (nt_buf (ns_net s)) \<and> unat (sb_maxsize (nt_buf (ns_net s))) < 2 ^ 31 \<and>
     sz_contents (nt_buf (ns_net s)) = frag_packet sq ack h0 h1 rest \<and> length rest \<le> 1374 \<and>
     sq < 2 ^ 30 \<and> ack < 2 ^ 30 \<and> unat (nc_in_seq (ns_chan s)) < sq \<and> header_ok h0 \<and> header_ok h1"

lemma process_fragments:
  assumes held: "holds_frags sq ack h0 h1 rest s" and valid: "Netchan_Validate (two_headers h0 h1)"
  obtains s1 where "Netchan_Process env s = take_fragments env (two_headers h0 h1) s1"
    "nm_wf (nt_message (ns_net s1))" "unread (nt_message (ns_net s1)) = rest" "unat (nm_readcount (nt_message (ns_net s1))) = 26"
    "nc_incoming (ns_chan s1) = nc_incoming (ns_chan s)"
proof -
  note held = held [unfolded holds_frags_def]
  let ?w0 = "of_nat sq OR 0x40000000 :: u32" and ?w1 = "of_nat ack :: u32" and ?body = "header_bytes h0 @ header_bytes h1 @ rest"
  have f: "sq < 2 ^ 30" "ack < 2 ^ 30"
    using held by simp_all
  note w0 = frag_flags [OF f(1)] and w1 = ack_flags [OF f(2)]
  obtain s3 m' where s3: "Netchan_Process env s = bindE (read_headers s3) (\<lambda>(hs, s).
           if \<not> Netchan_Validate hs then Inr (False, s)
           else if nc_in_seq (ns_chan s) \<ge> of_nat sq then Inr (False, s)
           else take_fragments env hs (accept_packet env (of_nat sq) (?w1 AND 0x3FFFFFFF) (?w0 AND 0x80000000 \<noteq> 0) (?w1 AND 0x80000000 \<noteq> 0) s))"
      and c3: "ns_chan s3 = (ns_chan s)\<lparr>nc_last_received := ne_realtime env\<rparr>" "ns_net s3 = (ns_net s)\<lparr>nt_message := m'\<rparr>"
      and m': "nm_wf m'" "unread m' = ?body" "unat (nm_readcount m') = 8"
  proof (rule process_start [of s ?w0 ?w1 "of_nat sq" ?body env, OF _ _ _ _ _ w1(1) w0(3)])
    show "sz_contents (nt_buf (ns_net s)) = bytes32 ?w0 @ bytes32 ?w1 @ munged (of_nat sq AND 0xFF) ?body"
      using held by (simp add: frag_packet_def)
  qed (use held w0(2) in auto)
  note h0 = read_header_back [OF m'(1) _ m'(2)]
  note h1 = read_header_back [OF h0(2) _ h0(3)]
  let ?s = "s3\<lparr>ns_net := (ns_net s3)\<lparr>nt_message := advance 18 m'\<rparr>\<rparr>"
  have hdrs: "read_headers s3 = Inr (two_headers h0 h1, ?s)"
    using h0 h1(1) held by (simp add: read_headers_def c3 two_headers_def)
  have "\<not> nc_in_seq (ns_chan ?s) \<ge> of_nat sq"
    using held by (simp add: c3 word_le_nat_alt unat_of_nat_u32)
  then have proc: "Netchan_Process env s = take_fragments env (two_headers h0 h1)
      (accept_packet env (of_nat sq) (?w1 AND 0x3FFFFFFF) (?w0 AND 0x80000000 \<noteq> 0) (?w1 AND 0x80000000 \<noteq> 0) ?s)"
    unfolding s3 hdrs by (simp add: valid)
  have acc: "ns_net (accept_packet env a b r c ?s) = ns_net ?s" "nc_incoming (ns_chan (accept_packet env a b r c ?s)) = nc_incoming (ns_chan s)" for a b r c
  proof -
    show "ns_net (accept_packet env a b r c ?s) = ns_net ?s"
      by (simp add: accept_packet_def Let_def)
    have "nc_incoming (Netchan_UpdateFlow t (flow_record t' i sz ch)) = nc_incoming ch" for t t' i sz ch
      using UpdateFlow_only [of t t' i sz ch] by auto
    then show "nc_incoming (ns_chan (accept_packet env a b r c ?s)) = nc_incoming (ns_chan s)"
      by (simp add: accept_packet_def Let_def c3)
  qed
  have "nm_wf (advance 18 m')" "unread (advance 18 m') = rest"
    using h1(2,3) held by simp_all
  moreover have "unat (nm_readcount (advance 18 m')) = 26"
    using advance_count(1) [OF m'(1), of 18] m'(2,3) by simp
  ultimately show thesis
    by (intro that [OF proc]) (simp_all only: acc, simp_all add: c3)
qed

section \<open>Lengths the buffers do not have\<close>

lemma find_in_empty: "Netchan_FindBufferById [] ID True = ([Netchan_AllocFragbuf\<lparr>fb_id := ID\<rparr>], Some 0)"
  by (simp add: Netchan_FindBufferById_def Let_def)

lemma fragment_too_long: "1400 < unat len \<Longrightarrow> SZ_Write (SZ_Clear (fb_buf Netchan_AllocFragbuf)) src len = Inl SysError"
  using SZ_GetSpace_too_big [of "fb_buf Netchan_AllocFragbuf" "unat len"] unat_u32_lt [of len]
  by (simp add: SZ_Clear_fresh SZ_Write_def) (simp add: Netchan_AllocFragbuf_def)

text \<open>
  C22. A fragment may say it is longer than a fragment buffer: \<^verbatim>\<open>Netchan_Validate\<close> allows 2048 bytes, the
  buffer holds 1400. On a channel with no message fragments pending, a packet of any valid length
  whose first header names a length from 1401 to 2048 ends the receiving process, whatever bytes follow.
\<close>

theorem long_fragment_fatal:
  assumes "holds_frags sq ack h0 h1 rest s" "Netchan_Validate (two_headers h0 h1)"
    and "nc_incoming (ns_chan s) 0 = []" and "fr_id h0 \<noteq> 0" "1400 < unat (fr_len h0)"
  shows "Netchan_Process env s = Inl SysError"
proof -
  obtain s1 where s1: "Netchan_Process env s = take_fragments env (two_headers h0 h1) s1" "nc_incoming (ns_chan s1) 0 = []"
    by (rule process_fragments [OF assms(1,2), of env]) (simp add: assms(3))
  have used: "fr_used h0"
    using assms(1) by (simp add: holds_frags_def header_ok_def)
  have "store_fragment env 0 h0 s1 = Inl SysError"
    using assms(4) s1(2) fragment_too_long [OF assms(5)]
    by (simp add: store_fragment_def put_fragment_def find_in_empty Let_def)
  then show ?thesis
    unfolding s1(1) by (simp add: take_fragments_def take_fragment_def two_headers_def used)
qed

text \<open>A channel just set up that has been sent such a packet.\<close>

definition attacked :: "fraghdr \<Rightarrow> fraghdr \<Rightarrow> u8 list \<Rightarrow> netstate" where
  "attacked h0 h1 rest = sample_state\<lparr>ns_net := set_buf (\<lambda>b. b\<lparr>sb_data := frag_packet 1 0 h0 h1 rest @ replicate 0x10000 0,
     sb_cursize := of_nat (26 + length rest)\<rparr>) empty_net\<rparr>"

lemma attacked:
  assumes "header_ok h0" "header_ok h1" "length rest \<le> 1374"
  shows "holds_frags 1 0 h0 h1 rest (attacked h0 h1 rest)" "nc_incoming (ns_chan (attacked h0 h1 rest)) i = []"
proof -
  have "length (frag_packet 1 0 h0 h1 rest) = 26 + length rest"
    using munged(1) [of "header_bytes h0 @ header_bytes h1 @ rest"] assms(3) by (simp add: frag_packet_def)
  moreover from this have "unat (of_nat (26 + length rest) :: u32) = 26 + length rest"
    using assms(3) by (intro unat_of_nat_u32) simp
  ultimately show "holds_frags 1 0 h0 h1 rest (attacked h0 h1 rest)" "nc_incoming (ns_chan (attacked h0 h1 rest)) i = []"
    using assms by (simp_all add: holds_frags_def attacked_def sample_state_def zero_netchan_def empty_net_def
        NET_CompareAdr_def no_adr_def sz_wf_nat sz_contents_def del: of_nat_add)
qed

definition sample_header :: "u32 \<Rightarrow> fraghdr" where
  "sample_header len = \<lparr>fr_used = True, fr_id = 0x00010002, fr_off = 0, fr_len = len\<rparr>"

theorem long_fragment_fatal_witness:
  "\<exists>s. nc_incoming (ns_chan s) 0 = [] \<and> length (sz_contents (nt_buf (ns_net s))) = 26 \<and> (\<forall>env. Netchan_Process env s = Inl SysError)"
proof -
  let ?h0 = "sample_header 1401" and ?h1 = "sample_header 0" and ?s = "attacked (sample_header 1401) (sample_header 0) []"
  have h: "header_ok ?h0" "header_ok ?h1"
    by (simp_all add: header_ok_def sample_header_def)
  have "Netchan_Validate (two_headers ?h0 ?h1)"
    by (simp add: Netchan_Validate_def two_headers_def sample_header_def)
  moreover have "fr_id ?h0 \<noteq> 0" "1400 < unat (fr_len ?h0)"
    by (simp_all add: sample_header_def)
  ultimately have fatal: "Netchan_Process env ?s = Inl SysError" for env
    using long_fragment_fatal [of 1 0 ?h0 ?h1 "[]" ?s env] attacked [OF h, of "[]"] by simp
  have "length (sz_contents (nt_buf (ns_net ?s))) = 26"
    using attacked(1) [OF h, of "[]"] munged(1) [of "header_bytes ?h0 @ header_bytes ?h1 @ []"]
    by (simp add: holds_frags_def frag_packet_def)
  with fatal attacked(2) [OF h, of "[]" 0] show ?thesis
    by (intro exI [of _ ?s]) simp
qed

lemma move_bytes_ok:
  "0 \<le> dst \<Longrightarrow> dst \<le> src \<Longrightarrow> nat src + n \<le> length data \<Longrightarrow> \<exists>d. move_bytes n src dst data = Inr d"
proof (induction n arbitrary: src dst data)
  case (Suc n)
  have "\<exists>bs. peek (nat src) 1 data = Inr bs \<and> length bs = 1"
    using Suc.prems by (simp add: peek_def)
  then obtain bs where bs: "peek (nat src) 1 data = Inr bs" "length bs = 1"
    by blast
  obtain d where d: "poke (nat dst) bs data = Inr d"
  proof -
    have "nat dst + length bs \<le> length data"
      using Suc.prems bs(2) by simp
    then show ?thesis
      using poke_total that by blast
  qed
  have "\<exists>d'. move_bytes n (src + 1) (dst + 1) d = Inr d'"
    using Suc.prems length_poke [OF d] by (intro Suc.IH) auto
  then show ?case
    using Suc.prems bs(1) d by simp
qed simp

text \<open>A first fragment that is taken: nothing else of the second stream or the reader changes.\<close>

lemma first_fragment_taken:
  assumes env: "\<not> ne_is_client env" and wf: "nm_wf (nt_message (ns_net s))" and inc: "nc_incoming (ns_chan s) 0 = []"
    and h: "fr_used h" "fr_id h \<noteq> 0" "fr_off h = 0" "unat (fr_len h) \<le> 1400" "unat (fr_len h) \<le> length (unread (nt_message (ns_net s)))"
    and hs: "hs 0 = h"
  obtains s' where "take_fragment env 0 (hs, s) = Inr (True, hs(1 := (hs 1)\<lparr>fr_off := fr_off (hs 1) - fr_len h\<rparr>), s')"
    "nc_incoming (ns_chan s') 1 = nc_incoming (ns_chan s) 1" "nm_readcount (nt_message (ns_net s')) = nm_readcount (nt_message (ns_net s))"
proof -
  let ?m = "nt_message (ns_net s)"
  define n where "n = unat (fr_len h)"
  define src where "src = drop (unat (nm_readcount ?m)) (sb_data (nm_buf ?m))"
  define x where "x = Netchan_AllocFragbuf\<lparr>fb_id := fr_id h, fb_buf := full_buf (take n src)\<rparr>"
  have le: "unat (nm_readcount ?m) + n \<le> unat (sb_cursize (nm_buf ?m))" "unat (sb_cursize (nm_buf ?m)) \<le> length (sb_data (nm_buf ?m))"
    using advance_count(2) [OF wf h(5)] wf by (simp_all add: n_def nm_wf_def sz_wf_nat)
  have "n \<le> length src"
    using le by (simp add: src_def)
  then have w: "SZ_Write (SZ_Clear (fb_buf Netchan_AllocFragbuf)) src (fr_len h) = Inr (full_buf (take n src))"
    using write_fresh [of "fb_buf Netchan_AllocFragbuf" n src] h(4) unfolding SZ_Clear_fresh n_def
    by (simp add: Netchan_AllocFragbuf_def)
  define s1 where "s1 = s\<lparr>ns_chan := (ns_chan s)\<lparr>nc_incoming := (nc_incoming (ns_chan s))(0 := [x])\<rparr>\<rparr>"
  obtain r where comp: "Netchan_CheckForCompletion False 0 (fr_id h AND 0xFFFF) s1 = Inr (s1\<lparr>ns_chan := (ns_chan s1)\<lparr>nc_ready := r\<rparr>\<rparr>)"
  proof (cases "Some (1 :: nat) = Some (unat (fr_id h AND 0xFFFF))")
    case True
    then show ?thesis
      using that [of "(nc_ready (ns_chan s1))(0 := True)"] by (simp add: Netchan_CheckForCompletion_def s1_def Let_def)
  next
    case False
    then show ?thesis
      using that [of "nc_ready (ns_chan s1)"] by (simp add: Netchan_CheckForCompletion_def s1_def Let_def)
  qed
  let ?s2 = "s1\<lparr>ns_chan := (ns_chan s1)\<lparr>nc_ready := r\<rparr>\<rparr>"
  have store: "store_fragment env 0 h s = Inr (True, ?s2)"
    using env h(2,3) inc w comp by (simp add: store_fragment_def put_fragment_def find_in_empty Let_def bytes_at_def
        src_def [symmetric] s1_def x_def full_buf_def)
  have s2: "ns_net ?s2 = ns_net s"
    by (simp add: s1_def)
  have count: "nat (sint (sb_cursize (nm_buf ?m) - fr_len h - fr_off h - nm_readcount ?m)) = unat (sb_cursize (nm_buf ?m)) - n - unat (nm_readcount ?m)"
  proof -
    have "unat (sb_cursize (nm_buf ?m) - fr_len h - fr_off h - nm_readcount ?m) = unat (sb_cursize (nm_buf ?m)) - n - unat (nm_readcount ?m)"
      using le by (simp add: h(3) unat_sub word_le_nat_alt n_def)
    moreover have "unat (sb_cursize (nm_buf ?m)) < 2 ^ 31"
      using wf by (simp add: nm_wf_def sz_wf_nat)
    ultimately show ?thesis
      by (simp add: sint_u32)
  qed
  have len: "sint (fr_len h) = int n"
    using h(4) by (simp add: n_def sint_u32)
  obtain d where d: "move_bytes (unat (sb_cursize (nm_buf ?m)) - n - unat (nm_readcount ?m)) (int (unat (nm_readcount ?m)) + int n)
      (int (unat (nm_readcount ?m))) (sb_data (nm_buf ?m)) = Inr d"
  proof -
    let ?k = "unat (sb_cursize (nm_buf ?m)) - n - unat (nm_readcount ?m)"
    have "nat (int (unat (nm_readcount ?m)) + int n) + ?k \<le> length (sb_data (nm_buf ?m))"
      unfolding nat_int_add using le by simp
    then show ?thesis
      using move_bytes_ok [of "int (unat (nm_readcount ?m))" "int (unat (nm_readcount ?m)) + int n" ?k] that by auto
  qed
  have cut: "cut_fragment h ?s2 = Inr (?s2\<lparr>ns_net := set_buf (\<lambda>b. b\<lparr>sb_data := d, sb_cursize := sb_cursize b - fr_len h\<rparr>) (ns_net s)\<rparr>)"
    using d count len by (simp add: cut_fragment_def Let_def s2 h(3))
  show thesis
    using that [of "?s2\<lparr>ns_net := set_buf (\<lambda>b. b\<lparr>sb_data := d, sb_cursize := sb_cursize b - fr_len h\<rparr>) (ns_net s)\<rparr>"]
      store cut h(1) hs by (simp add: take_fragment_def s1_def)
qed

lemma write_nothing: "0 < unat len \<Longrightarrow> unat len \<le> 1400 \<Longrightarrow> SZ_Write (fb_buf Netchan_AllocFragbuf) [] len = Inl OutOfBounds"
  using SZ_GetSpace_fits [of "fb_buf Netchan_AllocFragbuf" "unat len"]
  by (simp add: SZ_Write_def sz_wf_nat sz_room_def peek_def) (simp add: Netchan_AllocFragbuf_def sz_wf_nat sz_room_def peek_def)

text \<open>
  C23. Two fragments in one packet can make the receiver leave its buffer: taking the first fragment
  subtracts its length from the second one's offset, after the offsets were validated. A packet whose
  fragments both say offset 0, the first one longer than the 26 bytes before the data, makes a server read the
  second one from before the start of the packet.
\<close>

theorem second_fragment_out_of_bounds:
  assumes "holds_frags sq ack h0 h1 rest s" "Netchan_Validate (two_headers h0 h1)"
    and "nc_incoming (ns_chan s) 0 = []" "nc_incoming (ns_chan s) 1 = []" and "\<not> ne_is_client env"
    and "fr_id h0 \<noteq> 0" "fr_off h0 = 0" "26 < unat (fr_len h0)" "unat (fr_len h0) \<le> length rest"
    and "fr_id h1 \<noteq> 0" "fr_off h1 = 0" "0 < unat (fr_len h1)" "unat (fr_len h1) \<le> 1400"
  shows "Netchan_Process env s = Inl OutOfBounds"
proof -
  obtain s1 where s1: "Netchan_Process env s = take_fragments env (two_headers h0 h1) s1" "nm_wf (nt_message (ns_net s1))"
      "unread (nt_message (ns_net s1)) = rest" "unat (nm_readcount (nt_message (ns_net s1))) = 26" "nc_incoming (ns_chan s1) = nc_incoming (ns_chan s)"
    by (rule process_fragments [OF assms(1,2), of env])
  have h: "fr_used h0" "fr_used h1" "length rest \<le> 1374"
    using assms(1) by (simp_all add: holds_frags_def header_ok_def)
  have len0: "unat (fr_len h0) \<le> 1400" "two_headers h0 h1 0 = h0"
    using assms(9) h(3) by (simp_all add: two_headers_def)
  have inc0: "nc_incoming (ns_chan s1) 0 = []" and fits: "unat (fr_len h0) \<le> length (unread (nt_message (ns_net s1)))"
    using assms(3,9) s1(3,5) by simp_all
  let ?hs = "(two_headers h0 h1)(1 := (two_headers h0 h1 1)\<lparr>fr_off := fr_off (two_headers h0 h1 1) - fr_len h0\<rparr>)"
  obtain s2 where s2: "take_fragment env 0 (two_headers h0 h1, s1) = Inr (True, ?hs, s2)"
      "nc_incoming (ns_chan s2) 1 = nc_incoming (ns_chan s1) 1" "nm_readcount (nt_message (ns_net s2)) = nm_readcount (nt_message (ns_net s1))"
    by (rule first_fragment_taken [where hs = "two_headers h0 h1", OF assms(5) s1(2) inc0 h(1) assms(6,7) len0(1) fits len0(2)])
  have off: "fr_off (?hs 1) = - fr_len h0" "fr_used (?hs 1)" "fr_id (?hs 1) = fr_id h1" "fr_len (?hs 1) = fr_len h1"
    using assms(11) h(2) by (simp_all add: two_headers_def)
  have "sint (- fr_len h0) = - int (unat (fr_len h0))"
  proof -
    have "- fr_len h0 = of_int (- int (unat (fr_len h0)))"
      by simp
    then have "sint (- fr_len h0) = signed_take_bit 31 (- int (unat (fr_len h0)))"
      by (simp only: sint_sbintrunc') simp
    also have "\<dots> = - int (unat (fr_len h0))"
    proof (rule signed_take_bit_int_eq_self)
      have n: "int (unat (fr_len h0)) \<le> 1400"
        using len0(1) by linarith
      show "- (2 ^ 31) \<le> - int (unat (fr_len h0))"
        by (rule order_trans [of _ "- 1400"]) (use n in simp_all)
      show "- int (unat (fr_len h0)) < 2 ^ 31"
        by (rule le_less_trans [of _ 0]) simp_all
    qed
    finally show ?thesis .
  qed
  then have "int (unat (nm_readcount (nt_message (ns_net s2)))) + sint (- fr_len h0) < 0"
    unfolding s2(3) s1(4) using assms(8) by linarith
  then have neg: "bytes_at (int (unat (nm_readcount (nt_message (ns_net s2)))) + sint (- fr_len h0)) data = []" for data
    unfolding bytes_at_def by simp
  have "store_fragment env 1 (?hs 1) s2 = Inl OutOfBounds"
    using assms(4,10) s1(5) s2(2) write_nothing [OF assms(12,13)]
    unfolding store_fragment_def Let_def off neg
    by (simp add: put_fragment_def find_in_empty Let_def SZ_Clear_fresh)
  then have "take_fragment env 1 (?hs, s2) = Inl OutOfBounds"
    using off(2) by (simp add: take_fragment_def)
  then show ?thesis
    using s1(1) s2(1) by (simp add: take_fragments_def)
qed

theorem second_fragment_out_of_bounds_witness:
  "\<exists>s. nc_incoming (ns_chan s) = (\<lambda>_. []) \<and> length (sz_contents (nt_buf (ns_net s))) = 53 \<and> Netchan_Process sample_env s = Inl OutOfBounds"
proof -
  let ?h0 = "sample_header 27" and ?h1 = "sample_header 1" and ?rest = "replicate 27 (5 :: u8)"
  let ?s = "attacked ?h0 ?h1 ?rest"
  have h: "header_ok ?h0" "header_ok ?h1" "length ?rest \<le> 1374"
    by (simp_all add: header_ok_def sample_header_def)
  have "Netchan_Validate (two_headers ?h0 ?h1)"
    by (simp add: Netchan_Validate_def two_headers_def sample_header_def)
  then have fault: "Netchan_Process sample_env ?s = Inl OutOfBounds"
    using second_fragment_out_of_bounds [of 1 0 ?h0 ?h1 ?rest ?s sample_env] attacked [OF h]
    by (simp add: sample_header_def sample_env_def)
  have "length (sz_contents (nt_buf (ns_net ?s))) = 53"
    using attacked(1) [OF h] munged(1) [of "header_bytes ?h0 @ header_bytes ?h1 @ ?rest"]
    by (simp add: holds_frags_def frag_packet_def)
  with fault attacked(2) [OF h] show ?thesis
    by (intro exI [of _ ?s]) (simp add: fun_eq_iff)
qed

end
