(* ===== verification/RandomNumbers.thy ===== *)
theory RandomNumbers
  imports Complex_Main Prelude "HOL-Library.Signed_Division"
begin

text \<open>
  The random numbers of \<^verbatim>\<open>random.c\<close>. A \<^verbatim>\<open>long\<close> has 32 bits; where it is computed with as a signed number it
  is an \<open>int\<close>, and a result outside the type is \<open>Inl Undefined\<close>. The three static variables are the
  record \<open>rng\<close>. \<^verbatim>\<open>RandomLong\<close> repeats until a number is small enough: it is a partial function, \<open>None\<close>
  when the loop does not end.
\<close>

record rng =
  rn_idum :: int
  rn_iy :: int
  rn_iv :: "int list"

definition fresh_rng :: rng where
  "fresh_rng = \<lparr>rn_idum = 0, rn_iy = 0, rn_iv = replicate 0x20 0\<rparr>"

definition int32 :: "int \<Rightarrow> int outcome" where
  "int32 x = (if - (2 ^ 31) \<le> x \<and> x < 2 ^ 31 then Inr x else Inl Undefined)"

definition SeedRandomNumberGenerator :: "int \<Rightarrow> rng \<Rightarrow> rng outcome" where
  "SeedRandomNumberGenerator time r =
     (let idum = sint (of_int (- time) :: u32) in
      bindE (if idum > 1000 then int32 (- idum)
             else if idum > -1000 then int32 (idum - 0x153AD38)
             else Inr idum) (\<lambda>idum. Inr (r\<lparr>rn_idum := idum\<rparr>)))"

text \<open>One step: the quotient and the new \<^verbatim>\<open>idum\<close>.\<close>

definition lcg :: "int \<Rightarrow> (int \<times> int) outcome" where
  "lcg idum =
     (let temp = idum sdiv 0x1F31D in
      bindE (int32 (temp * 0x1F31D)) (\<lambda>a.
      bindE (int32 (idum - a)) (\<lambda>b.
      bindE (int32 (0x41A7 * b)) (\<lambda>c.
      bindE (int32 (0xB14 * temp)) (\<lambda>d.
      bindE (int32 (c - d)) (\<lambda>e. Inr (temp, if e < 0 then e + 0x7FFFFFFF else e)))))))"

text \<open>The warm-up: as written, it fills the table at the quotient and not at the loop counter.\<close>

fun warm_up :: "nat \<Rightarrow> int \<times> int list \<Rightarrow> (int \<times> int list) outcome" where
  "warm_up 0 s = Inr s"
| "warm_up (Suc i) (idum, iv) =
     bindE (lcg idum) (\<lambda>(temp, idum).
       if temp < 32 then
         (if temp < 0 then Inl OutOfBounds else bindE (poke (nat temp) [idum] iv) (\<lambda>iv. warm_up i (idum, iv)))
       else warm_up i (idum, iv))"

definition restart :: "rng \<Rightarrow> rng outcome" where
  "restart r =
     (if rn_idum r \<le> 0 \<or> rn_iy r = 0 then
        bindE (if rn_idum r < 0 then int32 (- rn_idum r) else Inr 1) (\<lambda>idum.
        bindE (warm_up 40 (idum, rn_iv r)) (\<lambda>(idum, iv).
        bindE (peek 0 1 iv) (\<lambda>iy. Inr \<lparr>rn_idum = idum, rn_iy = hd iy, rn_iv = iv\<rparr>)))
      else Inr r)"

definition ran1 :: "rng \<Rightarrow> (int \<times> rng) outcome" where
  "ran1 r =
     bindE (restart r) (\<lambda>r.
     bindE (lcg (rn_idum r)) (\<lambda>(_, idum).
       if rn_iy r < 0 then Inl OutOfBounds
       else let i = nat (drop_bit 0x1A (rn_iy r)) in
         bindE (peek i 1 (rn_iv r)) (\<lambda>iy.
         bindE (poke i [idum] (rn_iv r)) (\<lambda>iv.
           Inr (hd iy, \<lparr>rn_idum = idum, rn_iy = hd iy, rn_iv = iv\<rparr>)))))"

text \<open>The rounding of \<^verbatim>\<open>float\<close> is not modelled.\<close>

definition fran1 :: "rng \<Rightarrow> (real \<times> rng) outcome" where
  "fran1 r = bindE (ran1 r) (\<lambda>(k, r).
     let temp = 1 / 0x7FFFFFFF * of_int k in Inr (if temp > 0.99999988 then 0.99999988 else temp, r))"

partial_function (option) random_loop :: "u32 \<Rightarrow> rng \<Rightarrow> (u32 \<times> rng) run" where
  "random_loop highest r =
     (case ran1 r of
        Inl e \<Rightarrow> Some (Inl e)
      | Inr (k, r) \<Rightarrow> if (of_int k :: u32) > highest then random_loop highest r else Some (Inr (of_int k, r)))"

text \<open>The sum of the bounds is taken to wrap.\<close>

definition RandomLong :: "u32 \<Rightarrow> u32 \<Rightarrow> rng \<Rightarrow> (u32 \<times> rng) run" where
  "RandomLong low high r =
     (let RelativeMax = 1 + high - low in
      if RelativeMax = 0 \<or> RelativeMax - 1 > 0x7FFFFFFF then Some (Inr (low, r))
      else bindT (random_loop (0x7FFFFFFF - 0x80000000 mod RelativeMax) r) (\<lambda>(temp, r).
        Some (Inr (temp mod RelativeMax + low, r))))"

definition RandomFloat :: "real \<Rightarrow> real \<Rightarrow> rng \<Rightarrow> (real \<times> rng) outcome" where
  "RandomFloat low high r = bindE (fran1 r) (\<lambda>(f, r). Inr (f * (high - low) + low, r))"

section \<open>The generator is the minimal standard one\<close>

lemma lcg_value:
  assumes "0 \<le> x" "x < 2 ^ 31"
  shows "lcg x = Inr (x div 127773, (16807 * (x mod 127773) - 2836 * (x div 127773)) +
    (if 16807 * (x mod 127773) < 2836 * (x div 127773) then 2147483647 else 0))"
proof -
  define q m where "q = x div 127773" and "m = x mod 127773"
  have x: "x = q * 127773 + m" "0 \<le> m" "m < 127773" "0 \<le> q"
    using assms by (simp_all add: q_def m_def pos_imp_zdiv_nonneg_iff)
  have "x < 2147483648"
    using assms(2) by simp
  then have q: "q \<le> 16807"
    using x by linarith
  have d: "x sdiv 127773 = q"
    using assms(1) by (cases "x = 0") (simp_all add: q_def signed_divide_int_def)
  have "int32 (q * 127773) = Inr (q * 127773)" "int32 m = Inr m" "int32 (16807 * m) = Inr (16807 * m)"
      "int32 (2836 * q) = Inr (2836 * q)" "int32 (16807 * m - 2836 * q) = Inr (16807 * m - 2836 * q)"
    using x q \<open>x < 2147483648\<close> by (simp_all add: int32_def)
  moreover have "x - q * 127773 = m"
    using x by simp
  ultimately show ?thesis
    by (simp add: lcg_def d Let_def flip: q_def m_def)
qed

definition next_idum :: "int \<Rightarrow> int" where
  "next_idum x = snd (projr (lcg x))"

lemma lcg_next:
  assumes "0 \<le> x" "x \<le> 2147483647"
  shows "lcg x = Inr (x div 127773, next_idum x)" "next_idum x = 16807 * x mod 2147483647"
proof -
  define q m where "q = x div 127773" and "m = x mod 127773"
  have x: "x = q * 127773 + m" "0 \<le> m" "m < 127773" "0 \<le> q"
    using assms by (simp_all add: q_def m_def pos_imp_zdiv_nonneg_iff)
  then have q: "q \<le> 16807"
    using assms(2) by linarith
  let ?e = "16807 * m - 2836 * q"
  have val: "lcg x = Inr (q, ?e + (if ?e < 0 then 2147483647 else 0))"
    using lcg_value [of x] assms by (simp add: q_def m_def)
  then show "lcg x = Inr (x div 127773, next_idum x)"
    by (simp add: next_idum_def q_def)
  have "16807 * x = ?e + q * 2147483647"
    using x(1) by simp
  then have "16807 * x mod 2147483647 = ?e mod 2147483647"
    by (simp only: mod_mult_self1)
  also have "\<dots> = ?e + (if ?e < 0 then 2147483647 else 0)"
  proof (cases "?e < 0")
    case True
    have "?e mod 2147483647 = (?e + 2147483647) mod 2147483647"
      by simp
    also have "\<dots> = ?e + 2147483647"
      using x q True by (intro mod_pos_pos_trivial) linarith+
    finally show ?thesis
      using True by simp
  next
    case False
    then show ?thesis
      using x q by (simp add: mod_pos_pos_trivial)
  qed
  finally show "next_idum x = 16807 * x mod 2147483647"
    by (simp add: next_idum_def val)
qed

section \<open>What a call does\<close>

definition in_range :: "int \<Rightarrow> bool" where
  "in_range x \<longleftrightarrow> 0 \<le> x \<and> x < 2147483647"

definition rng_ok :: "rng \<Rightarrow> bool" where
  "rng_ok r \<longleftrightarrow> length (rn_iv r) = 32 \<and> (\<forall>v \<in> set (rn_iv r). in_range v) \<and> in_range (rn_iy r) \<and>
     - 2147483647 \<le> rn_idum r \<and> rn_idum r < 2147483647"

lemma next_idum_range: "0 \<le> x \<Longrightarrow> x \<le> 2147483647 \<Longrightarrow> in_range (next_idum x)"
  using lcg_next(2) [of x] by (simp add: in_range_def)

lemma poke_one: "i < length xs \<Longrightarrow> poke i [x] xs = Inr (xs[i := x])"
  by (simp add: poke_def upd_conv_take_nth_drop)

lemma peek_single: "i < length xs \<Longrightarrow> peek i 1 xs = Inr [xs ! i]"
  by (simp add: peek_def take_Suc_conv_app_nth hd_drop_conv_nth take_Suc)

lemma warm_up_ok:
  "0 \<le> x \<Longrightarrow> x \<le> 2147483647 \<Longrightarrow> length iv = 32 \<Longrightarrow> (\<forall>v \<in> set iv. in_range v) \<Longrightarrow>
    \<exists>x' iv'. warm_up n (x, iv) = Inr (x', iv') \<and> 0 \<le> x' \<and> x' \<le> 2147483647 \<and> (0 < n \<longrightarrow> in_range x') \<and>
      length iv' = 32 \<and> (\<forall>v \<in> set iv'. in_range v)"
proof (induction n arbitrary: x iv)
  case (Suc n)
  have nx: "in_range (next_idum x)"
    using next_idum_range Suc.prems(1,2) .
  then have n01: "0 \<le> next_idum x" "next_idum x \<le> 2147483647"
    by (simp_all add: in_range_def)
  define iv1 where "iv1 = (if x div 127773 < 32 then iv[nat (x div 127773) := next_idum x] else iv)"
  have iv1: "length iv1 = 32" "\<forall>v \<in> set iv1. in_range v"
    using Suc.prems(3,4) nx set_update_subset_insert [of iv "nat (x div 127773)" "next_idum x"] by (auto simp: iv1_def)
  have "\<not> x div 127773 < 0"
    using Suc.prems(1) by (simp add: pos_imp_zdiv_nonneg_iff not_less)
  then have "warm_up (Suc n) (x, iv) = warm_up n (next_idum x, iv1)"
    using Suc.prems lcg_next(1) [OF Suc.prems(1,2)] by (auto simp: iv1_def poke_one nat_less_iff)
  moreover obtain x' iv' where "warm_up n (next_idum x, iv1) = Inr (x', iv')" "0 \<le> x'" "x' \<le> 2147483647"
      "0 < n \<longrightarrow> in_range x'" "length iv' = 32" "\<forall>v \<in> set iv'. in_range v"
    using Suc.IH [OF n01 iv1] by blast
  moreover have "in_range x'" if "n = 0"
    using that calculation(2) nx by simp
  ultimately show ?case
    by (intro exI [of _ x'] exI [of _ iv']) (cases n; simp)
qed (auto simp: in_range_def)

lemma restart_ok:
  assumes "rng_ok r"
  obtains r' where "restart r = Inr r'" "rng_ok r'" "0 \<le> rn_idum r'"
    "0 < rn_idum r \<Longrightarrow> rn_iy r \<noteq> 0 \<Longrightarrow> r' = r"
proof (cases "rn_idum r \<le> 0 \<or> rn_iy r = 0")
  case True
  define x where "x = (if rn_idum r < 0 then - rn_idum r else 1)"
  have x: "0 \<le> x" "x \<le> 2147483647" "(if rn_idum r < 0 then int32 (- rn_idum r) else Inr 1) = Inr x"
    using assms by (auto simp: x_def rng_ok_def int32_def)
  obtain x' iv' where w: "warm_up 40 (x, rn_iv r) = Inr (x', iv')" "in_range x'" "length iv' = 32" "\<forall>v \<in> set iv'. in_range v"
    using warm_up_ok [OF x(1,2), of "rn_iv r" 40] assms by (auto simp: rng_ok_def)
  have "peek 0 1 iv' = Inr [iv' ! 0]" "iv' ! 0 \<in> set iv'"
    using w(3) by (simp_all add: peek_single del: One_nat_def)
  then have "restart r = Inr \<lparr>rn_idum = x', rn_iy = iv' ! 0, rn_iv = iv'\<rparr>"
    using True x(3) w(1) by (simp add: restart_def del: One_nat_def)
  moreover have "rng_ok \<lparr>rn_idum = x', rn_iy = iv' ! 0, rn_iv = iv'\<rparr>"
    using w(2-4) \<open>iv' ! 0 \<in> set iv'\<close> by (simp add: rng_ok_def in_range_def)
  ultimately show ?thesis
    using that [of "\<lparr>rn_idum = x', rn_iy = iv' ! 0, rn_iv = iv'\<rparr>"] True w(2) by (auto simp: in_range_def)
next
  case False
  then show ?thesis
    using that [of r] assms by (simp add: restart_def)
qed

definition slot :: "int \<Rightarrow> nat" where
  "slot iy = nat (iy div 2 ^ 26)"

lemma slot_less: "in_range iy \<Longrightarrow> slot iy < 32"
  by (simp add: in_range_def slot_def nat_less_iff) linarith

text \<open>The step after a possible restart.\<close>

lemma ran1_step:
  assumes "restart r = Inr r'" "rng_ok r'" "0 \<le> rn_idum r'"
  shows "ran1 r = Inr (rn_iv r' ! slot (rn_iy r'), \<lparr>rn_idum = next_idum (rn_idum r'), rn_iy = rn_iv r' ! slot (rn_iy r'),
      rn_iv = (rn_iv r')[slot (rn_iy r') := next_idum (rn_idum r')]\<rparr>)"
    "rng_ok \<lparr>rn_idum = next_idum (rn_idum r'), rn_iy = rn_iv r' ! slot (rn_iy r'),
      rn_iv = (rn_iv r')[slot (rn_iy r') := next_idum (rn_idum r')]\<rparr>"
    "in_range (rn_iv r' ! slot (rn_iy r'))"
proof -
  have ok: "length (rn_iv r') = 32" "\<forall>v \<in> set (rn_iv r'). in_range v" "in_range (rn_iy r')" "rn_idum r' \<le> 2147483647"
    using assms(2) by (auto simp: rng_ok_def)
  have s: "slot (rn_iy r') < length (rn_iv r')" "nat (drop_bit 26 (rn_iy r')) = slot (rn_iy r')"
    using slot_less [OF ok(3)] ok(1) by (simp_all add: slot_def drop_bit_eq_div)
  show "ran1 r = Inr (rn_iv r' ! slot (rn_iy r'), \<lparr>rn_idum = next_idum (rn_idum r'), rn_iy = rn_iv r' ! slot (rn_iy r'),
      rn_iv = (rn_iv r')[slot (rn_iy r') := next_idum (rn_idum r')]\<rparr>)"
    using assms(1) ok(3) s lcg_next(1) [OF assms(3) ok(4)] peek_single [OF s(1)]
    by (simp add: ran1_def poke_one in_range_def Let_def)
  have n: "in_range (next_idum (rn_idum r'))"
    using next_idum_range [OF assms(3) ok(4)] .
  show i: "in_range (rn_iv r' ! slot (rn_iy r'))"
    using ok(2) s(1) by simp
  show "rng_ok \<lparr>rn_idum = next_idum (rn_idum r'), rn_iy = rn_iv r' ! slot (rn_iy r'),
      rn_iv = (rn_iv r')[slot (rn_iy r') := next_idum (rn_idum r')]\<rparr>"
    using n i ok(1,2) set_update_subset_insert [of "rn_iv r'" "slot (rn_iy r')" "next_idum (rn_idum r')"]
    by (auto simp: rng_ok_def in_range_def)
qed

lemma ran1_ok:
  assumes "rng_ok r"
  obtains k r' where "ran1 r = Inr (k, r')" "in_range k" "rng_ok r'"
  using restart_ok [OF assms] ran1_step by metis

text \<open>
  The generator is the minimal standard one (16807 modulo \<open>2 ^ 31 - 1\<close>) with a shuffle table: no step
  leaves the range of a \<^verbatim>\<open>long\<close> or the table, the state stays in range, and once started a call replaces
  the table entry the last number selects and returns it.
\<close>

theorem ran1_minimal_standard:
  assumes "rng_ok r"
  shows "\<exists>k r'. ran1 r = Inr (k, r') \<and> 0 \<le> k \<and> k < 2147483647 \<and> rng_ok r' \<and>
    (0 < rn_idum r \<and> rn_iy r \<noteq> 0 \<longrightarrow>
       (let i = nat (rn_iy r div 2 ^ 26) in
        i < 32 \<and> k = rn_iv r ! i \<and> rn_idum r' = 16807 * rn_idum r mod 2147483647 \<and> rn_iy r' = k \<and>
        rn_iv r' = (rn_iv r)[i := rn_idum r']))"
proof -
  obtain r0 where r0: "restart r = Inr r0" "rng_ok r0" "0 \<le> rn_idum r0" "0 < rn_idum r \<Longrightarrow> rn_iy r \<noteq> 0 \<Longrightarrow> r0 = r"
    using restart_ok [OF assms] by blast
  note step = ran1_step [OF r0(1-3)]
  have idum: "next_idum (rn_idum r0) = 16807 * rn_idum r0 mod 2147483647"
    using r0(2,3) by (intro lcg_next(2)) (simp_all add: rng_ok_def)
  have s: "slot (rn_iy r0) < 32"
    using r0(2) slot_less by (simp add: rng_ok_def)
  have started: "next_idum (rn_idum r) = 16807 * rn_idum r mod 2147483647" if "0 < rn_idum r" "rn_iy r \<noteq> 0"
    using idum r0(4) [OF that] by simp
  show ?thesis
  proof (intro exI conjI)
    show "ran1 r = Inr (rn_iv r0 ! slot (rn_iy r0), \<lparr>rn_idum = next_idum (rn_idum r0), rn_iy = rn_iv r0 ! slot (rn_iy r0),
        rn_iv = (rn_iv r0)[slot (rn_iy r0) := next_idum (rn_idum r0)]\<rparr>)"
      by (rule step(1))
  qed (use step(2,3) r0(4) s started in \<open>auto simp: in_range_def slot_def Let_def\<close>)
qed

theorem ran1_minimal_standard_witness:
  "\<exists>k r'. ran1 \<lparr>rn_idum = 5, rn_iy = 2 ^ 26, rn_iv = [1, 7] @ replicate 30 0\<rparr> = Inr (k, r') \<and> k = 7 \<and> rn_idum r' = 84035"
  using ran1_minimal_standard [of "\<lparr>rn_idum = 5, rn_iy = 2 ^ 26, rn_iv = [1, 7] @ replicate 30 0\<rparr>"]
  by (auto simp: rng_ok_def in_range_def)

lemma of_int_range:
  assumes "in_range k"
  shows "unat (of_int k :: u32) = nat k" "(of_int k :: u32) \<le> 0x7FFFFFFE"
proof -
  show "unat (of_int k :: u32) = nat k"
    using assms by (simp add: in_range_def unsigned_of_int take_bit_int_eq_self)
  then show "(of_int k :: u32) \<le> 0x7FFFFFFE"
    using assms by (simp add: word_le_nat_alt in_range_def) linarith
qed

lemma random_loop_result:
  assumes "random_loop highest r = Some res" "rng_ok r"
  shows "\<exists>k r'. res = Inr (k, r') \<and> k \<le> highest \<and> rng_ok r'"
  using assms
proof (induction rule: random_loop.raw_induct [rotated, consumes 1, case_names step])
  case (step loop highest r res)
  obtain k r1 where k: "ran1 r = Inr (k, r1)" "rng_ok r1"
    using ran1_ok [OF step.prems] by blast
  show ?case
    using k step by (auto split: if_splits)
qed

lemma random_loop_all: "rng_ok r \<Longrightarrow> 0x7FFFFFFE \<le> highest \<Longrightarrow> \<exists>res. random_loop highest r = Some res"
proof -
  assume r: "rng_ok r" and h: "0x7FFFFFFE \<le> highest"
  obtain k r1 where k: "ran1 r = Inr (k, r1)" "in_range k"
    using ran1_ok [OF r] by blast
  have "\<not> (of_int k :: u32) > highest"
    using of_int_range(2) [OF k(2)] h by auto
  then show ?thesis
    by (subst random_loop.simps) (simp add: k(1))
qed

text \<open>The size of a signed range, and a number some way above its lower end.\<close>

lemma sint_of_int_u32: "- (2 ^ 31) \<le> x \<Longrightarrow> x < 2 ^ 31 \<Longrightarrow> sint (of_int x :: u32) = x"
  by (simp add: sint_sbintrunc' signed_take_bit_int_eq_self)

lemma range_size:
  assumes "sint low \<le> sint (high :: u32)"
  shows "int (unat (high - low)) = sint high - sint low"
proof -
  have "high - low = of_int (sint high - sint low)"
    by simp
  moreover have "sint high < 2 ^ 31" "- (2 ^ 31) \<le> sint low"
    using sint_range_size [of high] sint_range_size [of low] by (simp_all add: word_size)
  ultimately show ?thesis
    using assms by (simp add: unsigned_of_int take_bit_int_eq_self del: of_int_diff)
qed

lemma sint_above:
  fixes low t :: u32
  assumes "sint low + int (unat t) \<le> sint (high :: u32)"
  shows "sint (t + low) = sint low + int (unat t)"
proof -
  have "t + low = of_int (sint low + int (unat t))"
    by (simp add: add.commute)
  moreover have "sint high < 2 ^ 31" "- (2 ^ 31) \<le> sint low"
    using sint_range_size [of high] sint_range_size [of low] by (simp_all add: word_size)
  then have "- (2 ^ 31) \<le> sint low + int (unat t)" "sint low + int (unat t) < 2 ^ 31"
    using assms by linarith+
  ultimately show ?thesis
    using sint_of_int_u32 by presburger
qed

lemma RandomLong_result:
  assumes "RandomLong low high r = Some res" "rng_ok r" "sint low \<le> sint high"
  shows "\<exists>v r'. res = Inr (v, r') \<and> rng_ok r' \<and> sint low \<le> sint v \<and> sint v \<le> sint high"
proof (cases "(1 + high - low) = 0 \<or> (1 + high - low) - 1 > 0x7FFFFFFF")
  case True
  then show ?thesis
    using assms by (auto simp: RandomLong_def)
next
  case False
  have loop: "bindT (random_loop (0x7FFFFFFF - 0x80000000 mod (1 + high - low)) r) (\<lambda>(temp, r). Some (Inr (temp mod (1 + high - low) + low, r))) = Some res"
    using assms(1) False by (simp only: RandomLong_def Let_def if_False)
  then obtain res0 where res0: "random_loop (0x7FFFFFFF - 0x80000000 mod (1 + high - low)) r = Some res0"
    by (cases "random_loop (0x7FFFFFFF - 0x80000000 mod (1 + high - low)) r") auto
  obtain k r' where k: "res0 = Inr (k, r')" "rng_ok r'"
    using random_loop_result [OF res0 assms(2)] by blast
  then have res_k: "res = Inr (k mod (1 + high - low) + low, r')"
    using loop by (simp add: res0)
  define D where "D = unat (high - low)"
  have R: "(1 + high - low) = (high - low) + 1"
    by (simp add: algebra_simps)
  then have "unat (high - low) \<le> 0x7FFFFFFF"
    using False by (simp add: word_less_nat_alt)
  then have D: "unat (1 + high - low) = D + 1" "int D = sint high - sint low"
    using range_size [OF assms(3)] by (simp_all only: R D_def) (simp add: unat_u32_add)
  have "unat (k mod (1 + high - low)) \<le> D"
    by (simp only: unat_mod D(1)) (metis Suc_eq_plus1 less_Suc_eq_le mod_less_divisor zero_less_Suc)
  then have le: "sint low + int (unat (k mod (1 + high - low))) \<le> sint high"
    using D(2) by linarith
  have "sint (k mod (1 + high - low) + low) = sint low + int (unat (k mod (1 + high - low)))"
    by (rule sint_above [OF le])
  then show ?thesis
    using res_k k(2) le by auto
qed

lemma RandomLong_returns:
  assumes "rng_ok r" "0x80000000 mod (1 + high - low) = 0"
  shows "\<exists>res. RandomLong low high r = Some res"
proof -
  obtain res0 where res0: "random_loop 0x7FFFFFFF r = Some res0"
    using random_loop_all [OF assms(1), of "0x7FFFFFFF"] by auto
  then obtain k r' where "res0 = Inr (k, r')"
    using random_loop_result [OF res0 assms(1)] by blast
  then show ?thesis
    using assms(2) res0 by (simp add: RandomLong_def Let_def)
qed

text \<open>
  \<^verbatim>\<open>RandomLong\<close> stays between its bounds: whenever it returns on a range with \<open>low \<le> high\<close> (as signed
  numbers, the difference possibly too large for a \<^verbatim>\<open>long\<close>), the result lies in the range and the
  generator is still in order; and it does return, in one round, when the size of the range divides \<open>2 ^ 31\<close>.
\<close>

theorem RandomLong_in_range:
  assumes "rng_ok r" "sint low \<le> sint high"
  shows "(\<forall>res. RandomLong low high r = Some res \<longrightarrow>
      (\<exists>v r'. res = Inr (v, r') \<and> rng_ok r' \<and> sint low \<le> sint v \<and> sint v \<le> sint high)) \<and>
    (0x80000000 mod (1 + high - low) = 0 \<longrightarrow> (\<exists>res. RandomLong low high r = Some res))"
  using RandomLong_result [OF _ assms] RandomLong_returns [OF assms(1), where low = low and high = high] by blast

theorem RandomLong_in_range_witness:
  "\<exists>v r'. RandomLong (-3) 4 fresh_rng = Some (Inr (v, r')) \<and> -3 \<le> sint v \<and> sint v \<le> 4"
proof -
  have "rng_ok fresh_rng" "sint (-3 :: u32) \<le> sint (4 :: u32)"
    by (simp_all add: fresh_rng_def rng_ok_def in_range_def)
  from RandomLong_in_range [OF this] show ?thesis
    by auto
qed

section \<open>What the first numbers are\<close>

fun draws :: "nat \<Rightarrow> rng \<Rightarrow> int list outcome" where
  "draws 0 r = Inr []"
| "draws (Suc n) r = bindE (ran1 r) (\<lambda>(k, r). bindE (draws n r) (\<lambda>ks. Inr (k # ks)))"

text \<open>The first numbers of the minimal standard generator from \<open>x\<close> have a quotient of at least 32.\<close>

fun scattered :: "nat \<Rightarrow> int \<Rightarrow> bool" where
  "scattered 0 x = True"
| "scattered (Suc n) x = (32 \<le> x div 127773 \<and> scattered n (16807 * x mod 2147483647))"

lemma warm_up_scattered:
  "0 \<le> x \<Longrightarrow> x \<le> 2147483647 \<Longrightarrow> scattered n x \<Longrightarrow> \<exists>x'. warm_up n (x, iv) = Inr (x', iv) \<and> 0 \<le> x' \<and> x' \<le> 2147483647"
proof (induction n arbitrary: x)
  case (Suc n)
  have n: "0 \<le> next_idum x" "next_idum x \<le> 2147483647"
    using next_idum_range [OF Suc.prems(1,2)] by (simp_all add: in_range_def)
  have "warm_up (Suc n) (x, iv) = warm_up n (next_idum x, iv)"
    using lcg_next(1) [OF Suc.prems(1,2)] Suc.prems(3) by simp
  then show ?case
    using Suc.IH [OF n] Suc.prems lcg_next(2) [OF Suc.prems(1,2)] by simp
qed simp

lemma draws_restart:
  assumes "restart r = restart r'"
  shows "draws (Suc n) r = draws (Suc n) r'"
  using assms by (simp add: ran1_def)

text \<open>When the table is empty apart from its first entry, a restart forgets that entry and the seed.\<close>

lemma restart_forgets:
  assumes "0 \<le> y"
  shows "restart \<lparr>rn_idum = y, rn_iy = 0, rn_iv = (replicate 32 0)[0 := y]\<rparr> = restart \<lparr>rn_idum = 1, rn_iy = 0, rn_iv = replicate 32 0\<rparr>"
proof -
  have forty: "(40 :: nat) = Suc 39"
    by simp
  have "lcg 1 = Inr (0, 16807)"
    by code_simp
  then have "warm_up (Suc 39) (1, (replicate 32 0)[0 := y]) = warm_up (Suc 39) (1, replicate 32 0)"
    by (simp only: warm_up.simps) (simp add: poke_one)
  then have "warm_up 40 (1, (replicate 32 0)[0 := y]) = warm_up 40 (1, replicate 32 0)"
    unfolding forty .
  then show ?thesis
    using assms by (simp add: restart_def)
qed

lemma draws_of_one:
  "draws 5 \<lparr>rn_idum = 1, rn_iy = 0, rn_iv = replicate 32 0\<rparr> = Inr [0, 530511967, 0, 530511967, 2110010672]"
  by code_simp

text \<open>
  The seed does not matter: because the warm-up fills the table at the quotient, for almost every
  time the table is still empty after it, and the first six numbers are always the same.
\<close>

lemma first_numbers_fixed:
  assumes "1000 < t" "t < 2 ^ 31" "scattered 40 t"
  shows "bindE (SeedRandomNumberGenerator t fresh_rng) (draws 6) = Inr [0, 0, 530511967, 0, 530511967, 2110010672]"
proof -
  have "sint (of_int (- t) :: u32) = - t"
    using assms(1,2) by (intro sint_of_int_u32) simp_all
  then have seed: "SeedRandomNumberGenerator t fresh_rng = Inr (fresh_rng\<lparr>rn_idum := - t\<rparr>)"
    using assms(1) by (simp add: SeedRandomNumberGenerator_def Let_def)
  obtain x where x: "warm_up 40 (t, replicate 32 0) = Inr (x, replicate 32 0)" "0 \<le> x" "x \<le> 2147483647"
    using warm_up_scattered [OF _ _ assms(3)] assms(1,2) by fastforce
  then have "in_range x"
    using warm_up_ok [of t "replicate 32 0" 40] assms(1,2) by (auto simp: in_range_def)
  have "restart (fresh_rng\<lparr>rn_idum := - t\<rparr>) = Inr \<lparr>rn_idum = x, rn_iy = 0, rn_iv = replicate 32 0\<rparr>"
    using assms(1,2) x(1) by (simp add: restart_def fresh_rng_def int32_def peek_single del: One_nat_def)
  from ran1_step(1) [OF this] have first: "ran1 (fresh_rng\<lparr>rn_idum := - t\<rparr>) =
      Inr (0, \<lparr>rn_idum = next_idum x, rn_iy = 0, rn_iv = (replicate 32 0)[0 := next_idum x]\<rparr>)"
    using \<open>in_range x\<close> by (simp add: rng_ok_def in_range_def slot_def)
  have "draws (Suc 4) \<lparr>rn_idum = next_idum x, rn_iy = 0, rn_iv = (replicate 32 0)[0 := next_idum x]\<rparr> =
      draws (Suc 4) \<lparr>rn_idum = 1, rn_iy = 0, rn_iv = replicate 32 0\<rparr>"
    using next_idum_range [OF x(2,3)] by (intro draws_restart restart_forgets) (simp add: in_range_def)
  then have "draws (Suc 5) (fresh_rng\<lparr>rn_idum := - t\<rparr>) = Inr [0, 0, 530511967, 0, 530511967, 2110010672]"
    using draws_of_one by (subst draws.simps(2)) (simp add: first eval_nat_numeral del: draws.simps)
  then show ?thesis
    by (simp add: seed)
qed

lemma scattered_time: "scattered 40 1715000000"
  by code_simp

end
