(* ===== verification/Challenges.thy ===== *)
theory Challenges
  imports RandomNumbers Messages NetAddr Md5
begin

text \<open>
  The address challenges of \<^verbatim>\<open>SV_chals.c\<close>, the rejection of \<^verbatim>\<open>SV_mcast.c\<close> and the remote console of \<^verbatim>\<open>SV_rcon.c\<close>.
  The table is a list of 1024 slots, the clock \<^verbatim>\<open>global_realtime\<close> a real number that is cut off when it is stored
  as an \<^verbatim>\<open>int\<close>; \<^verbatim>\<open>global_net_from\<close> and the words of the current command are arguments. A packet that
  is sent is part of the result. Of the two calls in \<^verbatim>\<open>(RandomLong(..) << 1) ^ RandomLong(..)\<close> the left one is made first.
\<close>

record challenge =
  ch_address :: netadr
  ch_time :: int
  ch_challenge :: u32

type_synonym packet = "netadr \<times> u8 list"

definition fresh_challenges :: "challenge list" where
  "fresh_challenges = replicate 1024 \<lparr>ch_address = no_adr, ch_time = 0, ch_challenge = 0\<rparr>"

section \<open>Checking a challenge\<close>

definition SV_RejectConnection :: "netadr \<Rightarrow> u8 list \<Rightarrow> sizebuf \<Rightarrow> (sizebuf \<times> packet) outcome" where
  "SV_RejectConnection client message net_message =
     (let TerminationMessage = take 1022 message @ replicate (1024 - length (take 1022 message)) 0;
          i = (if length message > 1023 then 1023 else length message) in
      bindE (MSG_WriteLong (SZ_Clear net_message) 0xFFFFFFFF) (\<lambda>m.
      bindE (MSG_WriteByte m 57) (\<lambda>m.
      bindE (MSG_WriteBuf m (of_nat i) (Some TerminationMessage)) (\<lambda>m.
      bindE (peek 0 (unat (sb_cursize m)) (sb_data m)) (\<lambda>bytes. Inr (m, client, bytes))))))"

definition no_challenge_text :: "u8 list" where
  "no_challenge_text = cstr ''Denied--no challenge for your address.'' @ [10]"

text \<open>The first slot of the address, if there is one.\<close>

fun slot_of :: "netadr \<Rightarrow> challenge list \<Rightarrow> challenge option" where
  "slot_of adr [] = None"
| "slot_of adr (c # cs) = (if NET_CompareBaseAdr adr (ch_address c) then Some c else slot_of adr cs)"

text \<open>The loop stops one slot before the end of the table.\<close>

definition SV_CheckChallenge ::
  "netadr \<Rightarrow> challenge list \<Rightarrow> netadr option \<Rightarrow> u32 \<Rightarrow> sizebuf \<Rightarrow> (bool \<times> sizebuf \<times> packet list) outcome" where
  "SV_CheckChallenge net_from chs client challenge net_message =
     (case client of None \<Rightarrow> Inl SysError
      | Some adr \<Rightarrow>
          if NET_IsLocalAddress adr then Inr (True, net_message, [])
          else (case slot_of net_from (take 1023 chs) of
              Some c \<Rightarrow> Inr (challenge = ch_challenge c, net_message, [])
            | None \<Rightarrow> bindE (SV_RejectConnection adr no_challenge_text net_message) (\<lambda>(m, p). Inr (False, m, [p]))))"

section \<open>Handing out challenges\<close>

definition new_challenge :: "rng \<Rightarrow> (u32 \<times> rng) run" where
  "new_challenge r =
     bindT (RandomLong 0 0x7FFFFFFF r) (\<lambda>(a, r).
     bindT (RandomLong 0 0x7FFFFFFF r) (\<lambda>(b, r). Some (Inr (push_bit 1 a XOR b, r))))"

text \<open>The search: where it stopped, and the oldest slot it passed.\<close>

fun find_slot :: "netadr \<Rightarrow> nat \<Rightarrow> nat \<Rightarrow> int \<Rightarrow> challenge list \<Rightarrow> nat \<times> nat" where
  "find_slot adr i oldest oldestTime [] = (i, oldest)"
| "find_slot adr i oldest oldestTime (c # cs) =
     (if NET_CompareBaseAdr adr (ch_address c) then (i, oldest)
      else if ch_time c < oldestTime then find_slot adr (Suc i) i (ch_time c) cs
      else find_slot adr (Suc i) oldest oldestTime cs)"

text \<open>The conversion of a \<^verbatim>\<open>double\<close> to an \<^verbatim>\<open>int\<close>.\<close>

definition to_int :: "real \<Rightarrow> int outcome" where
  "to_int x = int32 (if x < 0 then \<lceil>x\<rceil> else \<lfloor>x\<rfloor>)"

text \<open>
  The table part, the same in both handlers: the new table, the generator and the number that is
  sent. A known address leaves its own slot alone: what is tested and renewed is the slot \<^verbatim>\<open>oldest\<close>.
\<close>

definition challenge_for :: "real \<Rightarrow> netadr \<Rightarrow> challenge list \<Rightarrow> rng \<Rightarrow> (challenge list \<times> rng \<times> u32) run" where
  "challenge_for realtime adr chs r =
     (let (i, oldest) = find_slot adr 0 0 0x7FFFFFFF chs in
      if i = 1024 then
        bindT (new_challenge r) (\<lambda>(n, r).
        bindT (Some (to_int realtime)) (\<lambda>t.
          Some (Inr (chs[oldest := \<lparr>ch_address = adr, ch_time = t, ch_challenge = n\<rparr>], r, n))))
      else
        bindT (Some (int32 (ch_time (chs ! oldest) + 8))) (\<lambda>limit.
        bindT
          (if of_int limit < realtime then
             bindT (new_challenge r) (\<lambda>(n, r). Some (Inr (chs[oldest := (chs ! oldest)\<lparr>ch_challenge := n\<rparr>], r)))
           else Some (Inr (chs, r)))
          (\<lambda>(chs, r). Some (Inr (chs, r, ch_challenge (chs ! i))))))"

text \<open>\<^verbatim>\<open>sprintf\<close> into an array of \<open>n\<close> bytes: the text and its terminator have to fit.\<close>

definition sprintf :: "nat \<Rightarrow> u8 list \<Rightarrow> u8 list outcome" where
  "sprintf n text = (if length text + 1 \<le> n then Inr (text @ [0]) else Inl OutOfBounds)"

definition SVC_GetChallenge :: "real \<Rightarrow> netadr \<Rightarrow> challenge list \<Rightarrow> rng \<Rightarrow> (challenge list \<times> rng \<times> packet) run" where
  "SVC_GetChallenge realtime net_from chs r =
     bindT (challenge_for realtime net_from chs r) (\<lambda>(chs, r, n).
     bindT (Some (sprintf 29 (replicate 4 255 @ cstr ''A00000000 '' @ dec (unat n) @ cstr '' 2'' @ [10]))) (\<lambda>packet.
       Some (Inr (chs, r, net_from, packet))))"

definition SVC_ServiceChallenge ::
  "u8 list list \<Rightarrow> real \<Rightarrow> netadr \<Rightarrow> challenge list \<Rightarrow> rng \<Rightarrow> (challenge list \<times> rng \<times> packet list) run" where
  "SVC_ServiceChallenge argv realtime net_from chs r =
     (if length argv \<noteq> 2 \<or> \<not> strcasecmp_eq (nth_word argv 1) (cstr ''rcon'') then Some (Inr (chs, r, []))
      else
        bindT (challenge_for realtime net_from chs r) (\<lambda>(chs, r, n).
        bindT (Some (sprintf 31 (replicate 4 255 @ cstr ''challenge rcon '' @ dec (unat n) @ [10]))) (\<lambda>packet.
          Some (Inr (chs, r, [(net_from, packet)])))))"

section \<open>The remote console\<close>

record rcon =
  rc_use :: bool
  rc_password :: "u8 list"

definition md5_of :: "u8 list \<Rightarrow> u8 list outcome" where
  "md5_of s = bindE (MD5Update (MD5Init md5_empty) s (of_nat (length s))) MD5Final"

text \<open>\<open>server\<close> says that the command comes from the server's own console.\<close>

definition SV_Rcon_ChangePassword_f :: "bool \<Rightarrow> u8 list list \<Rightarrow> rcon \<Rightarrow> rcon outcome" where
  "SV_Rcon_ChangePassword_f server argv rc =
     (if \<not> server then Inr rc
      else if length argv \<noteq> 2 then Inr rc
      else if length (nth_word argv 1) < 1 then Inr (rc\<lparr>rc_use := False\<rparr>)
      else bindE (md5_of (nth_word argv 1)) (\<lambda>h. Inr (rc\<lparr>rc_password := h, rc_use := True\<rparr>)))"

definition SV_Rcon_Validate ::
  "netadr \<Rightarrow> challenge list \<Rightarrow> u8 list list \<Rightarrow> rcon \<Rightarrow> sizebuf \<Rightarrow> (bool \<times> sizebuf \<times> packet list) outcome" where
  "SV_Rcon_Validate net_from chs argv rc net_message =
     bindE (int32 (atoi (nth_word argv 1))) (\<lambda>c.
     bindE (SV_CheckChallenge net_from chs (Some net_from) (of_int c) net_message) (\<lambda>(ok, m, ps).
       if \<not> ok then Inr (False, m, ps)
       else bindE (md5_of (nth_word argv 2)) (\<lambda>temp. Inr (temp = rc_password rc, m, ps))))"

text \<open>
  The loop that joins the remaining words in an array of 1024 bytes: \<open>len\<close> is what the words would
  need, \<open>temp\<close> the string that is in the array. \<^verbatim>\<open>snprintf\<close> is given \<open>1023 - len\<close> bytes, none of them after
  the last round in which everything fitted.
\<close>

fun join_words :: "nat \<Rightarrow> u8 list \<Rightarrow> u8 list list \<Rightarrow> u8 list" where
  "join_words len temp [] = temp"
| "join_words len temp (w # ws) =
     (let piece = w @ [32]; temp' = temp @ take (1023 - len - 1) piece; len' = len + length piece in
      if 1023 < len' then temp' else join_words len' temp' ws)"

text \<open>The result is the command that is executed, if there is one.\<close>

definition SV_Rcon ::
  "netadr \<Rightarrow> challenge list \<Rightarrow> u8 list list \<Rightarrow> rcon \<Rightarrow> sizebuf \<Rightarrow> (u8 list option \<times> sizebuf \<times> packet list) outcome" where
  "SV_Rcon net_from chs argv rc net_message =
     (if \<not> rc_use rc then Inr (None, net_message, [])
      else if length argv < 4 then Inr (None, net_message, [])
      else bindE (SV_Rcon_Validate net_from chs argv rc net_message) (\<lambda>(ok, m, ps).
        Inr (if ok then Some (join_words 0 [] (drop 3 argv)) else None, m, ps)))"

section \<open>The search\<close>

definition chs_ok :: "challenge list \<Rightarrow> bool" where
  "chs_ok chs \<longleftrightarrow> length chs = 1024 \<and> (\<forall>c \<in> set chs. 0 \<le> ch_time c \<and> ch_time c < 2 ^ 31 - 8)"

lemma find_slot_spec:
  assumes "find_slot adr i old t cs = (j, k)"
  shows "i \<le> j" "j \<le> i + length cs" "\<forall>m < j - i. \<not> NET_CompareBaseAdr adr (ch_address (cs ! m))"
    "j < i + length cs \<Longrightarrow> NET_CompareBaseAdr adr (ch_address (cs ! (j - i)))"
    "k = old \<or> (i \<le> k \<and> k < j)"
proof -
  have "i \<le> j \<and> j \<le> i + length cs \<and> (\<forall>m < j - i. \<not> NET_CompareBaseAdr adr (ch_address (cs ! m))) \<and>
      (j < i + length cs \<longrightarrow> NET_CompareBaseAdr adr (ch_address (cs ! (j - i)))) \<and> (k = old \<or> (i \<le> k \<and> k < j))"
    using assms
  proof (induction cs arbitrary: i old t)
    case (Cons c cs)
    show ?case
    proof (cases "NET_CompareBaseAdr adr (ch_address c)")
      case True
      then show ?thesis
        using Cons.prems by auto
    next
      case False
      obtain old' t' where rest: "find_slot adr (Suc i) old' t' cs = (j, k)" "old' = old \<or> old' = i"
        using Cons.prems False by (auto split: if_splits)
      then obtain d where d: "j = Suc i + d"
        using Cons.IH [OF rest(1)] by (auto simp: le_iff_add)
      from Cons.IH [OF rest(1)] rest(2) False show ?thesis
        unfolding d by (auto simp: nth_Cons split: nat.splits)
    qed
  qed auto
  then show "i \<le> j" "j \<le> i + length cs" "\<forall>m < j - i. \<not> NET_CompareBaseAdr adr (ch_address (cs ! m))"
    "j < i + length cs \<Longrightarrow> NET_CompareBaseAdr adr (ch_address (cs ! (j - i)))"
    "k = old \<or> (i \<le> k \<and> k < j)"
    by blast+
qed

lemma slot_of_first:
  "i < length cs \<Longrightarrow> NET_CompareBaseAdr adr (ch_address (cs ! i)) \<Longrightarrow>
    (\<forall>k < i. \<not> NET_CompareBaseAdr adr (ch_address (cs ! k))) \<Longrightarrow> slot_of adr cs = Some (cs ! i)"
proof (induction cs arbitrary: i)
  case (Cons c cs)
  then show ?case
  proof (cases i)
    case (Suc i')
    have "\<not> NET_CompareBaseAdr adr (ch_address c)" "\<forall>k < i'. \<not> NET_CompareBaseAdr adr (ch_address (cs ! k))"
      using Cons.prems(3) Suc by (auto dest: spec [of _ "Suc _"])
    then show ?thesis
      using Cons Suc by simp
  qed simp
qed simp

lemma slot_of_none_iff: "slot_of adr cs = None \<longleftrightarrow> (\<forall>c \<in> set cs. \<not> NET_CompareBaseAdr adr (ch_address c))"
  by (induction cs) auto

lemmas slot_of_none = slot_of_none_iff [THEN iffD2]

section \<open>The numbers\<close>

lemma RandomLong_full:
  assumes "ran1 r = Inr (k, r')" "in_range k"
  shows "RandomLong 0 0x7FFFFFFF r = Some (Inr (of_int k, r'))"
proof -
  have k: "(of_int k :: u32) \<le> 0x7FFFFFFE" "unat (of_int k :: u32) = nat k"
    using of_int_range [OF assms(2)] by simp_all
  then have "\<not> (of_int k :: u32) > 0x7FFFFFFF"
    by (simp add: word_le_nat_alt word_less_nat_alt)
  then have "random_loop 0x7FFFFFFF r = Some (Inr (of_int k, r'))"
    by (subst random_loop.simps) (simp add: assms(1))
  moreover have "(of_int k :: u32) mod 0x80000000 = of_int k"
    using k assms(2) by (simp add: word_unat_eq_iff unat_mod in_range_def nat_less_iff)
  ultimately show ?thesis
    by (simp add: RandomLong_def Let_def)
qed

lemma new_challenge_draws:
  assumes "ran1 r = Inr (k1, r1)" "in_range k1" "ran1 r1 = Inr (k2, r2)" "in_range k2"
  shows "new_challenge r = Some (Inr (push_bit 1 (of_int k1) XOR of_int k2, r2))"
  using assms by (simp add: new_challenge_def RandomLong_full)

lemma new_challenge_ok:
  assumes "rng_ok r"
  obtains n r' where "new_challenge r = Some (Inr (n, r'))" "rng_ok r'"
proof -
  obtain k1 r1 where 1: "ran1 r = Inr (k1, r1)" "in_range k1" "rng_ok r1"
    using ran1_ok [OF assms] by blast
  obtain k2 r2 where 2: "ran1 r1 = Inr (k2, r2)" "in_range k2" "rng_ok r2"
    using ran1_ok [OF 1(3)] by blast
  show ?thesis
    using that new_challenge_draws [OF 1(1,2) 2(1,2)] 2(3) by blast
qed

section \<open>One request\<close>

lemma to_int_floor: "0 \<le> x \<Longrightarrow> x < 2 ^ 31 - 8 \<Longrightarrow> to_int x = Inr \<lfloor>x\<rfloor> \<and> 0 \<le> \<lfloor>x\<rfloor> \<and> \<lfloor>x\<rfloor> < 2 ^ 31 - 8"
  by (simp add: to_int_def int32_def floor_less_iff le_floor_iff)

lemma chs_ok_update:
  assumes "chs_ok chs" "0 \<le> ch_time c" "ch_time c < 2 ^ 31 - 8"
  shows "chs_ok (chs[k := c])"
  using assms set_update_subset_insert [of chs k c] by (auto simp: chs_ok_def)

text \<open>An address without a slot gets the oldest one, with a new number.\<close>

lemma challenge_for_new:
  assumes "chs_ok chs" "rng_ok r" "0 \<le> realtime" "realtime < 2 ^ 31 - 8"
    and "\<forall>c \<in> set chs. \<not> NET_CompareBaseAdr adr (ch_address c)" and "new_challenge r = Some (Inr (n, r'))"
  obtains k where "k < 1024" "challenge_for realtime adr chs r =
    Some (Inr (chs[k := \<lparr>ch_address = adr, ch_time = \<lfloor>realtime\<rfloor>, ch_challenge = n\<rparr>], r', n))"
    "chs_ok (chs[k := \<lparr>ch_address = adr, ch_time = \<lfloor>realtime\<rfloor>, ch_challenge = n\<rparr>])"
proof -
  obtain j k where f: "find_slot adr 0 0 0x7FFFFFFF chs = (j, k)"
    by (cases "find_slot adr 0 0 0x7FFFFFFF chs")
  have len: "length chs = 1024"
    using assms(1) by (simp add: chs_ok_def)
  have "j = 1024"
    using find_slot_spec(2,4) [OF f] assms(5) len by (force simp: le_less)
  moreover have "k < 1024"
    using find_slot_spec(5) [OF f] \<open>j = 1024\<close> by auto
  moreover note t = to_int_floor [OF assms(3,4)]
  moreover have "chs_ok (chs[k := \<lparr>ch_address = adr, ch_time = \<lfloor>realtime\<rfloor>, ch_challenge = n\<rparr>])"
    using assms(1) t by (intro chs_ok_update) simp_all
  ultimately show ?thesis
    using that [of k] f assms(6) by (simp add: challenge_for_def)
qed

text \<open>An address with a slot: at most the number of an earlier slot changes.\<close>

lemma challenge_for_known:
  assumes "chs_ok chs" "rng_ok r" "find_slot adr 0 0 0x7FFFFFFF chs = (j, k)" "j < 1024"
    and "new_challenge r = Some (Inr (n, r'))"
  shows "challenge_for realtime adr chs r =
      (if of_int (ch_time (chs ! k) + 8) < realtime
       then Some (Inr (chs[k := (chs ! k)\<lparr>ch_challenge := n\<rparr>], r', ch_challenge (chs[k := (chs ! k)\<lparr>ch_challenge := n\<rparr>] ! j)))
       else Some (Inr (chs, r, ch_challenge (chs ! j))))"
    "chs_ok (chs[k := (chs ! k)\<lparr>ch_challenge := n\<rparr>])" "k < j \<or> k = 0"
proof -
  show k: "k < j \<or> k = 0"
    using find_slot_spec(5) [OF assms(3)] by auto
  then have "chs ! k \<in> set chs"
    using assms(1,4) by (auto simp: chs_ok_def)
  then have t: "0 \<le> ch_time (chs ! k)" "ch_time (chs ! k) < 2 ^ 31 - 8"
    using assms(1) by (auto simp: chs_ok_def)
  then show "chs_ok (chs[k := (chs ! k)\<lparr>ch_challenge := n\<rparr>])"
    using assms(1) by (intro chs_ok_update) simp_all
  show "challenge_for realtime adr chs r =
      (if of_int (ch_time (chs ! k) + 8) < realtime
       then Some (Inr (chs[k := (chs ! k)\<lparr>ch_challenge := n\<rparr>], r', ch_challenge (chs[k := (chs ! k)\<lparr>ch_challenge := n\<rparr>] ! j)))
       else Some (Inr (chs, r, ch_challenge (chs ! j))))"
    using assms(3-5) t by (simp add: challenge_for_def int32_def)
qed

text \<open>Afterwards the address has a first slot, which holds the number that is sent.\<close>

lemma challenge_for_ok:
  assumes "chs_ok chs" "rng_ok r" "0 \<le> realtime" "realtime < 2 ^ 31 - 8"
  obtains chs' r' i where "challenge_for realtime adr chs r = Some (Inr (chs', r', ch_challenge (chs' ! i)))"
    "chs_ok chs'" "rng_ok r'" "i < 1024" "NET_CompareBaseAdr adr (ch_address (chs' ! i))"
    "\<forall>k < i. \<not> NET_CompareBaseAdr adr (ch_address (chs' ! k))"
proof -
  obtain n r' where new: "new_challenge r = Some (Inr (n, r'))" "rng_ok r'"
    using new_challenge_ok [OF assms(2)] by blast
  have len: "length chs = 1024"
    using assms(1) by (simp add: chs_ok_def)
  have self: "NET_CompareBaseAdr adr adr"
    by (simp add: NET_CompareBaseAdr_def)
  show ?thesis
  proof (cases "\<forall>c \<in> set chs. \<not> NET_CompareBaseAdr adr (ch_address c)")
    case True
    obtain k where k: "k < 1024" "challenge_for realtime adr chs r =
        Some (Inr (chs[k := \<lparr>ch_address = adr, ch_time = \<lfloor>realtime\<rfloor>, ch_challenge = n\<rparr>], r', n))"
        "chs_ok (chs[k := \<lparr>ch_address = adr, ch_time = \<lfloor>realtime\<rfloor>, ch_challenge = n\<rparr>])"
      using challenge_for_new [OF assms True new(1)] by blast
    have "\<forall>l < k. \<not> NET_CompareBaseAdr adr (ch_address (chs ! l))"
      using True k(1) len by simp
    then show ?thesis
      using that [OF _ k(3) new(2) k(1)] k(1,2) len self by simp
  next
    case False
    obtain j k where f: "find_slot adr 0 0 0x7FFFFFFF chs = (j, k)"
      by (cases "find_slot adr 0 0 0x7FFFFFFF chs")
    note spec = find_slot_spec [OF f, simplified]
    have j: "j < 1024"
      using spec(2,3) False len by (auto simp: in_set_conv_nth le_less)
    note known = challenge_for_known [OF assms(1,2) f j new(1)]
    let ?new = "chs[k := (chs ! k)\<lparr>ch_challenge := n\<rparr>]"
    have same: "ch_address (?new ! l) = ch_address (chs ! l)" if "l < 1024" for l
      using that len by (cases "l = k") simp_all
    show ?thesis
    proof (cases "of_int (ch_time (chs ! k) + 8) < realtime")
      case True
      then show ?thesis
        using that [OF _ known(2) new(2) j] known(1) spec(3,4) j len same by simp
    next
      case False
      then show ?thesis
        using that [OF _ assms(1,2) j] known(1) spec(3,4) j len by simp
    qed
  qed
qed

section \<open>Properties\<close>

lemma length_dec_u32: "length (dec (unat (n :: u32))) \<le> 10"
proof -
  have "length (dec m) \<le> Suc k" if "m < 10 ^ Suc k" for m k
    using that
  proof (induction k arbitrary: m)
    case (Suc k)
    then have "m div 10 < 10 ^ Suc k"
      by (simp add: div_less_iff_less_mult)
    then show ?case
      using Suc.IH [of "m div 10"] by (subst dec.simps) simp
  qed (simp add: dec.simps)
  moreover have "unat n < 10 ^ Suc 9"
    using unat_u32_lt [of n] by simp
  ultimately show ?thesis
    by fastforce
qed

lemma chs_ok_take: "chs_ok chs \<Longrightarrow> i < 1023 \<Longrightarrow> take 1023 chs ! i = chs ! i \<and> i < length (take 1023 chs)"
  by (simp add: chs_ok_def)

text \<open>
  C24. A challenge that was handed out is accepted: every request is answered, with a packet that fits
  its array; the table stays well formed; and afterwards \<^verbatim>\<open>SV_CheckChallenge\<close> accepts exactly the number in
  the packet from that address, unless the address was given the last slot, where the check finds nothing.
\<close>

theorem challenge_roundtrip:
  assumes "chs_ok chs" "rng_ok r" "0 \<le> realtime" "realtime < 2 ^ 31 - 8" "na_type adr = NA_IP"
  shows "\<exists>chs' r' n i. SVC_GetChallenge realtime adr chs r = Some (Inr (chs', r', adr,
      replicate 4 255 @ cstr ''A00000000 '' @ dec (unat n) @ cstr '' 2'' @ [10, 0])) \<and>
    chs_ok chs' \<and> rng_ok r' \<and> i < 1024 \<and> NET_CompareBaseAdr adr (ch_address (chs' ! i)) \<and>
    (\<forall>c m. SV_CheckChallenge adr chs' (Some adr) c m =
      (if i < 1023 then Inr (c = n, m, [])
       else bindE (SV_RejectConnection adr no_challenge_text m) (\<lambda>(m, p). Inr (False, m, [p]))))"
proof -
  obtain chs' r' i where one: "challenge_for realtime adr chs r = Some (Inr (chs', r', ch_challenge (chs' ! i)))"
    "chs_ok chs'" "rng_ok r'" "i < 1024" "NET_CompareBaseAdr adr (ch_address (chs' ! i))"
    "\<forall>k < i. \<not> NET_CompareBaseAdr adr (ch_address (chs' ! k))"
    using challenge_for_ok [OF assms(1-4)] by blast
  have slot: "slot_of adr (take 1023 chs') = (if i < 1023 then Some (chs' ! i) else None)"
  proof (cases "i < 1023")
    case True
    then show ?thesis
      using slot_of_first [of i "take 1023 chs'"] one(5,6) chs_ok_take [OF one(2)] by auto
  next
    case False
    then show ?thesis
      using one(2,4,6) by (auto intro!: slot_of_none simp: in_set_conv_nth chs_ok_def)
  qed
  have "\<forall>c m. SV_CheckChallenge adr chs' (Some adr) c m =
      (if i < 1023 then Inr (c = ch_challenge (chs' ! i), m, [])
       else bindE (SV_RejectConnection adr no_challenge_text m) (\<lambda>(m, p). Inr (False, m, [p])))"
    using assms(5) by (simp add: SV_CheckChallenge_def NET_IsLocalAddress_def slot)
  moreover have "SVC_GetChallenge realtime adr chs r = Some (Inr (chs', r', adr,
      replicate 4 255 @ cstr ''A00000000 '' @ dec (unat (ch_challenge (chs' ! i))) @ cstr '' 2'' @ [10, 0]))"
    using one(1) length_dec_u32 [of "ch_challenge (chs' ! i)"] by (simp add: SVC_GetChallenge_def sprintf_def cstr_def)
  ultimately show ?thesis
    using one(2-5) by blast
qed

definition ip_adr :: "u8 \<Rightarrow> netadr" where
  "ip_adr b = no_adr\<lparr>na_type := NA_IP, na_ip := (10, 0, 0, b)\<rparr>"

theorem challenge_roundtrip_witness:
  "\<exists>chs' r' p. SVC_GetChallenge 5 (ip_adr 1) fresh_challenges fresh_rng = Some (Inr (chs', r', ip_adr 1, p)) \<and> chs_ok chs'"
proof -
  have "chs_ok fresh_challenges" "rng_ok fresh_rng"
    by (simp_all add: fresh_challenges_def chs_ok_def fresh_rng_def rng_ok_def in_range_def)
  from challenge_roundtrip [OF this, of 5 "ip_adr 1"] show ?thesis
    by (force simp: ip_adr_def)
qed

text \<open>
  The renewal hits another client: when a known address asks again and an older slot has timed out, the
  number sent is the old one, and what gets a new number is the slot \<^verbatim>\<open>oldest\<close>, of a different address, whose
  owner is from then on accepted with the new number only; its time stays, so that it happens again.
\<close>

theorem renewal_hits_other_client:
  assumes "chs_ok chs" "rng_ok r" "find_slot adr 0 0 0x7FFFFFFF chs = (i, k)" "k < i" "i < 1024"
    and "of_int (ch_time (chs ! k) + 8) < realtime"
  shows "\<exists>n r'. new_challenge r = Some (Inr (n, r')) \<and>
    challenge_for realtime adr chs r = Some (Inr (chs[k := (chs ! k)\<lparr>ch_challenge := n\<rparr>], r', ch_challenge (chs ! i))) \<and>
    \<not> NET_CompareBaseAdr adr (ch_address (chs ! k)) \<and>
    (\<forall>other c m. na_type other = NA_IP \<and> slot_of other (take k chs) = None \<and> NET_CompareBaseAdr other (ch_address (chs ! k)) \<longrightarrow>
      SV_CheckChallenge other (chs[k := (chs ! k)\<lparr>ch_challenge := n\<rparr>]) (Some other) c m = Inr (c = n, m, []))"
proof -
  obtain n r' where new: "new_challenge r = Some (Inr (n, r'))"
    using new_challenge_ok [OF assms(2)] by blast
  let ?chs = "chs[k := (chs ! k)\<lparr>ch_challenge := n\<rparr>]"
  have len: "length chs = 1024"
    using assms(1) by (simp add: chs_ok_def)
  have check: "SV_CheckChallenge other ?chs (Some other) c m = Inr (c = n, m, [])"
    if other: "na_type other = NA_IP" "slot_of other (take k chs) = None" "NET_CompareBaseAdr other (ch_address (chs ! k))"
    for other c m
  proof -
    have "\<not> NET_CompareBaseAdr other (ch_address (chs ! l))" if "l < k" for l
    proof -
      have "chs ! l \<in> set (take k chs)"
        using that assms(4,5) len by (auto simp: in_set_conv_nth intro!: exI [of _ l])
      then show ?thesis
        using other(2) by (auto simp: slot_of_none_iff)
    qed
    then have "slot_of other (take 1023 ?chs) = Some (take 1023 ?chs ! k)"
      using other(3) assms(4,5) len by (intro slot_of_first) auto
    then show ?thesis
      using other(1) assms(4,5) len by (simp add: SV_CheckChallenge_def NET_IsLocalAddress_def)
  qed
  show ?thesis
    using new check challenge_for_known(1) [OF assms(1-3,5) new] assms(4-6) find_slot_spec(3) [OF assms(3)] by auto
qed

theorem renewal_hits_other_client_witness:
  "\<exists>n r' chs'. challenge_for 20 (ip_adr 2) (\<lparr>ch_address = ip_adr 1, ch_time = 5, ch_challenge = 7\<rparr> #
      \<lparr>ch_address = ip_adr 2, ch_time = 6, ch_challenge = 9\<rparr> # replicate 1022 \<lparr>ch_address = no_adr, ch_time = 0, ch_challenge = 0\<rparr>)
      fresh_rng = Some (Inr (chs', r', 9)) \<and> ch_challenge (chs' ! 0) = n \<and> new_challenge fresh_rng = Some (Inr (n, r'))"
proof -
  let ?chs = "\<lparr>ch_address = ip_adr 1, ch_time = 5, ch_challenge = 7\<rparr> # \<lparr>ch_address = ip_adr 2, ch_time = 6, ch_challenge = 9\<rparr> #
    replicate 1022 \<lparr>ch_address = no_adr, ch_time = 0, ch_challenge = 0\<rparr>"
  have "chs_ok ?chs" "rng_ok fresh_rng" "find_slot (ip_adr 2) 0 0 0x7FFFFFFF ?chs = (1, 0)"
    by (simp_all add: chs_ok_def fresh_rng_def rng_ok_def in_range_def ip_adr_def NET_CompareBaseAdr_def)
  from renewal_hits_other_client [OF this, of 20] show ?thesis
    by auto
qed

section \<open>The remote console\<close>

lemma join_words_take:
  "temp = take 1022 full \<Longrightarrow> len = length full \<Longrightarrow> len \<le> 1023 \<Longrightarrow>
    join_words len temp ws = take 1022 (full @ concat (map (\<lambda>w. w @ [32]) ws))"
proof (induction ws arbitrary: len temp full)
  case (Cons w ws)
  let ?p = "w @ [32]"
  have t: "temp @ take (1023 - len - 1) ?p = take 1022 (full @ ?p)"
    using Cons.prems by (simp add: numeral_eq_Suc)
  show ?case
  proof (cases "1023 < length (full @ ?p)")
    case True
    then show ?thesis
      using Cons.prems t by (simp add: Let_def)
  next
    case False
    then have "join_words (length (full @ ?p)) (take 1022 (full @ ?p)) ws =
        take 1022 ((full @ ?p) @ concat (map (\<lambda>w. w @ [32]) ws))"
      by (intro Cons.IH) simp_all
    then show ?thesis
      using False Cons.prems t by (simp add: Let_def)
  qed
qed simp

lemma md5_of_digest: "length s < 2 ^ 31 \<Longrightarrow> md5_of s = Inr (md5_digest s)"
  using md5_update_good [OF md5_init_good, of md5_empty s] md5_final_digest
  by (auto simp: md5_of_def md5_update_def md5_empty_def)



section \<open>The challenges can be predicted\<close>

text \<open>The numbers handed out to a sequence of requests, each with its time.\<close>

fun serve :: "(real \<times> netadr) list \<Rightarrow> challenge list \<Rightarrow> rng \<Rightarrow> u32 list run" where
  "serve [] chs r = Some (Inr [])"
| "serve ((t, adr) # reqs) chs r =
     bindT (challenge_for t adr chs r) (\<lambda>(chs, r, n). bindT (serve reqs chs r) (\<lambda>ns. Some (Inr (n # ns))))"

fun new_challenges :: "nat \<Rightarrow> rng \<Rightarrow> u32 list run" where
  "new_challenges 0 r = Some (Inr [])"
| "new_challenges (Suc k) r =
     bindT (new_challenge r) (\<lambda>(n, r). bindT (new_challenges k r) (\<lambda>ns. Some (Inr (n # ns))))"

definition unknown :: "netadr \<Rightarrow> challenge list \<Rightarrow> bool" where
  "unknown adr chs \<longleftrightarrow> (\<forall>c \<in> set chs. \<not> NET_CompareBaseAdr adr (ch_address c))"

lemma serve_new:
  "chs_ok chs \<Longrightarrow> rng_ok r \<Longrightarrow> (\<forall>(t, adr) \<in> set reqs. 0 \<le> t \<and> t < 2 ^ 31 - 8 \<and> unknown adr chs) \<Longrightarrow>
    sorted_wrt (\<lambda>a b. \<not> NET_CompareBaseAdr b a) (map snd reqs) \<Longrightarrow>
    serve reqs chs r = new_challenges (length reqs) r"
proof (induction reqs arbitrary: chs r)
  case (Cons req reqs)
  obtain t adr where req: "req = (t, adr)"
    by (cases req)
  obtain n r' where new: "new_challenge r = Some (Inr (n, r'))" "rng_ok r'"
    using new_challenge_ok [OF Cons.prems(2)] by blast
  let ?c = "\<lparr>ch_address = adr, ch_time = \<lfloor>t\<rfloor>, ch_challenge = n\<rparr>"
  have t: "0 \<le> t" "t < 2 ^ 31 - 8" "\<forall>c \<in> set chs. \<not> NET_CompareBaseAdr adr (ch_address c)"
    using Cons.prems(3) req by (auto simp: unknown_def)
  obtain k where k: "challenge_for t adr chs r = Some (Inr (chs[k := ?c], r', n))" "chs_ok (chs[k := ?c])"
    using challenge_for_new [OF Cons.prems(1,2) t new(1)] by blast
  have "\<forall>(t, adr) \<in> set reqs. 0 \<le> t \<and> t < 2 ^ 31 - 8 \<and> unknown adr (chs[k := ?c])"
    using Cons.prems(3,4) req set_update_subset_insert [of chs k ?c] by (fastforce simp: unknown_def)
  then have "serve reqs (chs[k := ?c]) r' = new_challenges (length reqs) r'"
    using Cons.IH [OF k(2) new(2)] Cons.prems(4) req by simp
  then show ?case
    using req k(1) new(1) by simp
qed simp

lemma draws_challenges:
  "draws (2 * k) r = Inr ks \<Longrightarrow> rng_ok r \<Longrightarrow>
    \<exists>ns. new_challenges k r = Some (Inr ns) \<and> length ns = k \<and>
      (\<forall>i < k. ns ! i = push_bit 1 (of_int (ks ! (2 * i))) XOR of_int (ks ! (2 * i + 1)))"
proof (induction k arbitrary: r ks)
  case (Suc k)
  obtain k1 r1 where 1: "ran1 r = Inr (k1, r1)" "in_range k1" "rng_ok r1"
    using ran1_ok [OF Suc.prems(2)] by blast
  obtain k2 r2 where 2: "ran1 r1 = Inr (k2, r2)" "in_range k2" "rng_ok r2"
    using ran1_ok [OF 1(3)] by blast
  obtain ks' where ks': "draws (2 * k) r2 = Inr ks'" "ks = k1 # k2 # ks'"
    using Suc.prems(1) 1(1) 2(1) by (auto simp: bindE_eq_Inr)
  obtain ns where ns: "new_challenges k r2 = Some (Inr ns)" "length ns = k"
      "\<forall>i < k. ns ! i = push_bit 1 (of_int (ks' ! (2 * i))) XOR of_int (ks' ! (2 * i + 1))"
    using Suc.IH [OF ks'(1) 2(3)] by blast
  show ?case
    using ns new_challenge_draws [OF 1(1,2) 2(1,2)] ks'(2)
    by (auto simp: nth_Cons split: nat.splits)
qed simp

lemma seeded_ok:
  assumes "1000 < t" "t < 2 ^ 31"
  obtains r where "SeedRandomNumberGenerator t fresh_rng = Inr r" "rng_ok r"
proof -
  have "sint (of_int (- t) :: u32) = - t"
    using assms by (intro sint_of_int_u32) simp_all
  then show ?thesis
    using that [of "fresh_rng\<lparr>rn_idum := - t\<rparr>"] assms
    by (simp add: SeedRandomNumberGenerator_def Let_def rng_ok_def fresh_rng_def in_range_def)
qed

text \<open>
  The challenges can be predicted: for every starting time for which the generator is scattered, and
  whoever asks when, the first three addresses that ask are given the numbers 0, 1061023934 and 1123665294.
\<close>

theorem challenges_predictable:
  assumes "1000 < t" "t < 2 ^ 31" "scattered 40 t"
    and "length reqs = 3" "\<forall>(t, adr) \<in> set reqs. 0 \<le> t \<and> t < 2 ^ 31 - 8 \<and> na_type adr = NA_IP"
    and "sorted_wrt (\<lambda>a b. \<not> NET_CompareBaseAdr b a) (map snd reqs)"
  shows "bindT (Some (SeedRandomNumberGenerator t fresh_rng)) (serve reqs fresh_challenges)
    = Some (Inr [0, 1061023934, 1123665294])"
proof -
  obtain r where r: "SeedRandomNumberGenerator t fresh_rng = Inr r" "rng_ok r"
    using seeded_ok [OF assms(1,2)] .
  have "draws (2 * 3) r = Inr [0, 0, 530511967, 0, 530511967, 2110010672]"
    using first_numbers_fixed [OF assms(1-3)] r(1) by simp
  then obtain ns where ns: "new_challenges 3 r = Some (Inr ns)" "length ns = 3"
      "\<forall>i < 3. ns ! i = push_bit 1 (of_int ([0, 0, 530511967, 0, 530511967, 2110010672] ! (2 * i)))
         XOR of_int ([0, 0, 530511967, 0, 530511967, 2110010672] ! (2 * i + 1))"
    using draws_challenges [OF _ r(2)] by blast
  have "ns = [ns ! 0, ns ! 1, ns ! 2]"
    using ns(2) by (intro nth_equalityI) (auto simp: less_Suc_eq numeral_eq_Suc)
  also have "\<dots> = [0, 1061023934, 1123665294]"
    using ns(3) by (simp add: numeral_eq_Suc)
  finally have "new_challenges 3 r = Some (Inr [0, 1061023934, 1123665294])"
    using ns(1) by simp
  moreover have "\<forall>(t, adr) \<in> set reqs. 0 \<le> t \<and> t < 2 ^ 31 - 8 \<and> unknown adr fresh_challenges"
    using assms(5) by (auto simp: unknown_def fresh_challenges_def no_adr_def NET_CompareBaseAdr_def)
  ultimately show ?thesis
    using serve_new [OF _ r(2) _ assms(6)] assms(4) r(1) by (simp add: fresh_challenges_def chs_ok_def)
qed

theorem challenges_predictable_witness:
  "bindT (Some (SeedRandomNumberGenerator 1715000000 fresh_rng)) (serve [(1, ip_adr 5), (7, ip_adr 3), (8, ip_adr 4)] fresh_challenges)
    = Some (Inr [0, 1061023934, 1123665294])"
  using challenges_predictable [OF _ _ scattered_time, of "[(1, ip_adr 5), (7, ip_adr 3), (8, ip_adr 4)]"]
  by (simp add: ip_adr_def NET_CompareBaseAdr_def)

end
