(* ===== verification/CmdBuf.thy ===== *)
theory CmdBuf
  imports Sizebuf
begin

text \<open>
  The command buffer of \<^verbatim>\<open>cmd.c\<close>: text is added behind or in front of what is pending, and once per frame
  \<^verbatim>\<open>Cbuf_Execute\<close> takes the pending text apart and runs its commands, which may themselves add text or set the
  wait flag. The state is the record \<open>cbuf\<close>, which the console extends; running a command is an argument
  \<open>exec\<close>. The locale \<open>command_runner\<close> is what the loop relies on. The loop may not end: it is a partial function.
\<close>

record cbuf =
  cb_text :: sizebuf
  cb_wait :: bool

section \<open>Adding str\<close>

definition Cbuf_Init :: sizebuf where
  "Cbuf_Init = SZ_Alloc 0x4000"

definition Cbuf_AddText :: "u8 list \<Rightarrow> sizebuf \<Rightarrow> sizebuf outcome" where
  "Cbuf_AddText str sb =
     (let len = of_nat (length str) :: u32 in
      if len = 0 then Inr sb
      else if sb_cursize sb + len + 1 < sb_maxsize sb then
        bindE (SZ_Write sb (str @ [0]) len) (\<lambda>sb. SZ_Write sb [10, 0] 1)
      else Inr sb)"

definition Cbuf_InsertText :: "u8 list \<Rightarrow> sizebuf \<Rightarrow> sizebuf outcome" where
  "Cbuf_InsertText str sb =
     (let len = of_nat (length str) :: u32 in
      if len = 0 then Inr sb
      else if sb_cursize sb + len + 1 < sb_maxsize sb then
        (if sb_cursize sb > 0 then
           bindE (peek 0 (unat (sb_cursize sb)) (sb_data sb)) (\<lambda>old.
           bindE (poke (unat (len + 1)) old (sb_data sb)) (\<lambda>d.
           bindE (peek 0 (unat len) str) (\<lambda>new.
           bindE (poke 0 new d) (\<lambda>d.
           bindE (poke (unat len) [10] d) (\<lambda>d.
             Inr (sb\<lparr>sb_data := d, sb_cursize := sb_cursize sb + len + 1\<rparr>))))))
         else bindE (SZ_Write sb (str @ [0]) len) (\<lambda>sb. SZ_Write sb [10, 0] 1))
      else Inr sb)"

definition Cbuf_InsertTextLines :: "u8 list \<Rightarrow> sizebuf \<Rightarrow> sizebuf outcome" where
  "Cbuf_InsertTextLines str sb = Cbuf_InsertText str sb"

section \<open>Running the pending commands\<close>

text \<open>The inner loop: the quote flag and the length where it stops.\<close>

fun scan_line :: "bool \<Rightarrow> nat \<Rightarrow> u8 list \<Rightarrow> bool \<times> nat" where
  "scan_line quoted n [] = (quoted, n)"
| "scan_line quoted n (c # cs) =
     (if c = 34 then scan_line (\<not> quoted) (n + 1) cs
      else if \<not> quoted \<and> c = 59 \<or> c = 10 \<or> c = 13 then (quoted, n + 1)
      else scan_line quoted (n + 1) cs)"

text \<open>
  \<open>start\<close> is the offset of \<^verbatim>\<open>start\<close> in the data. A line of one character and one that is too long only move
  it; any other line is copied, the rest of the text moved to the front, and the line executed.
\<close>

partial_function (option) exec_loop ::
  "(u8 list \<Rightarrow> 'a cbuf_scheme \<Rightarrow> 'a cbuf_scheme run) \<Rightarrow> nat \<Rightarrow> bool \<Rightarrow> 'a cbuf_scheme \<Rightarrow> 'a cbuf_scheme run" where
  "exec_loop exec start quoted c =
     bindT (Some (peek start (unat (sb_cursize (cb_text c))) (sb_data (cb_text c)))) (\<lambda>rest.
       case scan_line quoted 0 rest of (quoted, n) \<Rightarrow>
       bindT
         (if n > 0 then
            (if n = 1 \<or> n > 1023 then
               Some (Inr (start + n, c\<lparr>cb_text := (cb_text c)\<lparr>sb_cursize := sb_cursize (cb_text c) - of_nat n\<rparr>\<rparr>))
             else
               bindT (Some (poke 0 (drop n rest) (sb_data (cb_text c)))) (\<lambda>d.
               bindT (exec (takeWhile (\<lambda>b. b \<noteq> 0) (take (n - 1) rest))
                 (c\<lparr>cb_text := (cb_text c)\<lparr>sb_data := d, sb_cursize := sb_cursize (cb_text c) - of_nat n\<rparr>\<rparr>)) (\<lambda>c.
                 Some (Inr (0, c)))))
          else Some (Inr (start, c)))
         (\<lambda>(start, c).
            if cb_wait c then Some (Inr (c\<lparr>cb_wait := False\<rparr>))
            else if sb_cursize (cb_text c) > 0 then exec_loop exec start quoted c
            else Some (Inr c)))"

definition Cbuf_Execute ::
  "(u8 list \<Rightarrow> 'a cbuf_scheme \<Rightarrow> 'a cbuf_scheme run) \<Rightarrow> 'a cbuf_scheme \<Rightarrow> 'a cbuf_scheme run" where
  "Cbuf_Execute exec c = (if sb_cursize (cb_text c) = 0 then Some (Inr c) else exec_loop exec 0 False c)"

section \<open>The pending str\<close>

definition text_wf :: "sizebuf \<Rightarrow> bool" where
  "text_wf sb \<longleftrightarrow> sz_wf sb \<and> unat (sb_maxsize sb) = length (sb_data sb) \<and> length (sb_data sb) < 2 ^ 31"

definition ends_line :: "u8 list \<Rightarrow> bool" where
  "ends_line str \<longleftrightarrow> str = [] \<or> last str = 10"

lemma Cbuf_Init_ok: "text_wf Cbuf_Init" "sz_contents Cbuf_Init = []" "unat (sb_maxsize Cbuf_Init) = 0x4000"
  by (simp_all add: text_wf_def Cbuf_Init_def SZ_Alloc_def sz_wf_def sz_contents_def)

text \<open>Whether a text has room, with the characters counted without wrap-around.\<close>

definition has_room :: "u8 list \<Rightarrow> sizebuf \<Rightarrow> bool" where
  "has_room str sb \<longleftrightarrow> length (sz_contents sb) + length str + 1 < unat (sb_maxsize sb)"

lemma room_test:
  assumes "text_wf sb" "length str < 2 ^ 31"
  shows "sb_cursize sb + of_nat (length str) + 1 < sb_maxsize sb \<longleftrightarrow> has_room str sb"
    "(of_nat (length str) :: u32) = 0 \<longleftrightarrow> str = []"
    "unat (of_nat (length str) :: u32) = length str"
    "unat (sb_cursize sb) = length (sz_contents sb)"
    "length (sz_contents sb) \<le> length (sb_data sb)"
proof -
  have wf: "sz_wf sb" "unat (sb_maxsize sb) = length (sb_data sb)" "length (sb_data sb) < 2 ^ 31"
    using assms(1) by (auto simp: text_wf_def)
  show t: "unat (of_nat (length str) :: u32) = length str"
    using assms(2) by (simp add: unat_of_nat_u32)
  show "(of_nat (length str) :: u32) = 0 \<longleftrightarrow> str = []"
    using t unat_0_iff [of "of_nat (length str) :: u32"] by auto
  show c: "unat (sb_cursize sb) = length (sz_contents sb)"
    using length_sz_contents [OF wf(1)] by simp
  show l: "length (sz_contents sb) \<le> length (sb_data sb)"
    by (simp add: sz_contents_def)
  have "unat (sb_cursize sb + of_nat (length str)) = length (sz_contents sb) + length str"
    using t c l wf(3) assms(2) by (simp add: unat_u32_add)
  moreover have "unat (sb_cursize sb + of_nat (length str) + 1) = unat (sb_cursize sb + of_nat (length str)) + 1"
    using calculation l wf(3) assms(2) by (subst unat_u32_add) simp_all
  ultimately show "sb_cursize sb + of_nat (length str) + 1 < sb_maxsize sb \<longleftrightarrow> has_room str sb"
    by (simp add: has_room_def word_less_nat_alt)
qed

lemma text_written:
  assumes "text_wf sb" "has_room str sb" "length str < 2 ^ 31" "str \<noteq> []"
  shows "\<exists>sb'. bindE (SZ_Write sb (str @ [0]) (of_nat (length str))) (\<lambda>sb. SZ_Write sb [10, 0] 1) = Inr sb' \<and>
    text_wf sb' \<and> sz_contents sb' = sz_contents sb @ str @ [10] \<and> sb_maxsize sb' = sb_maxsize sb"
proof -
  have wf: "sz_wf sb" "unat (sb_maxsize sb) = length (sb_data sb)" "length (sb_data sb) < 2 ^ 31"
    using assms(1) by (auto simp: text_wf_def)
  have put: "SZ_Write b (xs @ ys) (of_nat (length xs)) = sz_put b xs" if "length xs < 2 ^ 31" for b xs ys
    using that by (simp add: SZ_Write_def sz_put_def peek_def unat_of_nat_u32 split_def)
  have len: "length str + 1 \<le> sz_room sb"
    using assms(2) length_sz_contents [OF wf(1)] by (simp add: sz_room_def has_room_def)
  obtain b where b: "sz_put sb str = Inr b" "sz_wf b" "sz_contents b = sz_contents sb @ str"
    "sz_room b = sz_room sb - length str" "sb_maxsize b = sb_maxsize sb" "length (sb_data b) = length (sb_data sb)"
    using sz_put_append [OF wf(1), of str] len by auto
  moreover have "length [10 :: u8] \<le> sz_room b"
    using b(4) len by simp
  from sz_put_append [OF b(2) this] obtain b' where "sz_put b [10] = Inr b'" "sz_wf b'" "sz_contents b' = sz_contents b @ [10]"
    "sb_maxsize b' = sb_maxsize b" "length (sb_data b') = length (sb_data b)"
    by auto
  ultimately show ?thesis
    using put [of str sb "[0]"] put [of "[10]" b "[0]"] assms(3) wf by (simp add: text_wf_def)
qed

lemma Cbuf_AddText_result:
  assumes "text_wf sb" "length str < 2 ^ 31"
  shows "\<exists>sb'. Cbuf_AddText str sb = Inr sb' \<and> text_wf sb' \<and> sb_maxsize sb' = sb_maxsize sb \<and>
    sz_contents sb' = (if str \<noteq> [] \<and> has_room str sb then sz_contents sb @ str @ [10] else sz_contents sb)"
  using text_written [OF assms(1) _ assms(2)] assms(1) room_test(1,2) [OF assms]
  by (cases "str = []"; cases "has_room str sb") (auto simp: Cbuf_AddText_def Let_def)

lemma Cbuf_InsertText_result:
  assumes "text_wf sb" "length str < 2 ^ 31"
  shows "\<exists>sb'. Cbuf_InsertText str sb = Inr sb' \<and> text_wf sb' \<and> sb_maxsize sb' = sb_maxsize sb \<and>
    sz_contents sb' = (if str \<noteq> [] \<and> has_room str sb then str @ [10] @ sz_contents sb else sz_contents sb)"
proof (cases "str \<noteq> [] \<and> has_room str sb \<and> sz_contents sb \<noteq> []")
  case True
  have wf: "sz_wf sb" "unat (sb_maxsize sb) = length (sb_data sb)" "length (sb_data sb) < 2 ^ 31"
    using assms(1) True by (auto simp: text_wf_def)
  note room = room_test [OF assms]
  let ?old = "sz_contents sb" and ?n = "length str" and ?d = "sb_data sb"
  have r: "length ?old + ?n + 1 < length ?d"
    using True wf(2) by (simp add: has_room_def)
  have n1: "unat (of_nat ?n + 1 :: u32) = ?n + 1"
    using room(3) assms(2) by (subst unat_u32_add) simp_all
  have cur: "unat (sb_cursize sb + of_nat ?n + 1) = length ?old + ?n + 1"
    using room(3,4) assms(2) r wf(3) by (simp add: unat_u32_add)
  have pos: "sb_cursize sb > 0"
    using room(4) True by (simp add: word_less_nat_alt)
  have old: "peek 0 (unat (sb_cursize sb)) ?d = Inr ?old"
    using room(4,5) by (simp add: peek_def sz_contents_def)
  let ?d1 = "take (?n + 1) ?d @ ?old @ drop (?n + 1 + length ?old) ?d"
  let ?d2 = "str @ drop ?n ?d1"
  let ?d3 = "take ?n ?d2 @ [10] @ drop (?n + 1) ?d2"
  have d3: "?d3 = str @ [10] @ ?old @ drop (?n + 1 + length ?old) ?d"
    using r by (simp add: Suc_diff_le)
  have "Cbuf_InsertText str sb = Inr (sb\<lparr>sb_data := ?d3, sb_cursize := sb_cursize sb + of_nat ?n + 1\<rparr>)"
    using True room(1-3) r pos old n1
    by (simp add: Cbuf_InsertText_def Let_def poke_def peek_def)
  then have "Cbuf_InsertText str sb = Inr (sb\<lparr>sb_data := str @ [10] @ ?old @ drop (?n + 1 + length ?old) ?d,
      sb_cursize := sb_cursize sb + of_nat ?n + 1\<rparr>)"
    by (simp only: d3)
  moreover have "sz_contents (sb\<lparr>sb_data := str @ [10] @ ?old @ drop (?n + 1 + length ?old) ?d,
      sb_cursize := sb_cursize sb + of_nat ?n + 1\<rparr>) = str @ [10] @ ?old"
    using cur by (simp add: sz_contents_def [of "sb\<lparr>sb_data := _, sb_cursize := _\<rparr>"] take_Cons')
  ultimately show ?thesis
    using True r cur wf by (auto simp: text_wf_def sz_wf_nat)
next
  case False
  then show ?thesis
    using text_written [OF assms(1) _ assms(2)] assms(1) room_test [OF assms]
    by (cases "str = []"; cases "has_room str sb") (auto simp: Cbuf_InsertText_def Let_def word_less_nat_alt)
qed

section \<open>The commands of a text\<close>

text \<open>
  The specification of the scanner: a text is cut at line ends and, outside quotes, at semicolons;
  the quote flag lives on over line ends. Empty lines and lines of more than 1022 characters are dropped.
\<close>

fun pieces :: "bool \<Rightarrow> u8 list \<Rightarrow> u8 list \<Rightarrow> u8 list list" where
  "pieces quoted acc [] = []"
| "pieces quoted acc (c # cs) =
     (if c = 34 then pieces (\<not> quoted) (acc @ [c]) cs
      else if \<not> quoted \<and> c = 59 \<or> c = 10 \<or> c = 13 then acc # pieces quoted [] cs
      else pieces quoted (acc @ [c]) cs)"

definition runnable :: "u8 list \<Rightarrow> bool" where
  "runnable line \<longleftrightarrow> line \<noteq> [] \<and> length line < 1023"

definition commands_of :: "bool \<Rightarrow> u8 list \<Rightarrow> u8 list list" where
  "commands_of quoted str = filter runnable (pieces quoted [] str)"

lemma scan_line_pieces:
  assumes "str \<noteq> []" "last str = 10"
  obtains quoted' m where "scan_line quoted n str = (quoted', n + m + 1)" "m < length str"
    "pieces quoted acc str = (acc @ take m str) # pieces quoted' [] (drop (m + 1) str)"
proof -
  have "\<exists>quoted' m. scan_line quoted n str = (quoted', n + m + 1) \<and> m < length str \<and>
      pieces quoted acc str = (acc @ take m str) # pieces quoted' [] (drop (m + 1) str)"
    using assms
  proof (induction str arbitrary: quoted n acc)
    case (Cons c cs)
    have next_char: "\<exists>quoted' m. scan_line q (n + 1) cs = (quoted', n + m + 1) \<and> m < length (c # cs) \<and>
        pieces q (acc @ [c]) cs = (acc @ take m (c # cs)) # pieces quoted' [] (drop (m + 1) (c # cs))"
      if cs: "cs \<noteq> []" for q
    proof -
      obtain quoted' m where "scan_line q (n + 1) cs = (quoted', n + 1 + m + 1)" "m < length cs"
          "pieces q (acc @ [c]) cs = ((acc @ [c]) @ take m cs) # pieces quoted' [] (drop (m + 1) cs)"
        using Cons.IH [of q "n + 1" "acc @ [c]"] Cons.prems cs by auto
      then show ?thesis
        by (intro exI [of _ quoted'] exI [of _ "m + 1"]) simp
    qed
    show ?case
    proof (cases "c \<noteq> 34 \<and> (\<not> quoted \<and> c = 59 \<or> c = 10 \<or> c = 13)")
      case True
      then show ?thesis
        by (intro exI [of _ quoted] exI [of _ 0]) auto
    next
      case False
      then have "cs \<noteq> []"
        using Cons.prems by auto
      then show ?thesis
        using next_char [of "\<not> quoted"] next_char [of quoted] False by auto
    qed
  qed simp
  then show ?thesis
    using that by blast
qed

text \<open>One round of the loop, seen from the pending text.\<close>

definition pending :: "nat \<Rightarrow> 'a cbuf_scheme \<Rightarrow> u8 list" where
  "pending start c = take (unat (sb_cursize (cb_text c))) (drop start (sb_data (cb_text c)))"

definition inside :: "nat \<Rightarrow> 'a cbuf_scheme \<Rightarrow> bool" where
  "inside start c \<longleftrightarrow> start + unat (sb_cursize (cb_text c)) \<le> length (sb_data (cb_text c))"

lemma length_pending: "inside start c \<Longrightarrow> length (pending start c) = unat (sb_cursize (cb_text c))"
  by (simp add: pending_def inside_def)

lemma unat_minus_nat: "n \<le> unat (w :: u32) \<Longrightarrow> unat (w - of_nat n) = unat w - n"
  using unat_of_nat_le [of n w] by (simp add: unat_sub word_le_nat_alt)

text \<open>Passing over a line, and running one.\<close>

definition passed :: "nat \<Rightarrow> 'a cbuf_scheme \<Rightarrow> 'a cbuf_scheme" where
  "passed n c = c\<lparr>cb_text := (cb_text c)\<lparr>sb_cursize := sb_cursize (cb_text c) - of_nat n\<rparr>\<rparr>"

definition moved_up :: "nat \<Rightarrow> nat \<Rightarrow> 'a cbuf_scheme \<Rightarrow> 'a cbuf_scheme" where
  "moved_up start n c = (let rest = drop n (pending start c) in
     c\<lparr>cb_text := (cb_text c)\<lparr>sb_data := rest @ drop (length rest) (sb_data (cb_text c)),
       sb_cursize := sb_cursize (cb_text c) - of_nat n\<rparr>\<rparr>)"

lemma pending_passed:
  assumes "inside start c" "n \<le> unat (sb_cursize (cb_text c))"
  shows "pending (start + n) (passed n c) = drop n (pending start c)" "inside (start + n) (passed n c)"
  using assms by (simp_all add: pending_def inside_def passed_def unat_minus_nat drop_take add.commute)

lemma pending_moved_up:
  assumes "inside start c" "n \<le> unat (sb_cursize (cb_text c))"
  shows "pending 0 (moved_up start n c) = drop n (pending start c)" "inside 0 (moved_up start n c)"
    "length (sb_data (cb_text (moved_up start n c))) = length (sb_data (cb_text c))"
  using assms length_pending [OF assms(1)]
  by (simp_all add: pending_def [of 0] inside_def moved_up_def unat_minus_nat Let_def)

lemma exec_loop_step:
  assumes "inside start c" "pending start c \<noteq> []" "last (pending start c) = 10" "0 \<notin> set (pending start c)"
  obtains quoted' m where "m < length (pending start c)"
    "pieces quoted [] (pending start c) = take m (pending start c) # pieces quoted' [] (drop (m + 1) (pending start c))"
    "exec_loop exec start quoted c =
      bindT (if \<not> runnable (take m (pending start c)) then Some (Inr (start + (m + 1), passed (m + 1) c))
             else bindT (exec (take m (pending start c)) (moved_up start (m + 1) c)) (\<lambda>c. Some (Inr (0, c))))
        (\<lambda>(start, c). if cb_wait c then Some (Inr (c\<lparr>cb_wait := False\<rparr>))
           else if sb_cursize (cb_text c) > 0 then exec_loop exec start quoted' c else Some (Inr c))"
proof -
  let ?p = "pending start c"
  obtain quoted' m where m: "scan_line quoted 0 ?p = (quoted', 0 + m + 1)" "m < length ?p"
    "pieces quoted [] ?p = ([] @ take m ?p) # pieces quoted' [] (drop (m + 1) ?p)"
    using scan_line_pieces [OF assms(2,3)] by metis
  have p: "peek start (unat (sb_cursize (cb_text c))) (sb_data (cb_text c)) = Inr ?p"
    using assms(1) by (simp add: peek_def pending_def inside_def)
  have nul: "takeWhile (\<lambda>b. b \<noteq> 0) (take (m + 1 - 1) ?p) = take m ?p"
    using assms(4) by (auto simp: takeWhile_eq_all_conv dest: in_set_takeD)
  have poke: "poke 0 (drop (m + 1) ?p) (sb_data (cb_text c)) =
      Inr (drop (m + 1) ?p @ drop (length (drop (m + 1) ?p)) (sb_data (cb_text c)))"
    using length_pending [OF assms(1)] assms(1) by (simp add: poke_def inside_def)
  have run: "m + 1 = 1 \<or> m + 1 > 1023 \<longleftrightarrow> \<not> runnable (take m ?p)"
    using m(2) by (auto simp: runnable_def)
  have "exec_loop exec start quoted c =
      bindT (if \<not> runnable (take m ?p) then Some (Inr (start + (m + 1), passed (m + 1) c))
             else bindT (exec (take m ?p) (moved_up start (m + 1) c)) (\<lambda>c. Some (Inr (0, c))))
        (\<lambda>(start, c). if cb_wait c then Some (Inr (c\<lparr>cb_wait := False\<rparr>))
           else if sb_cursize (cb_text c) > 0 then exec_loop exec start quoted' c else Some (Inr c))"
    unfolding exec_loop.simps [of exec start quoted c] p bindT_simps m(1) prod.case add_0_left run nul
    using poke by (simp add: passed_def moved_up_def Let_def del: of_nat_Suc)
  then show ?thesis
    using that m(2,3) by simp
qed

text \<open>The commands that leave the buffer and the flag alone, all run in one go.\<close>

lemma exec_loop_quiet:
  assumes "\<And>line c. exec line c = Some (Inr (cbuf.more_update (f line) c))"
  shows "inside start c \<Longrightarrow> pending start c \<noteq> [] \<Longrightarrow> last (pending start c) = 10 \<Longrightarrow> 0 \<notin> set (pending start c) \<Longrightarrow>
    \<not> cb_wait c \<Longrightarrow>
    \<exists>c'. exec_loop exec start quoted c = Some (Inr c') \<and> \<not> cb_wait c' \<and> sb_cursize (cb_text c') = 0 \<and>
      cbuf.more c' = fold f (commands_of quoted (pending start c)) (cbuf.more c)"
proof (induction "length (pending start c)" arbitrary: start quoted c rule: less_induct)
  case less
  let ?p = "pending start c"
  obtain quoted' m where m: "m < length ?p" "pieces quoted [] ?p = take m ?p # pieces quoted' [] (drop (m + 1) ?p)"
    "exec_loop exec start quoted c =
      bindT (if \<not> runnable (take m ?p) then Some (Inr (start + (m + 1), passed (m + 1) c))
             else bindT (exec (take m ?p) (moved_up start (m + 1) c)) (\<lambda>c. Some (Inr (0, c))))
        (\<lambda>(start, c). if cb_wait c then Some (Inr (c\<lparr>cb_wait := False\<rparr>))
           else if sb_cursize (cb_text c) > 0 then exec_loop exec start quoted' c else Some (Inr c))"
    by (rule exec_loop_step [OF less.prems(1-4), where exec = exec and quoted = quoted])
  have le: "m + 1 \<le> unat (sb_cursize (cb_text c))"
    using m(1) length_pending [OF less.prems(1)] by simp
  define start' c1 where "start' = (if runnable (take m ?p) then 0 else start + (m + 1))"
    and "c1 = (if runnable (take m ?p) then cbuf.more_update (f (take m ?p)) (moved_up start (m + 1) c) else passed (m + 1) c)"
  have step: "exec_loop exec start quoted c =
      (if sb_cursize (cb_text c1) > 0 then exec_loop exec start' quoted' c1 else Some (Inr c1))" "\<not> cb_wait c1"
    using m(3) less.prems(5) assms by (simp_all add: start'_def c1_def passed_def moved_up_def Let_def)
  have p1: "pending start' c1 = drop (m + 1) ?p" "inside start' c1"
    using pending_passed [OF less.prems(1) le] pending_moved_up [OF less.prems(1) le]
    by (simp_all add: start'_def c1_def pending_def inside_def)
  have more: "fold f (commands_of quoted ?p) (cbuf.more c) = fold f (commands_of quoted' (drop (m + 1) ?p)) (cbuf.more c1)"
    by (simp add: commands_of_def m(2) c1_def passed_def moved_up_def Let_def)
  have size: "sb_cursize (cb_text c1) = 0 \<longleftrightarrow> drop (m + 1) ?p = []"
    using length_pending [OF p1(2)] p1(1) unat_0_iff [of "sb_cursize (cb_text c1)"] by auto
  show ?case
  proof (cases "drop (m + 1) ?p = []")
    case True
    then show ?thesis
      using step size more by (simp add: commands_of_def)
  next
    case False
    have "length (pending start' c1) < length ?p" "pending start' c1 \<noteq> []" "last (pending start' c1) = 10"
        "0 \<notin> set (pending start' c1)"
      using p1(1) False less.prems(3,4) m(1) by (auto dest: in_set_dropD)
    from less.hyps [OF this(1) p1(2) this(2-4) step(2)] show ?thesis
      using step(1) size False more p1(1) by (auto simp: word_gt_0)
  qed
qed

section \<open>What the loop relies on\<close>

text \<open>
  The contract of running a command: it keeps an invariant that gives a well-formed buffer and that does not
  depend on the text or the flag. Then the loop keeps it too, wherever it stops, and fails only where a command fails.
\<close>

locale command_runner =
  fixes exec :: "u8 list \<Rightarrow> 'a cbuf_scheme \<Rightarrow> 'a cbuf_scheme run"
    and ok :: "'a cbuf_scheme \<Rightarrow> bool"
  assumes ok_text: "ok c \<Longrightarrow> text_wf (cb_text c)"
    and ok_change: "ok c \<Longrightarrow> text_wf t \<Longrightarrow> sb_maxsize t = sb_maxsize (cb_text c) \<Longrightarrow> ok (c\<lparr>cb_text := t, cb_wait := w\<rparr>)"
    and exec_keeps: "ok c \<Longrightarrow> exec line c = Some (Inr c') \<Longrightarrow> ok c'"
begin

lemma ok_passed: "ok c \<Longrightarrow> n \<le> unat (sb_cursize (cb_text c)) \<Longrightarrow> ok (passed n c)"
  using ok_change [of c "cb_text (passed n c)" "cb_wait c"] ok_text [of c]
  by (auto simp: passed_def text_wf_def sz_wf_nat unat_minus_nat)

lemma ok_moved_up: "ok c \<Longrightarrow> inside start c \<Longrightarrow> n \<le> unat (sb_cursize (cb_text c)) \<Longrightarrow> ok (moved_up start n c)"
  using ok_change [of c "cb_text (moved_up start n c)" "cb_wait c"] ok_text [of c] pending_moved_up(3) [of start c n]
  by (auto simp: moved_up_def text_wf_def sz_wf_nat unat_minus_nat Let_def)

lemma ok_wait: "ok c \<Longrightarrow> ok (c\<lparr>cb_wait := w\<rparr>)"
  using ok_change [of c "cb_text c" w] ok_text by simp

lemma ok_inside: "ok c \<Longrightarrow> inside 0 c"
  using ok_text [of c] by (simp add: text_wf_def sz_wf_nat inside_def)

lemma scan_line_bound: "scan_line quoted n str = (quoted', k) \<Longrightarrow> n \<le> k \<and> k \<le> n + length str"
  by (induction str arbitrary: quoted n) (force split: if_splits)+

definition fine :: "'a cbuf_scheme outcome \<Rightarrow> bool" where
  "fine res \<longleftrightarrow> (case res of Inr c \<Rightarrow> ok c | Inl e \<Rightarrow> \<exists>line c. ok c \<and> exec line c = Some (Inl e))"

lemma loop_fine:
  "exec_loop run start quoted c = Some res \<Longrightarrow> run = exec \<Longrightarrow> ok c \<Longrightarrow> inside start c \<Longrightarrow> fine res"
proof (induction rule: exec_loop.raw_induct [rotated, consumes 1, case_names step])
  case (step loop run start quoted c res)
  have p: "peek start (unat (sb_cursize (cb_text c))) (sb_data (cb_text c)) = Inr (pending start c)"
    using step.prems(3) by (simp add: peek_def pending_def inside_def)
  obtain q n where scan: "scan_line quoted 0 (pending start c) = (q, n)"
    by (cases "scan_line quoted 0 (pending start c)")
  then have n: "n \<le> unat (sb_cursize (cb_text c))"
    using scan_line_bound length_pending [OF step.prems(3)] by fastforce
  let ?next = "\<lambda>(start, c). if cb_wait c then Some (Inr (c\<lparr>cb_wait := False\<rparr>))
    else if sb_cursize (cb_text c) > 0 then loop run start q c else Some (Inr c)"
  have next_fine: "fine res" if "?next (start1, c1) = Some res" "ok c1" "inside start1 c1" for start1 c1
    using that step.IH step.prems(1) ok_wait by (auto simp: fine_def split: if_splits)
  have moved: "poke 0 (drop n (pending start c)) (sb_data (cb_text c)) =
      Inr (drop n (pending start c) @ drop (length (drop n (pending start c))) (sb_data (cb_text c)))"
    using length_pending [OF step.prems(3)] step.prems(3) by (simp add: poke_def inside_def)
  consider (idle) "n = 0" | (pass) "n > 0" "n = 1 \<or> n > 1023" | (run) "n > 0" "\<not> (n = 1 \<or> n > 1023)"
    by blast
  then show ?case
  proof cases
    case idle
    then have "?next (start, c) = Some res"
      using step.hyps p scan by simp
    then show ?thesis
      using next_fine step.prems(2,3) by blast
  next
    case pass
    then have "?next (start + n, passed n c) = Some res"
      using step.hyps p scan by (simp add: passed_def)
    then show ?thesis
      using next_fine ok_passed [OF step.prems(2) n] pending_passed(2) [OF step.prems(3) n] by blast
  next
    case run
    let ?line = "takeWhile (\<lambda>b. b \<noteq> 0) (take (n - 1) (pending start c))"
    have ran: "bindT (exec ?line (moved_up start n c)) (\<lambda>c. ?next (0, c)) = Some res"
      using step.hyps p scan run moved step.prems(1) by (simp add: moved_up_def Let_def bindT_assoc)
    have okm: "ok (moved_up start n c)"
      using ok_moved_up [OF step.prems(2,3) n] .
    show ?thesis
    proof (cases "exec ?line (moved_up start n c)")
      case (Some r)
      then show ?thesis
      proof (cases r)
        case (Inl e)
        then show ?thesis
          using Some ran okm by (auto simp: fine_def intro!: exI [of _ ?line] exI [of _ "moved_up start n c"])
      next
        case (Inr c1)
        then show ?thesis
          using Some ran next_fine exec_keeps [OF okm] ok_inside by auto
      qed
    qed (use ran in simp)
  qed
qed

lemma Execute_fine: "Cbuf_Execute exec c = Some res \<Longrightarrow> ok c \<Longrightarrow> fine res"
  using loop_fine [OF _ refl _ ok_inside] by (auto simp: Cbuf_Execute_def fine_def split: if_splits)

end

section \<open>Properties\<close>

text \<open>
  The pending text is a queue of lines with two entrances: \<^verbatim>\<open>Cbuf_AddText\<close> puts a line at its end and
  \<^verbatim>\<open>Cbuf_InsertText\<close> in front, exactly when it fits with a byte to spare; otherwise the text is unchanged.
  Neither fails, and a text that consists of whole lines stays one.
\<close>

theorem Cbuf_line_queue:
  assumes "text_wf sb" "length str < 2 ^ 31"
  shows "\<exists>added inserted. Cbuf_AddText str sb = Inr added \<and> Cbuf_InsertText str sb = Inr inserted \<and>
    text_wf added \<and> text_wf inserted \<and>
    (sz_contents added, sz_contents inserted) =
      (if str \<noteq> [] \<and> length (sz_contents sb) + length str + 1 < unat (sb_maxsize sb)
       then (sz_contents sb @ str @ [10], str @ [10] @ sz_contents sb) else (sz_contents sb, sz_contents sb)) \<and>
    (ends_line (sz_contents sb) \<longrightarrow> ends_line (sz_contents added) \<and> ends_line (sz_contents inserted))"
  using Cbuf_AddText_result [OF assms] Cbuf_InsertText_result [OF assms]
  by (auto simp: has_room_def ends_line_def)

theorem Cbuf_line_queue_witness:
  "\<exists>added. Cbuf_AddText (cstr ''map'') Cbuf_Init = Inr added \<and> sz_contents added = cstr ''map'' @ [10]"
  using Cbuf_line_queue [OF Cbuf_Init_ok(1), of "cstr ''map''"] by (auto simp: Cbuf_Init_ok(2,3) cstr_def)


definition sample_cbuf :: "u8 list \<Rightarrow> 'a \<Rightarrow> 'a cbuf_scheme" where
  "sample_cbuf str m = cbuf.extend \<lparr>cb_text = \<lparr>sb_overflow = 0, sb_data = str @ replicate (0x4000 - length str) 0,
     sb_maxsize = 0x4000, sb_cursize = of_nat (length str)\<rparr>, cb_wait = False\<rparr> m"


text \<open>
  A wait that is already set loses text: when the flag is set before the frame (by a \<^verbatim>\<open>wait\<close> that came from
  elsewhere) and the pending text starts with an empty line, the loop stops with the length reduced but nothing
  moved, so that the text keeps its empty line and loses its last character, the end of its last line.
\<close>

theorem waiting_loses_the_end:
  assumes "text_wf (cb_text c)" "sz_contents (cb_text c) = 10 # str" "cb_wait c"
  shows "\<exists>c'. Cbuf_Execute exec c = Some (Inr c') \<and> sz_contents (cb_text c') = butlast (10 # str) \<and> \<not> cb_wait c'"
proof -
  have len: "unat (sb_cursize (cb_text c)) = length str + 1" "length str + 1 \<le> length (sb_data (cb_text c))"
    using length_sz_contents [of "cb_text c"] assms(1,2) by (auto simp: text_wf_def sz_wf_nat)
  then have pos: "sb_cursize (cb_text c) \<noteq> 0" "sb_cursize (cb_text c) > 0"
    using unat_0_iff [of "sb_cursize (cb_text c)"] by (auto simp: word_gt_0)
  have "peek 0 (unat (sb_cursize (cb_text c))) (sb_data (cb_text c)) = Inr (10 # str)"
    using len assms(2) by (simp add: peek_def sz_contents_def)
  then have "Cbuf_Execute exec c = Some (Inr ((passed 1 c)\<lparr>cb_wait := False\<rparr>))"
    using pos(1) assms(3) by (simp add: Cbuf_Execute_def exec_loop.simps [of exec 0 False c] passed_def)
  moreover have "sz_contents (cb_text (passed 1 c)) = butlast (10 # str)"
    using assms(2) len unat_minus_nat [of 1 "sb_cursize (cb_text c)"]
    by (simp add: passed_def sz_contents_def butlast_take flip: assms(2))
  ultimately show ?thesis
    by simp
qed

theorem waiting_loses_the_end_witness:
  "\<exists>c'. Cbuf_Execute (\<lambda>line c. None) ((sample_cbuf (10 # cstr ''quit'' @ [10]) ())\<lparr>cb_wait := True\<rparr>) = Some (Inr c') \<and>
    sz_contents (cb_text c') = 10 # cstr ''quit''"
  using waiting_loses_the_end [of "(sample_cbuf (10 # cstr ''quit'' @ [10]) ())\<lparr>cb_wait := True\<rparr>" "cstr ''quit'' @ [10]" "\<lambda>line c. None"]
  by (auto simp: sample_cbuf_def cbuf.defs text_wf_def sz_wf_nat sz_contents_def cstr_def)

end
