(* ===== verification/Avl.thy ===== *)
theory Avl
  imports Prelude
begin

text \<open>
  The search trees of \<^verbatim>\<open>libcprops\<close> (\<^verbatim>\<open>avl.c\<close>) that hold the console variables and the bans. No node is
  reached in two ways, so a tree is a value; \<open>Null\<close> is the null pointer, and following it is a fault. The
  trees are used without locks, with one value for a key and without a pool of nodes; a node is always
  allocated. Values are of any type, and \<open>at_null\<close> says which of them are null.
\<close>

section \<open>Nodes and rotations\<close>

datatype ('k, 'v) avlnode =
  Null
| Node (avl_left: "('k, 'v) avlnode") (avl_key: 'k) (avl_value: 'v) (avl_balance: int) (avl_right: "('k, 'v) avlnode")
where
  "avl_balance Null = 0"

record ('k, 'v) avltree =
  at_root :: "('k, 'v) avlnode"
  at_items :: int
  at_cmp :: "'k \<Rightarrow> 'k \<Rightarrow> int"
  at_copy :: bool
  at_null :: "'v \<Rightarrow> bool"

fun left_rotate :: "('k, 'v) avlnode \<Rightarrow> ('k, 'v) avlnode outcome" where
  "left_rotate (Node l1 pk pv pb (Node l2 qk qv qb l3)) =
     (let pb' = pb - (1 + max 0 qb); qb' = qb - (1 - min 0 pb') in
      Inr (Node (Node l1 pk pv pb' l2) qk qv qb' l3))"
| "left_rotate n = Inl BadPointer"

fun right_rotate :: "('k, 'v) avlnode \<Rightarrow> ('k, 'v) avlnode outcome" where
  "right_rotate (Node (Node l1 qk qv qb l2) pk pv pb l3) =
     (let pb' = pb + (1 - min 0 qb); qb' = qb + (1 + max 0 pb') in
      Inr (Node l1 qk qv qb' (Node l2 pk pv pb' l3)))"
| "right_rotate n = Inl BadPointer"

fun left_right_rotate :: "('k, 'v) avlnode \<Rightarrow> ('k, 'v) avlnode outcome" where
  "left_right_rotate (Node (Node l1 qk qv qb (Node l2 rk rv rb l3)) pk pv pb l4) =
     (let qb' = qb - (1 + max 0 rb);
          pb' = pb + (1 - min (min 0 rb - 1) (rb + qb'));
          rb' = rb + (max 0 pb' + min 0 qb') in
      Inr (Node (Node l1 qk qv qb' l2) rk rv rb' (Node l3 pk pv pb' l4)))"
| "left_right_rotate n = Inl BadPointer"

fun right_left_rotate :: "('k, 'v) avlnode \<Rightarrow> ('k, 'v) avlnode outcome" where
  "right_left_rotate (Node l1 pk pv pb (Node (Node l2 rk rv rb l3) qk qv qb l4)) =
     (let qb' = qb + (1 - min 0 rb);
          pb' = pb - (1 + max (max 0 rb + 1) (rb + qb'));
          rb' = rb + (max 0 qb' + min 0 pb') in
      Inr (Node (Node l1 pk pv pb' l2) rk rv rb' (Node l3 qk qv qb' l4)))"
| "right_left_rotate n = Inl BadPointer"

fun rebalance :: "('k, 'v) avlnode \<Rightarrow> ('k, 'v) avlnode outcome" where
  "rebalance Null = Inl BadPointer"
| "rebalance (Node l k v b r) =
     (if b = -2 then
        (if l = Null then Inl BadPointer
         else if avl_balance l = 1 then left_right_rotate (Node l k v b r)
         else right_rotate (Node l k v b r))
      else if b = 2 then
        (if r = Null then Inl BadPointer
         else if avl_balance r = -1 then right_left_rotate (Node l k v b r)
         else left_rotate (Node l k v b r))
      else Inr (Node l k v b r))"

section \<open>Operations\<close>

text \<open>In a tree that copies, a null value is taken for a failed copy.\<close>

definition create_avlnode :: "('k, 'v) avltree \<Rightarrow> 'k \<Rightarrow> 'v \<Rightarrow> ('k, 'v) avlnode option" where
  "create_avlnode t key val = (if at_copy t \<and> at_null t val then None else Some (Node Null key val 0 Null))"

text \<open>
  The end of an insertion at a node with the balance \<open>before\<close> at its start: the node, whether the parent's
  balance changes, the value that is returned (\<open>None\<close> when no node was created), and whether an item was added.
\<close>

definition settle :: "int \<Rightarrow> ('k, 'v) avlnode \<Rightarrow> 'v option \<Rightarrow> bool \<Rightarrow> (('k, 'v) avlnode \<times> bool \<times> 'v option \<times> bool) outcome" where
  "settle before n res added =
     bindE (rebalance n) (\<lambda>n'. Inr (n', avl_balance n \<noteq> 0 \<and> before = 0, res, added))"

fun avl_insert ::
  "('k, 'v) avltree \<Rightarrow> 'k \<Rightarrow> 'v \<Rightarrow> ('k, 'v) avlnode \<Rightarrow> (('k, 'v) avlnode \<times> bool \<times> 'v option \<times> bool) outcome" where
  "avl_insert t key val Null = Inl BadPointer"
| "avl_insert t key val (Node l k v b r) =
     (let c = at_cmp t k key in
      if c = 0 then Inr (Node l key val b r, False, Some val, False)
      else if c > 0 then
        (if l \<noteq> Null then
           bindE (avl_insert t key val l) (\<lambda>(l', up, res, added).
             settle b (Node l' k v (if up then b - 1 else b) r) res added)
         else (case create_avlnode t key val of
             None \<Rightarrow> Inr (Node l k v b r, False, None, False)
           | Some n \<Rightarrow> settle b (Node n k v (b - 1) r) (Some val) True))
      else
        (if r \<noteq> Null then
           bindE (avl_insert t key val r) (\<lambda>(r', up, res, added).
             settle b (Node l k v (if up then b + 1 else b) r') res added)
         else (case create_avlnode t key val of
             None \<Rightarrow> Inr (Node l k v b r, False, None, False)
           | Some n \<Rightarrow> settle b (Node l k v (b + 1) n) (Some val) True)))"

text \<open>The results of the operations of the tree are \<open>None\<close> for a null pointer and the value otherwise.\<close>

definition non_null :: "('k, 'v) avltree \<Rightarrow> 'v option \<Rightarrow> 'v option" where
  "non_null t res = (case res of None \<Rightarrow> None | Some v \<Rightarrow> if at_null t v then None else Some v)"

definition cp_avltree_create :: "('k \<Rightarrow> 'k \<Rightarrow> int) \<Rightarrow> bool \<Rightarrow> ('v \<Rightarrow> bool) \<Rightarrow> ('k, 'v) avltree" where
  "cp_avltree_create cmp copies null = \<lparr>at_root = Null, at_items = 0, at_cmp = cmp, at_copy = copies, at_null = null\<rparr>"

definition cp_avltree_insert :: "('k, 'v) avltree \<Rightarrow> 'k \<Rightarrow> 'v \<Rightarrow> ('v option \<times> ('k, 'v) avltree) outcome" where
  "cp_avltree_insert t key val =
     (if at_root t \<noteq> Null then
        bindE (avl_insert t key val (at_root t)) (\<lambda>(n, up, res, added).
          Inr (non_null t res, t\<lparr>at_root := n, at_items := at_items t + (if added then 1 else 0)\<rparr>))
      else (case create_avlnode t key val of
          None \<Rightarrow> Inr (None, t)
        | Some n \<Rightarrow> Inr (non_null t (Some val), t\<lparr>at_root := n, at_items := at_items t + 1\<rparr>)))"

fun get_loop :: "('k \<Rightarrow> 'k \<Rightarrow> int) \<Rightarrow> 'k \<Rightarrow> ('k, 'v) avlnode \<Rightarrow> 'v option" where
  "get_loop cmp key Null = None"
| "get_loop cmp key (Node l k v b r) =
     (let c = cmp k key in if c = 0 then Some v else if c > 0 then get_loop cmp key l else get_loop cmp key r)"

definition cp_avltree_get :: "('k, 'v) avltree \<Rightarrow> 'k \<Rightarrow> 'v option" where
  "cp_avltree_get t key = non_null t (get_loop (at_cmp t) key (at_root t))"

definition cp_avltree_count :: "('k, 'v) avltree \<Rightarrow> int" where
  "cp_avltree_count t = at_items t"

text \<open>
  The search for the node that takes the place of a deleted one, below the slot \<open>surrogate\<close>: what is left there, the
  content of the node, and the flag for a subtree that has become lower, already corrected at every
  node passed, except the deleted one.
\<close>

fun step_delete_right :: "('k, 'v) avlnode \<Rightarrow> (('k, 'v) avlnode \<times> ('k \<times> 'v) \<times> bool) outcome" where
  "step_delete_right Null = Inl BadPointer"
| "step_delete_right (Node l k v b r) =
     (if r = Null then Inr (l, (k, v), True)
      else bindE (step_delete_right r) (\<lambda>(r', kv, lower).
        if lower then bindE (rebalance (Node l k v (b - 1) r')) (\<lambda>n.
          Inr (n, kv, \<not> (avl_balance n = 1 \<or> avl_balance n = -1)))
        else Inr (Node l k v b r', kv, False)))"

fun step_delete_left :: "('k, 'v) avlnode \<Rightarrow> (('k, 'v) avlnode \<times> ('k \<times> 'v) \<times> bool) outcome" where
  "step_delete_left Null = Inl BadPointer"
| "step_delete_left (Node l k v b r) =
     (if l = Null then Inr (r, (k, v), True)
      else bindE (step_delete_left l) (\<lambda>(l', kv, lower).
        if lower then bindE (rebalance (Node l' k v (b + 1) r)) (\<lambda>n.
          Inr (n, kv, \<not> (avl_balance n = 1 \<or> avl_balance n = -1)))
        else Inr (Node l' k v b r, kv, False)))"

text \<open>The correction at the deleted node, whose content is the surrogate's now.\<close>

definition step_delete_end :: "('k, 'v) avlnode \<Rightarrow> int \<Rightarrow> bool \<Rightarrow> (('k, 'v) avlnode \<times> bool) outcome" where
  "step_delete_end n b' lower =
     bindE (if lower then rebalance (case n of Null \<Rightarrow> Null | Node l k v b r \<Rightarrow> Node l k v b' r) else Inr n) (\<lambda>n.
       Inr (n, lower \<and> \<not> (avl_balance n = 1 \<or> avl_balance n = -1)))"

fun avl_delete ::
  "('k \<Rightarrow> 'k \<Rightarrow> int) \<Rightarrow> 'k \<Rightarrow> ('k, 'v) avlnode \<Rightarrow> (('k, 'v) avlnode \<times> 'v option \<times> bool) outcome" where
  "avl_delete cmp key Null = Inr (Null, None, False)"
| "avl_delete cmp key (Node l k v b r) =
     (let c = cmp k key in
      if c > 0 then
        bindE (avl_delete cmp key l) (\<lambda>(l', res, lower).
        bindE (rebalance (Node l' k v (if lower then b + 1 else b) r)) (\<lambda>n.
          Inr (n, res, lower \<and> avl_balance n = 0)))
      else if c < 0 then
        bindE (avl_delete cmp key r) (\<lambda>(r', res, lower).
        bindE (rebalance (Node l k v (if lower then b - 1 else b) r')) (\<lambda>n.
          Inr (n, res, lower \<and> avl_balance n = 0)))
      else if l = Null then Inr (r, Some v, True)
      else if r = Null then Inr (l, Some v, True)
      else if b > 0 then
        bindE (step_delete_left r) (\<lambda>(r', (sk, sv), lower).
        bindE (step_delete_end (Node l sk sv b r') (b - 1) lower) (\<lambda>(n, lower). Inr (n, Some v, lower)))
      else
        bindE (step_delete_right l) (\<lambda>(l', (sk, sv), lower).
        bindE (step_delete_end (Node l' sk sv b r) (b + 1) lower) (\<lambda>(n, lower). Inr (n, Some v, lower))))"

definition cp_avltree_delete :: "('k, 'v) avltree \<Rightarrow> 'k \<Rightarrow> ('v option \<times> ('k, 'v) avltree) outcome" where
  "cp_avltree_delete t key =
     bindE (avl_delete (at_cmp t) key (at_root t)) (\<lambda>(n, res, lower).
       Inr (non_null t res, t\<lparr>at_root := n, at_items := at_items t - (if res = None then 0 else 1)\<rparr>))"

text \<open>The visit in order, with a callback that ends it by returning true.\<close>

fun avl_scan_in_order :: "('k \<Rightarrow> 'v \<Rightarrow> 's \<Rightarrow> ('s \<times> bool) outcome) \<Rightarrow> ('k, 'v) avlnode \<Rightarrow> 's \<Rightarrow> ('s \<times> bool) outcome" where
  "avl_scan_in_order f Null s = Inr (s, False)"
| "avl_scan_in_order f (Node l k v b r) s =
     bindE (avl_scan_in_order f l s) (\<lambda>(s, rc). if rc then Inr (s, True) else
     bindE (f k v s) (\<lambda>(s, rc). if rc then Inr (s, True) else avl_scan_in_order f r s))"

definition cp_avltree_callback :: "('k, 'v) avltree \<Rightarrow> ('k \<Rightarrow> 'v \<Rightarrow> 's \<Rightarrow> ('s \<times> bool) outcome) \<Rightarrow> 's \<Rightarrow> ('s \<times> bool) outcome" where
  "cp_avltree_callback t f s = avl_scan_in_order f (at_root t) s"

text \<open>The same visit of a list.\<close>

fun visit :: "('k \<Rightarrow> 'v \<Rightarrow> 's \<Rightarrow> ('s \<times> bool) outcome) \<Rightarrow> ('k \<times> 'v) list \<Rightarrow> 's \<Rightarrow> ('s \<times> bool) outcome" where
  "visit f [] s = Inr (s, False)"
| "visit f ((k, v) # xs) s = bindE (f k v s) (\<lambda>(s, rc). if rc then Inr (s, True) else visit f xs s)"

lemma visit_append:
  "visit f (xs @ ys) s = bindE (visit f xs s) (\<lambda>(s, rc). if rc then Inr (s, True) else visit f ys s)"
proof (induction f xs s rule: visit.induct)
  case (2 f k v xs s)
  then show ?case
    by (cases "f k v s") (auto split: prod.splits)
qed simp

section \<open>Balance\<close>

fun inorder :: "('k, 'v) avlnode \<Rightarrow> ('k \<times> 'v) list" where
  "inorder Null = []"
| "inorder (Node l k v b r) = inorder l @ (k, v) # inorder r"

fun ht :: "('k, 'v) avlnode \<Rightarrow> int" where
  "ht Null = 0"
| "ht (Node l k v b r) = 1 + max (ht l) (ht r)"

fun avl_ok :: "('k, 'v) avlnode \<Rightarrow> bool" where
  "avl_ok Null = True"
| "avl_ok (Node l k v b r) \<longleftrightarrow> b = ht r - ht l \<and> \<bar>b\<bar> \<le> 1 \<and> avl_ok l \<and> avl_ok r"

lemma scan_in_order: "avl_scan_in_order f n s = visit f (inorder n) s"
proof (induction n arbitrary: s)
  case (Node l k v b r)
  then show ?case
    by (simp add: visit_append cong: if_cong)
qed simp

lemma ht_nonneg: "0 \<le> ht n"
  by (induction n) auto

lemma ht_0_iff [simp]: "ht n = 0 \<longleftrightarrow> n = Null"
proof (cases n)
  case (Node l k v b r)
  have "0 \<le> max (ht l) (ht r)"
    using ht_nonneg [of l] by simp
  then show ?thesis
    using Node by simp
qed simp

declare ht_nonneg [simp]

lemma ht_pos_iff [simp]: "0 < ht n \<longleftrightarrow> n \<noteq> Null"
  using ht_0_iff [of n] ht_nonneg [of n] by linarith

lemma balance_small: "avl_ok n \<Longrightarrow> \<bar>avl_balance n\<bar> \<le> 1"
  by (cases n) auto

text \<open>
  A node that is out of balance by at most two is put right; the balance of the result tells whether it has become lower.
\<close>

lemma rebalance_ok:
  assumes "avl_ok l" "avl_ok r" "b = ht r - ht l" "\<bar>b\<bar> \<le> 2"
  obtains n where "rebalance (Node l k v b r) = Inr n" "avl_ok n" "n \<noteq> Null" "inorder n = inorder l @ (k, v) # inorder r"
    "\<bar>b\<bar> \<le> 1 \<Longrightarrow> n = Node l k v b r"
    "\<bar>b\<bar> = 2 \<Longrightarrow> ht n = max (ht l) (ht r) + (if avl_balance n = 0 then 0 else 1)"
    "b = -2 \<Longrightarrow> avl_balance l \<noteq> 0 \<Longrightarrow> avl_balance n = 0"
    "b = 2 \<Longrightarrow> avl_balance r \<noteq> 0 \<Longrightarrow> avl_balance n = 0"
proof -
  consider "\<bar>b\<bar> \<le> 1" | "b = -2" | "b = 2"
    using assms(4) by linarith
  then show ?thesis
  proof cases
    case 1
    then have "b \<noteq> -2" "b \<noteq> 2"
      by auto
    then have "rebalance (Node l k v b r) = Inr (Node l k v b r)"
      by simp
    then show ?thesis
      using 1 assms by (intro that [of "Node l k v b r"]) auto
  next
    case 2
    then have lh: "ht l = ht r + 2"
      using assms(3) by simp
    then obtain l1 qk qv qb m where l: "l = Node l1 qk qv qb m"
      using ht_nonneg [of r] by (cases l) auto
    show ?thesis
    proof (cases "qb = 1")
      case True
      then have "ht m = ht l1 + 1"
        using assms(1) l by simp
      then obtain l2 rk rv rb l3 where m: "m = Node l2 rk rv rb l3"
        using ht_nonneg [of l1] by (cases m) auto
      show ?thesis
        using that [of "Node (Node l1 qk qv (if rb = 1 then -1 else 0) l2) rk rv 0 (Node l3 k v (if rb = -1 then 1 else 0) r)"]
          assms 2 True lh l m by (auto simp: Let_def max_def min_def split: if_splits)
    next
      case False
      then show ?thesis
        using that [of "Node l1 qk qv (if qb = 0 then 1 else 0) (Node m k v (if qb = 0 then -1 else 0) r)"]
          assms 2 lh l by (auto simp: Let_def max_def min_def split: if_splits)
    qed
  next
    case 3
    then have rh: "ht r = ht l + 2"
      using assms(3) by simp
    then obtain m qk qv qb l4 where r: "r = Node m qk qv qb l4"
      using ht_nonneg [of l] by (cases r) auto
    show ?thesis
    proof (cases "qb = -1")
      case True
      then have "ht m = ht l4 + 1"
        using assms(2) r by simp
      then obtain l2 rk rv rb l3 where m: "m = Node l2 rk rv rb l3"
        using ht_nonneg [of l4] by (cases m) auto
      show ?thesis
        using that [of "Node (Node l k v (if rb = 1 then -1 else 0) l2) rk rv 0 (Node l3 qk qv (if rb = -1 then 1 else 0) l4)"]
          assms 3 True rh r m by (auto simp: Let_def max_def min_def split: if_splits)
    next
      case False
      then show ?thesis
        using that [of "Node (Node l k v (if qb = 0 then 1 else 0) m) qk qv (if qb = 0 then -1 else 0) l4"]
          assms 3 rh r by (auto simp: Let_def max_def min_def split: if_splits)
    qed
  qed
qed

text \<open>Insertion of a pair that is not refused.\<close>

lemma settle_ok:
  assumes "avl_ok l" "avl_ok r" "b' = ht r - ht l" "\<bar>b'\<bar> \<le> 2"
    "\<bar>b'\<bar> = 2 \<Longrightarrow> before \<noteq> 0 \<and> (b' = -2 \<longrightarrow> avl_balance l \<noteq> 0) \<and> (b' = 2 \<longrightarrow> avl_balance r \<noteq> 0)"
  obtains n where "settle before (Node l k v b' r) res added = Inr (n, b' \<noteq> 0 \<and> before = 0, res, added)"
    "avl_ok n" "n \<noteq> Null" "inorder n = inorder l @ (k, v) # inorder r"
    "ht n = max (ht l) (ht r) + (if \<bar>b'\<bar> = 2 then 0 else 1)" "b' \<noteq> 0 \<and> before = 0 \<Longrightarrow> avl_balance n \<noteq> 0"
proof -
  obtain n where n: "rebalance (Node l k v b' r) = Inr n" "avl_ok n" "n \<noteq> Null" "inorder n = inorder l @ (k, v) # inorder r"
    "\<bar>b'\<bar> \<le> 1 \<Longrightarrow> n = Node l k v b' r"
    "\<bar>b'\<bar> = 2 \<Longrightarrow> ht n = max (ht l) (ht r) + (if avl_balance n = 0 then 0 else 1)"
    "b' = -2 \<Longrightarrow> avl_balance l \<noteq> 0 \<Longrightarrow> avl_balance n = 0" "b' = 2 \<Longrightarrow> avl_balance r \<noteq> 0 \<Longrightarrow> avl_balance n = 0"
    using rebalance_ok [OF assms(1-4)] by blast
  have "avl_balance n = 0" if "\<bar>b'\<bar> = 2"
    using that assms(5) n(7,8) by linarith
  then have "ht n = max (ht l) (ht r) + (if \<bar>b'\<bar> = 2 then 0 else 1)"
    using n(5,6) assms(4) by (cases "\<bar>b'\<bar> = 2") auto
  moreover have "avl_balance n \<noteq> 0" if "b' \<noteq> 0 \<and> before = 0"
  proof -
    have "\<bar>b'\<bar> \<le> 1"
      using that assms(4,5) by linarith
    then show ?thesis
      using that n(5) by simp
  qed
  ultimately show ?thesis
    using n(1-4) by (intro that [of n]) (simp_all add: settle_def)
qed

text \<open>A tree of height \<open>h\<close> has at least \<open>2 ^ (h div 2) - 1\<close> items.\<close>

lemma avl_height: "avl_ok n \<Longrightarrow> 2 ^ nat (ht n div 2) \<le> length (inorder n) + 1"
proof (induction n)
  case (Node l k v b r)
  let ?h = "ht (Node l k v b r)"
  have ih: "2 ^ nat (ht l div 2) \<le> length (inorder l) + 1" "2 ^ nat (ht r div 2) \<le> length (inorder r) + 1"
    using Node by auto
  have low: "?h - 2 \<le> ht l" "?h - 2 \<le> ht r"
    using Node.prems by auto
  show ?case
  proof (cases "?h < 2")
    case True
    then have "?h div 2 = 0"
      using ht_nonneg [of l] ht_nonneg [of r] by (auto simp: max_def)
    then show ?thesis
      by (simp del: ht.simps)
  next
    case False
    have "(2::nat) ^ nat (?h div 2) = 2 * 2 ^ nat ((?h - 2) div 2)"
    proof -
      have "nat (?h div 2) = Suc (nat ((?h - 2) div 2))"
        using False by linarith
      then show ?thesis
        by simp
    qed
    moreover have "(2::nat) ^ nat ((?h - 2) div 2) \<le> 2 ^ nat (ht l div 2)" "(2::nat) ^ nat ((?h - 2) div 2) \<le> 2 ^ nat (ht r div 2)"
      using low by (intro power_increasing nat_mono zdiv_mono1; simp)+
    ultimately show ?thesis
      using ih by (simp del: ht.simps power_increasing_iff)
  qed
qed simp

text \<open>The end of a deletion: a subtree has become lower by one, or not.\<close>

lemma shrink_ok:
  assumes "avl_ok l" "avl_ok r" "b' = ht r - ht l" "\<bar>b'\<bar> \<le> 2" "h = 1 + max (ht l) (ht r) + (if lower \<and> \<bar>b'\<bar> \<noteq> 1 \<and> \<bar>b'\<bar> \<noteq> 2 then 1 else 0)"
    "\<bar>b'\<bar> = 2 \<Longrightarrow> lower"
  obtains n where "rebalance (Node l k v b' r) = Inr n" "avl_ok n" "n \<noteq> Null" "inorder n = inorder l @ (k, v) # inorder r"
    "h = ht n + (if lower \<and> avl_balance n = 0 then 1 else 0)"
    "(lower \<and> \<not> (avl_balance n = 1 \<or> avl_balance n = -1)) = (lower \<and> avl_balance n = 0)"
proof -
  obtain n where n: "rebalance (Node l k v b' r) = Inr n" "avl_ok n" "n \<noteq> Null" "inorder n = inorder l @ (k, v) # inorder r"
    "\<bar>b'\<bar> \<le> 1 \<Longrightarrow> n = Node l k v b' r"
    "\<bar>b'\<bar> = 2 \<Longrightarrow> ht n = max (ht l) (ht r) + (if avl_balance n = 0 then 0 else 1)"
    using rebalance_ok [OF assms(1-4)] by blast
  have "h = ht n + (if lower \<and> avl_balance n = 0 then 1 else 0)"
  proof (cases "\<bar>b'\<bar> = 2")
    case True
    then show ?thesis
      using n(6) assms(5,6) by simp
  next
    case False
    then have "\<bar>b'\<bar> \<le> 1"
      using assms(4) by linarith
    then show ?thesis
      using n(5) False assms(5) by auto
  qed
  moreover have "(lower \<and> \<not> (avl_balance n = 1 \<or> avl_balance n = -1)) = (lower \<and> avl_balance n = 0)"
    using balance_small [OF n(2)] by linarith
  ultimately show ?thesis
    using n(1-4) that by blast
qed

lemma shrink_left:
  assumes "b = ht r - ht l" "\<bar>b\<bar> \<le> 1" "avl_ok l'" "avl_ok r" "ht l = ht l' + (if lower then 1 else 0)"
  obtains n where "rebalance (Node l' k v (if lower then b + 1 else b) r) = Inr n" "avl_ok n" "inorder n = inorder l' @ (k, v) # inorder r"
    "1 + max (ht l) (ht r) = ht n + (if lower \<and> avl_balance n = 0 then 1 else 0)"
    "(lower \<and> \<not> (avl_balance n = 1 \<or> avl_balance n = -1)) = (lower \<and> avl_balance n = 0)"
proof -
  let ?b = "if lower then b + 1 else b"
  have "?b = ht r - ht l'" "\<bar>?b\<bar> \<le> 2" "\<bar>?b\<bar> = 2 \<Longrightarrow> lower"
    using assms(1,2,5) by (auto split: if_splits)
  moreover have "1 + max (ht l) (ht r) = 1 + max (ht l') (ht r) + (if lower \<and> \<bar>?b\<bar> \<noteq> 1 \<and> \<bar>?b\<bar> \<noteq> 2 then 1 else 0)"
    using assms(1,2,5) by (cases lower) (auto simp: max_def)
  ultimately show ?thesis
    using shrink_ok [OF assms(3,4), of ?b "1 + max (ht l) (ht r)" lower k v] that by blast
qed

lemma shrink_right:
  assumes "b = ht r - ht l" "\<bar>b\<bar> \<le> 1" "avl_ok l" "avl_ok r'" "ht r = ht r' + (if lower then 1 else 0)"
  obtains n where "rebalance (Node l k v (if lower then b - 1 else b) r') = Inr n" "avl_ok n" "inorder n = inorder l @ (k, v) # inorder r'"
    "1 + max (ht l) (ht r) = ht n + (if lower \<and> avl_balance n = 0 then 1 else 0)"
    "(lower \<and> \<not> (avl_balance n = 1 \<or> avl_balance n = -1)) = (lower \<and> avl_balance n = 0)"
proof -
  let ?b = "if lower then b - 1 else b"
  have "?b = ht r' - ht l" "\<bar>?b\<bar> \<le> 2" "\<bar>?b\<bar> = 2 \<Longrightarrow> lower"
    using assms(1,2,5) by (auto split: if_splits)
  moreover have "1 + max (ht l) (ht r) = 1 + max (ht l) (ht r') + (if lower \<and> \<bar>?b\<bar> \<noteq> 1 \<and> \<bar>?b\<bar> \<noteq> 2 then 1 else 0)"
    using assms(1,2,5) by (cases lower) (auto simp: max_def)
  ultimately show ?thesis
    using shrink_ok [OF assms(3,4), of ?b "1 + max (ht l) (ht r)" lower k v] that by blast
qed

lemma step_delete_end_eq:
  assumes "\<bar>b\<bar> \<le> 1" "rebalance (Node l k v (if lower then b' else b) r) = Inr n"
    "(lower \<and> \<not> (avl_balance n = 1 \<or> avl_balance n = -1)) = (lower \<and> avl_balance n = 0)"
  shows "step_delete_end (Node l k v b r) b' lower = Inr (n, lower \<and> avl_balance n = 0)"
proof (cases lower)
  case True
  then show ?thesis
    using assms(2,3) by (simp add: step_delete_end_def del: rebalance.simps)
next
  case False
  then have "n = Node l k v b r"
    using assms(1,2) by (auto split: if_splits)
  then show ?thesis
    using False by (simp add: step_delete_end_def)
qed

lemma step_delete_right_ok:
  "avl_ok n \<Longrightarrow> n \<noteq> Null \<Longrightarrow> \<exists>n' kv lower. step_delete_right n = Inr (n', kv, lower) \<and> avl_ok n' \<and>
    inorder n = inorder n' @ [kv] \<and> ht n = ht n' + (if lower then 1 else 0)"
proof (induction n)
  case (Node l k v b r)
  have bal: "b = ht r - ht l" "\<bar>b\<bar> \<le> 1" "avl_ok l" "avl_ok r"
    using Node.prems(1) by auto
  show ?case
  proof (cases "r = Null")
    case True
    then show ?thesis
      using bal by (auto simp: max_absorb1)
  next
    case False
    then obtain r' kv lower where r': "step_delete_right r = Inr (r', kv, lower)" "avl_ok r'" "inorder r = inorder r' @ [kv]"
      "ht r = ht r' + (if lower then 1 else 0)"
      using Node.IH(2) bal(4) by blast
    show ?thesis
    proof (cases lower)
      case True
      obtain n where "rebalance (Node l k v (if lower then b - 1 else b) r') = Inr n" "avl_ok n" "inorder n = inorder l @ (k, v) # inorder r'"
        "1 + max (ht l) (ht r) = ht n + (if lower \<and> avl_balance n = 0 then 1 else 0)"
        "(lower \<and> \<not> (avl_balance n = 1 \<or> avl_balance n = -1)) = (lower \<and> avl_balance n = 0)"
        using shrink_right [OF bal(1-3) r'(2,4), of k v] by blast
      then show ?thesis
        using True False r' by auto
    next
      case lo: False
      then show ?thesis
        using False r' bal by auto
    qed
  qed
qed simp

lemma step_delete_left_ok:
  "avl_ok n \<Longrightarrow> n \<noteq> Null \<Longrightarrow> \<exists>n' kv lower. step_delete_left n = Inr (n', kv, lower) \<and> avl_ok n' \<and>
    inorder n = kv # inorder n' \<and> ht n = ht n' + (if lower then 1 else 0)"
proof (induction n)
  case (Node l k v b r)
  have bal: "b = ht r - ht l" "\<bar>b\<bar> \<le> 1" "avl_ok l" "avl_ok r"
    using Node.prems(1) by auto
  show ?case
  proof (cases "l = Null")
    case True
    then show ?thesis
      using bal by (auto simp: max_absorb2)
  next
    case False
    then obtain l' kv lower where l': "step_delete_left l = Inr (l', kv, lower)" "avl_ok l'" "inorder l = kv # inorder l'"
      "ht l = ht l' + (if lower then 1 else 0)"
      using Node.IH(1) bal(3) by blast
    show ?thesis
    proof (cases lower)
      case True
      obtain n where "rebalance (Node l' k v (if lower then b + 1 else b) r) = Inr n" "avl_ok n" "inorder n = inorder l' @ (k, v) # inorder r"
        "1 + max (ht l) (ht r) = ht n + (if lower \<and> avl_balance n = 0 then 1 else 0)"
        "(lower \<and> \<not> (avl_balance n = 1 \<or> avl_balance n = -1)) = (lower \<and> avl_balance n = 0)"
        using shrink_left [OF bal(1,2) l'(2) bal(4) l'(4), of k v] by blast
      then show ?thesis
        using True False l' by auto
    next
      case lo: False
      then show ?thesis
        using False l' bal by auto
    qed
  qed
qed simp

section \<open>Order\<close>

text \<open>A tree over keys of the set \<open>K\<close>: balanced, in the order of its comparison, with the right count.\<close>

definition tree_fine :: "'k set \<Rightarrow> ('k, 'v) avltree \<Rightarrow> bool" where
  "tree_fine K t \<longleftrightarrow> avl_ok (at_root t) \<and> sorted_wrt (\<lambda>p q. at_cmp t (fst p) (fst q) < 0) (inorder (at_root t)) \<and>
     fst ` set (inorder (at_root t)) \<subseteq> K \<and> at_items t = int (length (inorder (at_root t)))"

definition content :: "('k, 'v) avltree \<Rightarrow> 'k \<rightharpoonup> 'v" where
  "content t = map_of (inorder (at_root t))"

definition same_kind :: "('k, 'v) avltree \<Rightarrow> ('k, 'v) avltree \<Rightarrow> bool" where
  "same_kind t t' \<longleftrightarrow> at_cmp t' = at_cmp t \<and> at_copy t' = at_copy t \<and> at_null t' = at_null t"

text \<open>
  What a comparison has to be for the tree to be a map: a strict order on the set \<open>K\<close> of the keys that are
  put in, with equality for 0.
\<close>

locale ordered_keys =
  fixes cmp :: "'k \<Rightarrow> 'k \<Rightarrow> int" and K :: "'k set"
  assumes same: "cmp a b = 0 \<longleftrightarrow> a = b"
    and swap: "a \<in> K \<Longrightarrow> b \<in> K \<Longrightarrow> cmp a b < 0 \<longleftrightarrow> 0 < cmp b a"
    and trans: "a \<in> K \<Longrightarrow> b \<in> K \<Longrightarrow> c \<in> K \<Longrightarrow> cmp a b < 0 \<Longrightarrow> cmp b c < 0 \<Longrightarrow> cmp a c < 0"
begin

definition in_order :: "('k \<times> 'v) list \<Rightarrow> bool" where
  "in_order xs \<longleftrightarrow> sorted_wrt (\<lambda>p q. cmp (fst p) (fst q) < 0) xs \<and> fst ` set xs \<subseteq> K"

lemma in_order_Nil [simp]: "in_order []"
  by (simp add: in_order_def)

lemma in_order_append:
  "in_order (xs @ (a, x) # ys) \<longleftrightarrow> in_order xs \<and> in_order ys \<and> a \<in> K \<and>
    (\<forall>p \<in> set xs. cmp (fst p) a < 0) \<and> (\<forall>p \<in> set ys. cmp a (fst p) < 0)"
  by (auto simp: in_order_def sorted_wrt_append image_subset_iff intro: trans)

lemma trichotomy: "a \<in> K \<Longrightarrow> b \<in> K \<Longrightarrow> a = b \<or> cmp a b < 0 \<or> cmp b a < 0"
  using same [of a b] swap [of a b] swap [of b a] by linarith

lemma irrefl: "\<not> cmp a a < 0"
  using same [of a a] by simp

text \<open>Insertion into a list.\<close>

fun put_key :: "'k \<Rightarrow> 'v \<Rightarrow> ('k \<times> 'v) list \<Rightarrow> ('k \<times> 'v) list" where
  "put_key key val [] = [(key, val)]"
| "put_key key val ((a, x) # xs) =
     (if cmp a key = 0 then (key, val) # xs
      else if cmp a key > 0 then (key, val) # (a, x) # xs else (a, x) # put_key key val xs)"

lemma put_key_below: "\<forall>p \<in> set xs. cmp (fst p) key < 0 \<Longrightarrow> put_key key val (xs @ ys) = xs @ put_key key val ys"
  by (induction xs) auto

lemma put_key_left:
  assumes "in_order (xs @ (a, x) # ys)" "key \<in> K" "0 < cmp a key"
  shows "put_key key val (xs @ (a, x) # ys) = put_key key val xs @ (a, x) # ys"
  using assms(3) by (induction xs) auto

lemma put_key_right:
  assumes "in_order (xs @ (a, x) # ys)" "key \<in> K" "cmp a key < 0"
  shows "put_key key val (xs @ (a, x) # ys) = xs @ (a, x) # put_key key val ys"
proof -
  have "\<forall>p \<in> set (xs @ [(a, x)]). cmp (fst p) key < 0"
  proof
    fix p assume "p \<in> set (xs @ [(a, x)])"
    then have "p = (a, x) \<or> fst p \<in> K \<and> cmp (fst p) a < 0" "a \<in> K"
      using assms(1) by (auto simp: in_order_append) (auto simp: in_order_def)
    then show "cmp (fst p) key < 0"
      using assms(2,3) trans [of "fst p" a key] by auto
  qed
  then show ?thesis
    using put_key_below [of "xs @ [(a, x)]" key val ys] by simp
qed

lemma put_key_found:
  assumes "in_order (xs @ (a, x) # ys)"
  shows "put_key a val (xs @ (a, x) # ys) = xs @ (a, val) # ys"
  using assms put_key_below [of xs a val "(a, x) # ys"] by (auto simp: in_order_append same)

lemma set_put_key: "set (put_key key val xs) \<subseteq> insert (key, val) (set xs)"
  by (induction xs) (auto split: if_splits)

lemma in_order_put: "in_order xs \<Longrightarrow> key \<in> K \<Longrightarrow> in_order (put_key key val xs)"
proof (induction xs)
  case (Cons p xs)
  obtain a x where p: "p = (a, x)"
    by (cases p)
  have xs: "in_order xs" "a \<in> K" "\<forall>q \<in> set xs. cmp a (fst q) < 0"
    using Cons.prems(1) p in_order_append [of "[]" a x xs] by auto
  consider "a = key" | "cmp a key < 0" | "cmp key a < 0"
    using trichotomy [of a key] xs Cons.prems(2) by blast
  then show ?case
  proof cases
    case 1
    then show ?thesis
      using xs in_order_append [of "[]" key val xs] by (simp add: p same)
  next
    case 2
    moreover have "\<forall>q \<in> set (put_key key val xs). cmp a (fst q) < 0"
      using set_put_key [of key val xs] xs(3) 2 by auto
    ultimately show ?thesis
      using Cons.IH [OF xs(1) Cons.prems(2)] xs(2) in_order_append [of "[]" a x "put_key key val xs"] by (simp add: p)
  next
    case 3
    then have "0 < cmp a key" "\<forall>q \<in> set ((a, x) # xs). cmp key (fst q) < 0"
      using xs Cons.prems trans [of key a] swap [of key a] by (auto simp: in_order_def p image_subset_iff)
    then show ?thesis
      using Cons.prems p in_order_append [of "[]" key val "(a, x) # xs"] by simp
  qed
qed (simp add: in_order_def)

lemma map_of_put: "in_order xs \<Longrightarrow> key \<in> K \<Longrightarrow> map_of (put_key key val xs) = (map_of xs)(key \<mapsto> val)"
proof (induction xs)
  case (Cons p xs)
  obtain a x where p: "p = (a, x)"
    by (cases p)
  have "in_order xs"
    using Cons.prems(1) by (auto simp: in_order_def)
  then show ?case
    using Cons by (auto simp: p same fun_eq_iff)
qed simp

lemma length_put: "in_order xs \<Longrightarrow> key \<in> K \<Longrightarrow> length (put_key key val xs) = length xs + (if key \<in> fst ` set xs then 0 else 1)"
proof (induction xs)
  case (Cons p xs)
  obtain a x where p: "p = (a, x)"
    by (cases p)
  have xs: "in_order xs" "a \<in> K" "\<forall>q \<in> set xs. cmp a (fst q) < 0"
    using Cons.prems(1) p in_order_append [of "[]" a x xs] by auto
  have "key \<notin> fst ` set xs" if "0 < cmp a key"
    using xs swap that Cons.prems(2) by fastforce
  then show ?case
    using Cons.IH [OF xs(1) Cons.prems(2)] by (auto simp: p same image_iff)
qed simp

text \<open>Lookup and insertion in a tree.\<close>

lemma get_map_of: "in_order (inorder n) \<Longrightarrow> key \<in> K \<Longrightarrow> get_loop cmp key n = map_of (inorder n) key"
proof (induction n)
  case (Node l k v b r)
  have parts: "in_order (inorder l)" "in_order (inorder r)" "k \<in> K"
    "\<forall>p \<in> set (inorder l). cmp (fst p) k < 0" "\<forall>p \<in> set (inorder r). cmp k (fst p) < 0"
    using Node.prems(1) by (simp_all add: in_order_append)
  have left: "map_of (inorder l) key = None" if "\<not> cmp key k < 0"
    using parts(4) that by (force simp: map_of_eq_None_iff)
  have right: "map_of (inorder r) key = None" if "\<not> cmp k key < 0"
    using parts(5) that by (force simp: map_of_eq_None_iff)
  consider "k = key" | "0 < cmp k key" | "cmp k key < 0"
    using same [of k key] by linarith
  then show ?case
  proof cases
    case 1
    then show ?thesis
      using left right irrefl by (simp add: map_add_def same)
  next
    case 2
    then show ?thesis
      using Node.IH(1) parts(1) Node.prems(2) right same [of k key] by (auto simp: map_add_def Let_def split: option.splits)
  next
    case 3
    moreover have "\<not> cmp key k < 0"
      using 3 swap [of k key] parts(3) Node.prems(2) by simp
    ultimately show ?thesis
      using Node.IH(2) parts(2) Node.prems(2) left same [of k key] by (auto simp: map_add_def Let_def split: option.splits)
  qed
qed simp

lemma get_only_stored: "get_loop cmp key n = Some v \<Longrightarrow> (key, v) \<in> set (inorder n)"
  by (induction n) (auto simp: Let_def same split: if_splits)

lemma avl_insert_ok:
  assumes "avl_ok n" "n \<noteq> Null" "in_order (inorder n)" "key \<in> K" "at_cmp t = cmp" "create_avlnode t key val \<noteq> None"
  shows "\<exists>n' up added. avl_insert t key val n = Inr (n', up, Some val, added) \<and> avl_ok n' \<and> n' \<noteq> Null \<and>
    inorder n' = put_key key val (inorder n) \<and> ht n' = ht n + (if up then 1 else 0) \<and> (up \<longrightarrow> avl_balance n' \<noteq> 0) \<and>
    added = (key \<notin> fst ` set (inorder n))"
  using assms(1-3)
proof (induction n)
  case (Node l k v b r)
  have parts: "in_order (inorder l)" "in_order (inorder r)" "k \<in> K"
    "\<forall>p \<in> set (inorder l). cmp (fst p) k < 0" "\<forall>p \<in> set (inorder r). cmp k (fst p) < 0"
    using Node.prems(3) by (simp_all add: in_order_append)
  have bal: "b = ht r - ht l" "\<bar>b\<bar> \<le> 1" "avl_ok l" "avl_ok r"
    using Node.prems(1) by auto
  have fresh: "create_avlnode t key val = Some (Node Null key val 0 Null)"
    using assms(6) by (auto simp: create_avlnode_def split: if_splits)
  have left: "key \<notin> fst ` set (inorder l)" if "\<not> cmp key k < 0"
    using parts(4) that by force
  have right: "key \<notin> fst ` set (inorder r)" if "\<not> cmp k key < 0"
    using parts(5) that by force
  consider "k = key" | "0 < cmp k key" | "cmp k key < 0"
    using same [of k key] by linarith
  then show ?case
  proof cases
    case 1
    then have "put_key key val (inorder l @ (k, v) # inorder r) = inorder l @ (key, val) # inorder r"
      using put_key_found [of "inorder l" k v "inorder r" val] Node.prems(3) by simp
    then show ?thesis
      using 1 bal assms(5) by (auto simp: same)
  next
    case 2
    have put: "put_key key val (inorder (Node l k v b r)) = put_key key val (inorder l) @ (k, v) # inorder r"
      using put_key_left [of "inorder l" k v "inorder r" key val] Node.prems(3) assms(4) 2 by simp
    have absent: "key \<notin> insert k (fst ` set (inorder r))"
      using right 2 same [of k key] by auto
    have up_case: ?thesis if l': "avl_ok l'" "inorder l' = put_key key val (inorder l)" "ht l' = ht l + (if up then 1 else 0)"
      "up \<Longrightarrow> avl_balance l' \<noteq> 0 \<or> l = Null" "added = (key \<notin> fst ` set (inorder l))"
      "avl_insert t key val (Node l k v b r) = settle b (Node l' k v (if up then b - 1 else b) r) (Some val) added" for l' up added
    proof -
      let ?b = "if up then b - 1 else b"
      have "?b = ht r - ht l'" "\<bar>?b\<bar> \<le> 2"
        using bal l'(3) by auto
      moreover have "b \<noteq> 0 \<and> (?b = -2 \<longrightarrow> avl_balance l' \<noteq> 0) \<and> (?b = 2 \<longrightarrow> avl_balance r \<noteq> 0)" if "\<bar>?b\<bar> = 2"
      proof -
        have "up" "b = -1"
          using that bal(2) by (auto split: if_splits)
        moreover have "0 < ht l"
          using \<open>b = -1\<close> bal(1) ht_nonneg [of r] by linarith
        ultimately show ?thesis
          using l'(4) by simp
      qed
      ultimately obtain n where n: "settle b (Node l' k v ?b r) (Some val) added = Inr (n, ?b \<noteq> 0 \<and> b = 0, Some val, added)"
        "avl_ok n" "n \<noteq> Null" "inorder n = inorder l' @ (k, v) # inorder r"
        "ht n = max (ht l') (ht r) + (if \<bar>?b\<bar> = 2 then 0 else 1)" "?b \<noteq> 0 \<and> b = 0 \<Longrightarrow> avl_balance n \<noteq> 0"
        using settle_ok [OF l'(1) bal(4), of ?b b k v "Some val" added] by blast
      have "ht n = ht (Node l k v b r) + (if ?b \<noteq> 0 \<and> b = 0 then 1 else 0)"
        using n(5) l'(3) bal(1,2) by (auto simp: max_def)
      moreover have "added = (key \<notin> fst ` set (inorder (Node l k v b r)))"
        using l'(5) absent by auto
      ultimately show ?thesis
        using n l'(2,6) put by auto
    qed
    show ?thesis
    proof (cases "l = Null")
      case True
      then show ?thesis
        using 2 fresh assms(5) by (intro up_case [of "Node Null key val 0 Null" True True]) (simp_all add: Let_def)
    next
      case False
      obtain l' up added where l': "avl_insert t key val l = Inr (l', up, Some val, added)" "avl_ok l'" "l' \<noteq> Null"
        "inorder l' = put_key key val (inorder l)" "ht l' = ht l + (if up then 1 else 0)" "up \<longrightarrow> avl_balance l' \<noteq> 0"
        "added = (key \<notin> fst ` set (inorder l))"
        using Node.IH(1) bal(3) False parts(1) by blast
      then show ?thesis
        using 2 False assms(5) by (intro up_case [of l' up added]) (simp_all add: Let_def)
    qed
  next
    case 3
    have put: "put_key key val (inorder (Node l k v b r)) = inorder l @ (k, v) # put_key key val (inorder r)"
      using put_key_right [of "inorder l" k v "inorder r" key val] Node.prems(3) assms(4) 3 by simp
    have absent: "key \<notin> insert k (fst ` set (inorder l))"
      using left 3 same [of k key] swap [of k key] parts(3) assms(4) by auto
    have up_case: ?thesis if r': "avl_ok r'" "inorder r' = put_key key val (inorder r)" "ht r' = ht r + (if up then 1 else 0)"
      "up \<Longrightarrow> avl_balance r' \<noteq> 0 \<or> r = Null" "added = (key \<notin> fst ` set (inorder r))"
      "avl_insert t key val (Node l k v b r) = settle b (Node l k v (if up then b + 1 else b) r') (Some val) added" for r' up added
    proof -
      let ?b = "if up then b + 1 else b"
      have "?b = ht r' - ht l" "\<bar>?b\<bar> \<le> 2"
        using bal r'(3) by auto
      moreover have "b \<noteq> 0 \<and> (?b = -2 \<longrightarrow> avl_balance l \<noteq> 0) \<and> (?b = 2 \<longrightarrow> avl_balance r' \<noteq> 0)" if "\<bar>?b\<bar> = 2"
      proof -
        have "up" "b = 1"
          using that bal(2) by (auto split: if_splits)
        moreover have "0 < ht r"
          using \<open>b = 1\<close> bal(1) ht_nonneg [of l] by linarith
        ultimately show ?thesis
          using r'(4) by simp
      qed
      ultimately obtain n where n: "settle b (Node l k v ?b r') (Some val) added = Inr (n, ?b \<noteq> 0 \<and> b = 0, Some val, added)"
        "avl_ok n" "n \<noteq> Null" "inorder n = inorder l @ (k, v) # inorder r'"
        "ht n = max (ht l) (ht r') + (if \<bar>?b\<bar> = 2 then 0 else 1)" "?b \<noteq> 0 \<and> b = 0 \<Longrightarrow> avl_balance n \<noteq> 0"
        using settle_ok [OF bal(3) r'(1), of ?b b k v "Some val" added] by blast
      have "ht n = ht (Node l k v b r) + (if ?b \<noteq> 0 \<and> b = 0 then 1 else 0)"
        using n(5) r'(3) bal(1,2) by (auto simp: max_def)
      moreover have "added = (key \<notin> fst ` set (inorder (Node l k v b r)))"
        using r'(5) absent by auto
      ultimately show ?thesis
        using n r'(2,6) put by auto
    qed
    show ?thesis
    proof (cases "r = Null")
      case True
      then show ?thesis
        using 3 fresh assms(5) by (intro up_case [of "Node Null key val 0 Null" True True]) (simp_all add: Let_def)
    next
      case False
      obtain r' up added where r': "avl_insert t key val r = Inr (r', up, Some val, added)" "avl_ok r'" "r' \<noteq> Null"
        "inorder r' = put_key key val (inorder r)" "ht r' = ht r + (if up then 1 else 0)" "up \<longrightarrow> avl_balance r' \<noteq> 0"
        "added = (key \<notin> fst ` set (inorder r))"
        using Node.IH(2) bal(4) False parts(2) by blast
      then show ?thesis
        using 3 False assms(5) by (intro up_case [of r' up added]) (simp_all add: Let_def)
    qed
  qed
qed simp

text \<open>Deletion from a list and from a tree.\<close>

definition del_key :: "'k \<Rightarrow> ('k \<times> 'v) list \<Rightarrow> ('k \<times> 'v) list" where
  "del_key key xs = filter (\<lambda>p. fst p \<noteq> key) xs"

lemma in_order_del: "in_order xs \<Longrightarrow> in_order (del_key key xs)"
  by (auto simp: in_order_def del_key_def sorted_wrt_filter)

lemma map_of_del: "map_of (del_key key xs) = (map_of xs)(key := None)"
  by (induction xs) (auto simp: del_key_def)

lemma del_absent: "key \<notin> fst ` set xs \<Longrightarrow> del_key key xs = xs"
  by (auto simp: del_key_def filter_id_conv)

lemma del_append: "del_key key (xs @ ys) = del_key key xs @ del_key key ys"
  by (simp add: del_key_def)

lemma del_Cons: "del_key key ((a, x) # xs) = (if a = key then del_key key xs else (a, x) # del_key key xs)"
  by (simp add: del_key_def)

lemma del_split:
  assumes "in_order (xs @ (a, x) # ys)" "key \<in> K"
  shows "0 < cmp a key \<Longrightarrow> del_key key (xs @ (a, x) # ys) = del_key key xs @ (a, x) # ys"
    "cmp a key < 0 \<Longrightarrow> del_key key (xs @ (a, x) # ys) = xs @ (a, x) # del_key key ys"
    "a = key \<Longrightarrow> del_key key (xs @ (a, x) # ys) = xs @ ys"
proof -
  have parts: "a \<in> K" "\<forall>p \<in> set xs. cmp (fst p) a < 0" "\<forall>p \<in> set ys. cmp a (fst p) < 0"
    using assms(1) by (simp_all add: in_order_append)
  have left: "del_key key xs = xs" if "\<not> cmp key a < 0"
    using parts(2) that by (intro del_absent) force
  have right: "del_key key ys = ys" if "\<not> cmp a key < 0"
    using parts(3) that by (intro del_absent) force
  show "0 < cmp a key \<Longrightarrow> del_key key (xs @ (a, x) # ys) = del_key key xs @ (a, x) # ys"
    using right same [of a key] by (auto simp: del_append del_Cons)
  show "cmp a key < 0 \<Longrightarrow> del_key key (xs @ (a, x) # ys) = xs @ (a, x) # del_key key ys"
    using left same [of a key] swap [of a key] parts(1) assms(2) by (auto simp: del_append del_Cons)
  show "a = key \<Longrightarrow> del_key key (xs @ (a, x) # ys) = xs @ ys"
    using left right irrefl by (simp add: del_append del_Cons)
qed

lemma avl_delete_ok:
  "avl_ok n \<Longrightarrow> in_order (inorder n) \<Longrightarrow> key \<in> K \<Longrightarrow>
    \<exists>n' lower. avl_delete cmp key n = Inr (n', map_of (inorder n) key, lower) \<and> avl_ok n' \<and>
      inorder n' = del_key key (inorder n) \<and> ht n = ht n' + (if lower then 1 else 0)"
proof (induction n)
  case (Node l k v b r)
  have parts: "in_order (inorder l)" "in_order (inorder r)" "k \<in> K"
    using Node.prems(2) by (simp_all add: in_order_append)
  have bal: "b = ht r - ht l" "\<bar>b\<bar> \<le> 1" "avl_ok l" "avl_ok r"
    using Node.prems(1) by auto
  have get: "map_of (inorder (Node l k v b r)) key = get_loop cmp key (Node l k v b r)"
    using get_map_of [OF Node.prems(2,3)] by simp
  have get': "map_of (inorder l) key = get_loop cmp key l" "map_of (inorder r) key = get_loop cmp key r"
    using get_map_of [OF parts(1) Node.prems(3)] get_map_of [OF parts(2) Node.prems(3)] by simp_all
  note split = del_split [of "inorder l" k v "inorder r" key]
  have here: "del_key key (inorder l @ (k, v) # inorder r) = inorder l @ inorder r" "map_of (inorder (Node l k v b r)) key = Some v"
    if "k = key"
    using split(3) Node.prems(2,3) that same [of key key] unfolding get by simp_all
  have one_child: ?case if only: "k = key" "l = Null \<or> r = Null"
  proof -
    consider "l = Null" | "l \<noteq> Null" "r = Null"
      using only(2) by blast
    then show ?thesis
    proof cases
      case 1
      then have "avl_delete cmp key (Node l k v b r) = Inr (r, Some v, True)" "ht (Node l k v b r) = ht r + 1"
        using only(1) same [of key key] by (simp_all add: Let_def max_absorb2)
      then show ?thesis
        using bal(4) here [OF only(1)] 1 by auto
    next
      case 2
      then have "avl_delete cmp key (Node l k v b r) = Inr (l, Some v, True)" "ht (Node l k v b r) = ht l + 1"
        using only(1) same [of key key] by (simp_all add: Let_def max_absorb1)
      then show ?thesis
        using bal(3) here [OF only(1)] 2 by auto
    qed
  qed
  consider "0 < cmp k key" | "cmp k key < 0" | "k = key" "l = Null \<or> r = Null" | "k = key" "l \<noteq> Null" "r \<noteq> Null"
    using same [of k key] by linarith
  then show ?case
  proof cases
    case 1
    obtain l' lower where l': "avl_delete cmp key l = Inr (l', map_of (inorder l) key, lower)" "avl_ok l'"
      "inorder l' = del_key key (inorder l)" "ht l = ht l' + (if lower then 1 else 0)"
      using Node.IH(1) bal(3) parts(1) Node.prems(3) by blast
    obtain n where "rebalance (Node l' k v (if lower then b + 1 else b) r) = Inr n" "avl_ok n"
      "inorder n = inorder l' @ (k, v) # inorder r" "1 + max (ht l) (ht r) = ht n + (if lower \<and> avl_balance n = 0 then 1 else 0)"
      using shrink_left [OF bal(1,2) l'(2) bal(4) l'(4), of k v] by blast
    then show ?thesis
      using 1 l' split(1) Node.prems(2,3) unfolding get by (simp add: get')
  next
    case 2
    obtain r' lower where r': "avl_delete cmp key r = Inr (r', map_of (inorder r) key, lower)" "avl_ok r'"
      "inorder r' = del_key key (inorder r)" "ht r = ht r' + (if lower then 1 else 0)"
      using Node.IH(2) bal(4) parts(2) Node.prems(3) by blast
    obtain n where "rebalance (Node l k v (if lower then b - 1 else b) r') = Inr n" "avl_ok n"
      "inorder n = inorder l @ (k, v) # inorder r'" "1 + max (ht l) (ht r) = ht n + (if lower \<and> avl_balance n = 0 then 1 else 0)"
      using shrink_right [OF bal(1-3) r'(2,4), of k v] by blast
    then show ?thesis
      using 2 r' split(2) Node.prems(2,3) unfolding get by (simp add: get')
  next
    case 3
    then show ?thesis
      using one_child by blast
  next
    case 4
    show ?thesis
    proof (cases "b > 0")
      case True
      obtain r' sk sv lower where r': "step_delete_left r = Inr (r', (sk, sv), lower)" "avl_ok r'" "inorder r = (sk, sv) # inorder r'"
        "ht r = ht r' + (if lower then 1 else 0)"
        using step_delete_left_ok [OF bal(4) 4(3)] by (metis prod.exhaust)
      obtain n where "rebalance (Node l sk sv (if lower then b - 1 else b) r') = Inr n" "avl_ok n"
        "inorder n = inorder l @ (sk, sv) # inorder r'" "1 + max (ht l) (ht r) = ht n + (if lower \<and> avl_balance n = 0 then 1 else 0)"
        "(lower \<and> \<not> (avl_balance n = 1 \<or> avl_balance n = -1)) = (lower \<and> avl_balance n = 0)"
        using shrink_right [OF bal(1-3) r'(2,4), of sk sv] by blast
      moreover from this have "step_delete_end (Node l sk sv b r') (b - 1) lower = Inr (n, lower \<and> avl_balance n = 0)"
        by (intro step_delete_end_eq [OF bal(2)]) simp_all
      then have "avl_delete cmp key (Node l k v b r) = Inr (n, Some v, lower \<and> avl_balance n = 0)"
        using 4 True r'(1) same [of key key] by (simp add: Let_def)
      ultimately show ?thesis
        using here [OF 4(1)] r'(3) by auto
    next
      case False
      obtain l' sk sv lower where l': "step_delete_right l = Inr (l', (sk, sv), lower)" "avl_ok l'" "inorder l = inorder l' @ [(sk, sv)]"
        "ht l = ht l' + (if lower then 1 else 0)"
        using step_delete_right_ok [OF bal(3) 4(2)] by (metis prod.exhaust)
      obtain n where "rebalance (Node l' sk sv (if lower then b + 1 else b) r) = Inr n" "avl_ok n"
        "inorder n = inorder l' @ (sk, sv) # inorder r" "1 + max (ht l) (ht r) = ht n + (if lower \<and> avl_balance n = 0 then 1 else 0)"
        "(lower \<and> \<not> (avl_balance n = 1 \<or> avl_balance n = -1)) = (lower \<and> avl_balance n = 0)"
        using shrink_left [OF bal(1,2) l'(2) bal(4) l'(4), of sk sv] by blast
      moreover from this have "step_delete_end (Node l' sk sv b r) (b + 1) lower = Inr (n, lower \<and> avl_balance n = 0)"
        by (intro step_delete_end_eq [OF bal(2)]) simp_all
      then have "avl_delete cmp key (Node l k v b r) = Inr (n, Some v, lower \<and> avl_balance n = 0)"
        using 4 False l'(1) same [of key key] by (simp add: Let_def)
      ultimately show ?thesis
        using here [OF 4(1)] l'(3) by auto
    qed
  qed
qed (auto simp: del_key_def)

text \<open>The operations of the tree.\<close>

lemma insert_fine:
  assumes "at_cmp t = cmp" "tree_fine K t" "key \<in> K" "\<not> (at_copy t \<and> at_null t val)"
  shows "\<exists>t'. cp_avltree_insert t key val = Inr (non_null t (Some val), t') \<and> tree_fine K t' \<and>
    inorder (at_root t') = put_key key val (inorder (at_root t)) \<and> content t' = (content t)(key \<mapsto> val) \<and> same_kind t t'"
proof (cases "at_root t = Null")
  case True
  then show ?thesis
    using assms by (simp add: cp_avltree_insert_def create_avlnode_def tree_fine_def content_def same_kind_def)
next
  case False
  have t: "avl_ok (at_root t)" "in_order (inorder (at_root t))" "at_items t = int (length (inorder (at_root t)))"
    using assms(1,2) by (simp_all add: tree_fine_def in_order_def)
  obtain n up added where n: "avl_insert t key val (at_root t) = Inr (n, up, Some val, added)" "avl_ok n"
    "inorder n = put_key key val (inorder (at_root t))" "added = (key \<notin> fst ` set (inorder (at_root t)))"
    using avl_insert_ok [OF t(1) False t(2) assms(3,1), of val] assms(4) by (auto simp: create_avlnode_def)
  show ?thesis
    using n False t assms(1,3) in_order_put [OF t(2) assms(3), of val] map_of_put [OF t(2) assms(3), of val] length_put [OF t(2) assms(3), of val]
    by (simp add: cp_avltree_insert_def tree_fine_def content_def same_kind_def in_order_def)
qed

lemma length_del: "in_order xs \<Longrightarrow> length xs = length (del_key key xs) + (if map_of xs key = None then 0 else 1)"
proof (induction xs)
  case (Cons p xs)
  obtain a x where p: "p = (a, x)"
    by (cases p)
  have xs: "in_order xs" "\<forall>q \<in> set xs. cmp a (fst q) < 0"
    using Cons.prems(1) p in_order_append [of "[]" a x xs] by auto
  have "key \<notin> fst ` set xs" if "a = key"
    using xs(2) that irrefl by force
  then show ?case
    using Cons.IH [OF xs(1)] del_absent [of key xs] by (auto simp: p del_Cons)
qed (simp add: del_key_def)

lemma delete_fine:
  assumes "at_cmp t = cmp" "tree_fine K t" "key \<in> K"
  shows "\<exists>t'. cp_avltree_delete t key = Inr (non_null t (content t key), t') \<and> tree_fine K t' \<and>
    inorder (at_root t') = del_key key (inorder (at_root t)) \<and> content t' = (content t)(key := None) \<and> same_kind t t'"
proof -
  have t: "avl_ok (at_root t)" "in_order (inorder (at_root t))" "at_items t = int (length (inorder (at_root t)))"
    using assms(1,2) by (simp_all add: tree_fine_def in_order_def)
  obtain n lower where n: "avl_delete cmp key (at_root t) = Inr (n, map_of (inorder (at_root t)) key, lower)" "avl_ok n"
    "inorder n = del_key key (inorder (at_root t))"
    using avl_delete_ok [OF t(1,2) assms(3)] by blast
  show ?thesis
    using n t assms(1) in_order_del [OF t(2), of key] map_of_del [of key "inorder (at_root t)"] length_del [OF t(2), of key]
    by (simp add: cp_avltree_delete_def tree_fine_def content_def same_kind_def in_order_def split: if_splits)
qed

lemma get_fine: "at_cmp t = cmp \<Longrightarrow> tree_fine K t \<Longrightarrow> key \<in> K \<Longrightarrow> cp_avltree_get t key = non_null t (content t key)"
  using get_map_of [of "at_root t" key] by (simp add: cp_avltree_get_def tree_fine_def in_order_def content_def)

lemma get_outside:
  assumes "at_cmp t = cmp" "tree_fine K t" "key \<notin> K"
  shows "cp_avltree_get t key = None"
proof (rule ccontr)
  assume "cp_avltree_get t key \<noteq> None"
  then obtain v where "get_loop cmp key (at_root t) = Some v"
    using assms(1) by (auto simp: cp_avltree_get_def non_null_def split: option.splits)
  then show False
    using get_only_stored [of key "at_root t" v] assms(2,3) by (auto simp: tree_fine_def image_subset_iff)
qed

end

text \<open>
  C34. The AVL tree is a map: for a comparison that orders the keys, on a balanced tree, a lookup finds what is stored, an
  insertion stores its value and a deletion removes its key and returns the value, everything else stays, no operation
  follows a null pointer, the result is balanced and in order again with the right count, and with \<open>n\<close>
  items a search visits at most \<open>2 log (n + 1) + 1\<close> nodes.
\<close>

theorem avl_is_map:
  assumes "ordered_keys (at_cmp t) K" "tree_fine K t" "key \<in> K" "\<not> (at_copy t \<and> at_null t val)"
  shows "cp_avltree_get t key = non_null t (content t key) \<and>
    (\<exists>t'. cp_avltree_insert t key val = Inr (non_null t (Some val), t') \<and> tree_fine K t' \<and>
       content t' = (content t)(key \<mapsto> val) \<and> same_kind t t') \<and>
    (\<exists>t'. cp_avltree_delete t key = Inr (non_null t (content t key), t') \<and> tree_fine K t' \<and>
       content t' = (content t)(key := None) \<and> same_kind t t') \<and>
    2 ^ nat (ht (at_root t) div 2) \<le> cp_avltree_count t + 1"
proof (intro conjI)
  show "cp_avltree_get t key = non_null t (content t key)"
    by (rule ordered_keys.get_fine [OF assms(1) refl assms(2,3)])
  show "\<exists>t'. cp_avltree_insert t key val = Inr (non_null t (Some val), t') \<and> tree_fine K t' \<and>
      content t' = (content t)(key \<mapsto> val) \<and> same_kind t t'"
    using ordered_keys.insert_fine [OF assms(1) refl assms(2-4)] by blast
  show "\<exists>t'. cp_avltree_delete t key = Inr (non_null t (content t key), t') \<and> tree_fine K t' \<and>
      content t' = (content t)(key := None) \<and> same_kind t t'"
    using ordered_keys.delete_fine [OF assms(1) refl assms(2,3)] by blast
  have "2 ^ nat (ht (at_root t) div 2) \<le> length (inorder (at_root t)) + 1"
    by (rule avl_height) (use assms(2) in \<open>simp add: tree_fine_def\<close>)
  then show "2 ^ nat (ht (at_root t) div 2) \<le> cp_avltree_count t + 1"
    using assms(2) by (simp add: cp_avltree_count_def tree_fine_def flip: of_nat_le_iff [where 'a = int])
qed

theorem avl_is_map_witness:
  "\<exists>t'. cp_avltree_delete \<lparr>at_root = Node (Node Null 1 10 0 Null) 2 20 0 (Node Null 3 30 0 Null), at_items = 3,
      at_cmp = (\<lambda>a b. a - b), at_copy = False, at_null = (\<lambda>v. v = 0)\<rparr> (2 :: int) = Inr (Some (20 :: int), t') \<and>
    content t' 2 = None \<and> content t' 3 = Some 30"
proof -
  let ?t = "\<lparr>at_root = Node (Node Null 1 10 0 Null) 2 20 0 (Node Null 3 30 0 Null), at_items = 3,
      at_cmp = (\<lambda>a b. a - b), at_copy = False, at_null = (\<lambda>v. v = 0)\<rparr> :: (int, int) avltree"
  have "ordered_keys (at_cmp ?t) UNIV"
    by unfold_locales auto
  moreover have "tree_fine UNIV ?t"
    by (simp add: tree_fine_def)
  ultimately obtain t' where "cp_avltree_delete ?t 2 = Inr (non_null ?t (content ?t 2), t')" "content t' = (content ?t)(2 := None)"
    using avl_is_map [of ?t UNIV 2 1] by auto
  then show ?thesis
    by (simp add: content_def non_null_def)
qed

end
