(* ===== verification/Cvars.thy ===== *)
theory Cvars
  imports Complex_Main InfoString NetAddr Messages RandomNumbers Avl
begin

text \<open>
  The console variables of \<^verbatim>\<open>cvar.c\<close>, with the broadcasts of \<^verbatim>\<open>SV_mcast.c\<close> that announce their changes. The
  tree of the code is an AVL tree (\<open>Avl\<close>): what the code relies on is that it holds the variables
  by name and visits them in the order of \<^verbatim>\<open>strcmp\<close>, so it is a list in that order here, \<open>None\<close> before
  \<^verbatim>\<open>Cvar_Init\<close>; the last section shows that the operations of the tree refine those of the list. The parts of the global state a change reaches (the two info strings, the message of the
  client's channel, the messages of the server's clients) are fields of the record \<open>cvars\<close>. Allocation succeeds,
  and printing to the console is left out. The rounding of \<^verbatim>\<open>float\<close> is not modelled.
\<close>

section \<open>Comparing and converting strings\<close>

text \<open>Of the result only the sign is used; no string holds a terminator.\<close>

fun strcmp :: "u8 list \<Rightarrow> u8 list \<Rightarrow> int" where
  "strcmp [] [] = 0"
| "strcmp [] (b # bs) = -1"
| "strcmp (a # as) [] = 1"
| "strcmp (a # as) (b # bs) = (if a = b then strcmp as bs else int (unat a) - int (unat b))"

definition strcasecmp :: "u8 list \<Rightarrow> u8 list \<Rightarrow> int" where
  "strcasecmp s t = strcmp (map tolower_c s) (map tolower_c t)"

text \<open>\<^verbatim>\<open>atof\<close> on decimal numbers: sign, digits, a fraction and an exponent.\<close>

definition signed_part :: "u8 list \<Rightarrow> bool \<times> u8 list" where
  "signed_part s = (case s of [] \<Rightarrow> (False, []) | c # cs \<Rightarrow> if c = 45 then (True, cs) else if c = 43 then (False, cs) else (False, s))"

definition atof :: "u8 list \<Rightarrow> real" where
  "atof s =
     (let (neg, s) = signed_part (dropWhile is_space s);
          whole = takeWhile isdigit_c s; s1 = dropWhile isdigit_c s;
          frac = (if at0 s1 = 46 then takeWhile isdigit_c (drop 1 s1) else []);
          s2 = (if at0 s1 = 46 then dropWhile isdigit_c (drop 1 s1) else s1);
          (eneg, s3) = (if at0 s2 = 101 \<or> at0 s2 = 69 then signed_part (drop 1 s2) else (False, []));
          e = digits 0 s3; x = of_nat (digits 0 (whole @ frac)) / 10 ^ length frac;
          y = (if eneg then x / 10 ^ e else x * 10 ^ e)
      in if neg then - y else y)"

section \<open>State\<close>

datatype cactive = ca_dedicated | ca_disconnected | ca_connecting | ca_connected | ca_uninitialized | ca_active

text \<open>The order of the values.\<close>

definition beyond_connecting :: "cactive \<Rightarrow> bool" where
  "beyond_connecting st \<longleftrightarrow> st = ca_connected \<or> st = ca_uninitialized \<or> st = ca_active"

record cvar =
  cv_name :: "u8 list"
  cv_string :: "u8 list"
  cv_flags :: u32
  cv_value :: real

text \<open>The fields of \<^verbatim>\<open>client_t\<close> that a broadcast looks at.\<close>

record client =
  cl_used :: bool
  cl_padding04 :: bool
  cl_connected :: bool
  cl_fake :: bool
  cl_message :: sizebuf

record cvars =
  vs_tree :: "cvar list option"
  vs_state :: cactive
  vs_userinfo :: "u8 list"
  vs_message :: sizebuf
  vs_serverinfo :: "u8 list"
  vs_active :: bool
  vs_clients :: "client list"

definition FCVAR_USERINFO :: u32 where "FCVAR_USERINFO = 0x0002"
definition FCVAR_SERVER :: u32 where "FCVAR_SERVER = 0x0004"
definition FCVAR_EXTDLL :: u32 where "FCVAR_EXTDLL = 0x0008"
definition FCVAR_PROTECTED :: u32 where "FCVAR_PROTECTED = 0x0020"
definition FCVAR_SPONLY :: u32 where "FCVAR_SPONLY = 0x0040"
definition FCVAR_PRINTABLEONLY :: u32 where "FCVAR_PRINTABLEONLY = 0x0080"
definition FCVAR_UNLOGGED :: u32 where "FCVAR_UNLOGGED = 0x0100"

definition has_flag :: "u32 \<Rightarrow> cvar \<Rightarrow> bool" where
  "has_flag f v \<longleftrightarrow> cv_flags v AND f \<noteq> 0"

section \<open>Broadcasts\<close>

text \<open>The message of 1024 bytes: its first byte and the formatted text, which must not be short.\<close>

fun send_to :: "(client \<Rightarrow> bool) \<Rightarrow> u8 list \<Rightarrow> client list \<Rightarrow> client list outcome" where
  "send_to skip array [] = Inr []"
| "send_to skip array (cl # cls) =
     bindE (if skip cl then Inr cl
            else bindE (SZ_Write (cl_message cl) array (of_nat (length array - 1))) (\<lambda>m. Inr (cl\<lparr>cl_message := m\<rparr>))) (\<lambda>cl.
     bindE (send_to skip array cls) (\<lambda>cls. Inr (cl # cls)))"

definition SV_BroadcastCommand :: "u8 list \<Rightarrow> cvars \<Rightarrow> cvars outcome" where
  "SV_BroadcastCommand str vs =
     (if \<not> vs_active vs then Inr vs
      else if length str + 1 > 1023 then Inl SysError
      else bindE (send_to (\<lambda>cl. \<not> cl_used cl \<and> \<not> cl_connected cl \<and> \<not> cl_padding04 cl \<or> cl_fake cl) (9 # str @ [0]) (vs_clients vs))
        (\<lambda>cls. Inr (vs\<lparr>vs_clients := cls\<rparr>)))"

definition SV_BroadcastPrintf :: "u8 list \<Rightarrow> cvars \<Rightarrow> cvars outcome" where
  "SV_BroadcastPrintf str vs =
     (if \<not> vs_active vs then Inr vs
      else if length str + 1 > 1023 then Inl SysError
      else bindE (send_to (\<lambda>cl. \<not> cl_used cl \<and> \<not> cl_padding04 cl \<or> cl_fake cl) (8 # str @ [0]) (vs_clients vs))
        (\<lambda>cls. Inr (vs\<lparr>vs_clients := cls\<rparr>)))"

section \<open>Setting a variable\<close>

text \<open>
  The copy of the printable characters as it is written: the loop tests and copies the first character
  only, since it advances the other pointer; it ends when the array is full, and never for a first
  character that is not printable.
\<close>

definition printable_copy :: "u8 list \<Rightarrow> u8 list run" where
  "printable_copy str =
     (case str of
        [] \<Rightarrow> Some (Inr (cstr ''empty''))
      | c # _ \<Rightarrow> if isprint_c c then Some (Inr (replicate 1023 c)) else None)"

definition setinfo_text :: "u8 list \<Rightarrow> u8 list \<Rightarrow> u8 list" where
  "setinfo_text name val = take 1022 (cstr ''setinfo '' @ [34] @ name @ cstr ''\" \"'' @ val @ [34, 10])"

definition announce_info :: "cvar \<Rightarrow> u8 list \<Rightarrow> bool \<Rightarrow> cvars \<Rightarrow> cvars outcome" where
  "announce_info var str diff vs =
     (if vs_state vs = ca_dedicated then
        bindE (Info_SetValueForKey (vs_serverinfo vs) (cv_name var) str 0x200) (\<lambda>info.
          SV_BroadcastCommand (cstr ''fullserverinfo '' @ [34] @ info @ [34, 10]) (vs\<lparr>vs_serverinfo := info\<rparr>))
      else
        bindE (Info_SetValueForKey (vs_userinfo vs) (cv_name var) str 0x100) (\<lambda>info.
          if diff \<and> beyond_connecting (vs_state vs) then
            bindE (MSG_WriteByte_C (vs_message vs) 3) (\<lambda>m.
            bindE (SZ_Print m (setinfo_text (cv_name var) str)) (\<lambda>m.
              Inr (vs\<lparr>vs_userinfo := info, vs_message := m\<rparr>)))
          else Inr (vs\<lparr>vs_userinfo := info\<rparr>)))"

definition changed_text :: "cvar \<Rightarrow> u8 list \<Rightarrow> u8 list" where
  "changed_text var str = cv_name var @ cstr '' changed to '' @ (if has_flag FCVAR_PROTECTED var then cstr ''***PROTECTED***'' else str)"

text \<open>The variable and the value are pointers: \<open>None\<close> is \<^verbatim>\<open>NULL\<close>.\<close>

definition Cvar_DirectSet :: "cvar option \<Rightarrow> u8 list option \<Rightarrow> cvars \<Rightarrow> (cvar option \<times> cvars) run" where
  "Cvar_DirectSet var val vs =
     (case (var, val) of
        (Some v, Some s) \<Rightarrow>
          bindT (if has_flag FCVAR_PRINTABLEONLY v then printable_copy s else Some (Inr s)) (\<lambda>s.
          let diff = (strcmp (cv_string v) s \<noteq> 0) in
          bindT (Some (if has_flag FCVAR_USERINFO v then announce_info v s diff vs else Inr vs)) (\<lambda>vs.
          bindT (Some (if has_flag FCVAR_SERVER v \<and> diff \<and> \<not> has_flag FCVAR_UNLOGGED v
                       then SV_BroadcastPrintf (changed_text v s) vs else Inr vs)) (\<lambda>vs.
            Some (Inr (Some (v\<lparr>cv_string := s, cv_value := atof s\<rparr>), vs)))))
      | _ \<Rightarrow> Some (Inr (var, vs)))"

section \<open>The tree\<close>

definition Cvar_FindVar :: "u8 list \<Rightarrow> cvars \<Rightarrow> cvar option" where
  "Cvar_FindVar name vs = (case vs_tree vs of None \<Rightarrow> None | Some t \<Rightarrow> List.find (\<lambda>v. strcmp name (cv_name v) = 0) t)"

text \<open>A found variable is changed in place.\<close>

definition put_back :: "cvar \<Rightarrow> cvars \<Rightarrow> cvars" where
  "put_back v vs = vs\<lparr>vs_tree := map_option (map (\<lambda>u. if cv_name u = cv_name v then v else u)) (vs_tree vs)\<rparr>"

definition Cvar_Set :: "u8 list \<Rightarrow> u8 list \<Rightarrow> cvars \<Rightarrow> cvars run" where
  "Cvar_Set name val vs =
     (case Cvar_FindVar name vs of None \<Rightarrow> Some (Inr vs)
      | Some v \<Rightarrow> bindT (Cvar_DirectSet (Some v) (Some val) vs) (\<lambda>(v, vs).
          Some (Inr (case v of None \<Rightarrow> vs | Some v \<Rightarrow> put_back v vs))))"

definition Cvar_VariableString :: "u8 list \<Rightarrow> cvars \<Rightarrow> u8 list" where
  "Cvar_VariableString name vs = (case Cvar_FindVar name vs of None \<Rightarrow> [] | Some v \<Rightarrow> cv_string v)"

definition Cvar_VariableInt :: "u8 list \<Rightarrow> cvars \<Rightarrow> int outcome" where
  "Cvar_VariableInt name vs = (case Cvar_FindVar name vs of None \<Rightarrow> Inr 0 | Some v \<Rightarrow> int32 (atoi (cv_string v)))"

definition Cvar_VariableValue :: "u8 list \<Rightarrow> cvars \<Rightarrow> real" where
  "Cvar_VariableValue name vs = (case Cvar_FindVar name vs of None \<Rightarrow> 0 | Some v \<Rightarrow> atof (cv_string v))"

text \<open>The insertion of the tree: in order, replacing an equal key.\<close>

fun tree_insert :: "cvar \<Rightarrow> cvar list \<Rightarrow> cvar list" where
  "tree_insert v [] = [v]"
| "tree_insert v (u # us) =
     (if strcmp (cv_name v) (cv_name u) < 0 then v # u # us
      else if strcmp (cv_name v) (cv_name u) = 0 then v # us
      else u # tree_insert v us)"

text \<open>\<open>commands\<close> are the names of the console commands, the list \<^verbatim>\<open>Cmd_Exists\<close> searches.\<close>

definition Cvar_RegisterVariable :: "u8 list list \<Rightarrow> cvar \<Rightarrow> cvars \<Rightarrow> cvars outcome" where
  "Cvar_RegisterVariable commands v vs =
     (case vs_tree vs of None \<Rightarrow> Inl SysError
      | Some t \<Rightarrow>
          if Cvar_FindVar (cv_name v) vs \<noteq> None then Inr vs
          else if (\<exists>c \<in> set commands. strcmp (cv_name v) c = 0) then Inr vs
          else Inr (vs\<lparr>vs_tree := Some (tree_insert (v\<lparr>cv_value := atof (cv_string v)\<rparr>) t)\<rparr>))"

definition CVarRegister :: "u8 list list \<Rightarrow> cvar option \<Rightarrow> cvars \<Rightarrow> cvars outcome" where
  "CVarRegister commands var vs =
     (case var of None \<Rightarrow> Inr vs
      | Some v \<Rightarrow> Cvar_RegisterVariable commands (v\<lparr>cv_flags := cv_flags v OR FCVAR_EXTDLL\<rparr>) vs)"

definition Cvar_Init :: "cvars \<Rightarrow> cvars outcome" where
  "Cvar_Init vs = (if vs_tree vs \<noteq> None then Inl SysError else Inr (vs\<lparr>vs_tree := Some []\<rparr>))"

definition Cvar_Shutdown :: "cvars \<Rightarrow> cvars outcome" where
  "Cvar_Shutdown vs = (if vs_tree vs = None then Inl SysError else Inr (vs\<lparr>vs_tree := None\<rparr>))"

definition Cvar_CountServerVariables :: "cvars \<Rightarrow> nat" where
  "Cvar_CountServerVariables vs = (case vs_tree vs of None \<Rightarrow> 0 | Some t \<Rightarrow> length (filter (has_flag FCVAR_SERVER) t))"

text \<open>A line of the console that names a variable: the result says whether it did.\<close>

definition Cvar_Command :: "u8 list list \<Rightarrow> cvars \<Rightarrow> (bool \<times> cvars) run" where
  "Cvar_Command argv vs =
     (case Cvar_FindVar (nth_word argv 0) vs of
        None \<Rightarrow> Some (Inr (False, vs))
      | Some v \<Rightarrow>
          if length argv = 1 then Some (Inr (True, vs))
          else if has_flag FCVAR_SPONLY v \<and> vs_state vs \<noteq> ca_dedicated \<and> vs_state vs \<noteq> ca_disconnected then Some (Inr (True, vs))
          else bindT (Cvar_DirectSet (Some v) (Some (nth_word argv 1)) vs) (\<lambda>(v, vs).
            Some (Inr (True, case v of None \<Rightarrow> vs | Some v \<Rightarrow> put_back v vs))))"

section \<open>The answer to a rules query\<close>

definition shown_value :: "cvar \<Rightarrow> u8 list" where
  "shown_value v =
     (if has_flag FCVAR_PROTECTED v then
        (if cv_string v = [] \<or> strcasecmp (cv_string v) (cstr ''none'') = 0 then cstr ''0'' else cstr ''1'')
      else cv_string v)"

text \<open>The visits of the tree: the buffer, the position in it and the count of the variables.\<close>

fun rule_loop :: "nat \<Rightarrow> cvar list \<Rightarrow> u8 list \<Rightarrow> nat \<Rightarrow> u16 \<Rightarrow> (u8 list \<times> u16) outcome" where
  "rule_loop maxsize [] buffer cursize varcount = Inr (buffer, varcount)"
| "rule_loop maxsize (v # vs) buffer cursize varcount =
     (if has_flag FCVAR_SERVER v then
        let name = cv_name v @ [0]; val = shown_value v @ [0] in
        if cursize + length name + length val > maxsize then Inr (buffer, varcount + 1)
        else bindE (poke cursize name buffer) (\<lambda>buffer.
             bindE (poke (cursize + length name) val buffer) (\<lambda>buffer.
               rule_loop maxsize vs buffer (cursize + length name + length val) (varcount + 1)))
      else rule_loop maxsize vs buffer cursize varcount)"

text \<open>The result is what the function returns and the buffer.\<close>

definition Cvar_SVCRuleInfoVarWrite :: "u8 list \<Rightarrow> nat \<Rightarrow> cvars \<Rightarrow> (nat \<times> u8 list) outcome" where
  "Cvar_SVCRuleInfoVarWrite buffer n vs =
     (if n < 7 then Inr (0, buffer)
      else
        bindE (store32 0 0xFFFFFFFF buffer) (\<lambda>buffer.
        bindE (poke 4 (cstr ''E'') buffer) (\<lambda>buffer.
        bindE (rule_loop n (case vs_tree vs of None \<Rightarrow> [] | Some t \<Rightarrow> t) buffer 7 0) (\<lambda>(buffer, varcount).
        bindE (poke 5 (bytes16 varcount) buffer) (\<lambda>buffer. Inr (0, buffer))))))"

text \<open>The packet that is sent, if any; \<open>slots\<close> is \<^verbatim>\<open>allocated_client_slots\<close>.\<close>

definition SVC_RuleInfo :: "u8 list \<Rightarrow> nat \<Rightarrow> cvars \<Rightarrow> (u8 list option) outcome" where
  "SVC_RuleInfo data slots vs =
     (if \<not> vs_active vs \<or> slots < 2 then Inr None
      else bindE (Cvar_SVCRuleInfoVarWrite data 4096 vs) (\<lambda>(sizeofdata, data).
        if sizeofdata = 0 then Inr None else bindE (peek 0 sizeofdata data) (\<lambda>p. Inr (Some p))))"

section \<open>The order of the tree\<close>

lemma strcmp_refl [simp]: "strcmp s s = 0"
  by (induction s) auto

lemma strcmp_eq: "strcmp s t = 0 \<longleftrightarrow> s = t"
  by (induction s t rule: strcmp.induct) (auto simp: word_uint_eq_iff)

lemma strcmp_swap: "strcmp s t < 0 \<longleftrightarrow> 0 < strcmp t s"
  by (induction s t rule: strcmp.induct) auto

lemma strcmp_trans: "strcmp a b < 0 \<Longrightarrow> strcmp b c < 0 \<Longrightarrow> strcmp a c < 0"
proof (induction a b arbitrary: c rule: strcmp.induct)
  case (2 b bs)
  then show ?case
    by (cases c) auto
next
  case (4 a as b bs)
  then show ?case
    by (cases c) (auto split: if_splits)
qed auto

definition before :: "cvar \<Rightarrow> cvar \<Rightarrow> bool" where
  "before u v \<longleftrightarrow> strcmp (cv_name u) (cv_name v) < 0"

definition tree_ok :: "cvar list \<Rightarrow> bool" where
  "tree_ok t \<longleftrightarrow> sorted_wrt before t"

definition found :: "u8 list \<Rightarrow> cvar list \<Rightarrow> cvar option" where
  "found name t = List.find (\<lambda>v. strcmp name (cv_name v) = 0) t"

lemma found_Nil [simp]: "found name [] = None"
  by (simp add: found_def)

lemma found_Cons: "found name (v # t) = (if name = cv_name v then Some v else found name t)"
  by (simp add: found_def strcmp_eq)

lemma found_name: "found name t = Some v \<Longrightarrow> cv_name v = name \<and> v \<in> set t"
  by (auto simp: found_def find_Some_iff strcmp_eq)

lemma found_None: "found name t = None \<longleftrightarrow> (\<forall>v \<in> set t. cv_name v \<noteq> name)"
  by (auto simp: found_def find_None_iff strcmp_eq)

lemma tree_insert_found:
  "found (cv_name v) t = None \<Longrightarrow> found name (tree_insert v t) = (if name = cv_name v then Some v else found name t)"
  by (induction t) (auto simp: found_Cons strcmp_eq split: if_splits)

lemma set_tree_insert: "found (cv_name v) t = None \<Longrightarrow> set (tree_insert v t) = insert v (set t)"
  by (induction t) (auto simp: found_Cons strcmp_eq split: if_splits)

lemma tree_insert_ok: "tree_ok t \<Longrightarrow> found (cv_name v) t = None \<Longrightarrow> tree_ok (tree_insert v t)"
proof (induction t)
  case (Cons u us)
  have u: "found (cv_name v) us = None" "cv_name v \<noteq> cv_name u"
    using Cons.prems(2) by (auto simp: found_Cons split: if_splits)
  have "before u v" if "\<not> strcmp (cv_name v) (cv_name u) < 0"
    using that u(2) strcmp_swap [of "cv_name u" "cv_name v"] strcmp_eq [of "cv_name v" "cv_name u"]
    by (simp add: before_def)
  then show ?case
    using Cons u by (auto simp: tree_ok_def set_tree_insert before_def strcmp_eq intro: strcmp_trans)
qed (simp add: tree_ok_def)

text \<open>Changing a variable in place.\<close>

lemma found_map:
  "found (cv_name v) t \<noteq> None \<Longrightarrow> found name (map (\<lambda>u. if cv_name u = cv_name v then v else u) t) =
    (if name = cv_name v then Some v else found name t)"
proof (induction t)
  case (Cons u t)
  have other: "found name (map (\<lambda>u. if cv_name u = cv_name v then v else u) t) = found name t" if "name \<noteq> cv_name v"
    using that by (induction t) (auto simp: found_Cons)
  show ?case
    using Cons other by (auto simp: found_Cons)
qed simp

lemma map_names: "map cv_name (map (\<lambda>u. if cv_name u = cv_name v then v else u) t) = map cv_name t"
  by (induction t) auto

lemma tree_ok_map: "tree_ok (map (\<lambda>u. if cv_name u = cv_name v then v else u) t) \<longleftrightarrow> tree_ok t"
proof -
  have "tree_ok t \<longleftrightarrow> sorted_wrt (\<lambda>a b. strcmp a b < 0) (map cv_name t)" for t
    by (simp add: tree_ok_def before_def [abs_def] sorted_wrt_map)
  then show ?thesis
    by (simp only: map_names)
qed

lemma FindVar_found: "vs_tree vs = Some t \<Longrightarrow> Cvar_FindVar name vs = found name t"
  by (simp add: Cvar_FindVar_def found_def)

section \<open>Properties\<close>

text \<open>
  C27. Registration keeps the tree in order: on a tree in order it never fails, a variable whose name is free
  and not a command is found afterwards under its name with the number of its string, every other name
  is found as before, and a name that is taken changes nothing.
\<close>

theorem Cvar_RegisterVariable_ok:
  assumes "vs_tree vs = Some t" "tree_ok t"
  shows "\<exists>t'. Cvar_RegisterVariable commands v vs = Inr (vs\<lparr>vs_tree := Some t'\<rparr>) \<and> tree_ok t' \<and>
    (\<forall>name. Cvar_FindVar name (vs\<lparr>vs_tree := Some t'\<rparr>) =
      (if name = cv_name v \<and> Cvar_FindVar name vs = None \<and> name \<notin> set commands
       then Some (v\<lparr>cv_value := atof (cv_string v)\<rparr>) else Cvar_FindVar name vs))"
proof (cases "found (cv_name v) t = None \<and> cv_name v \<notin> set commands")
  case True
  let ?v = "v\<lparr>cv_value := atof (cv_string v)\<rparr>"
  have "Cvar_RegisterVariable commands v vs = Inr (vs\<lparr>vs_tree := Some (tree_insert ?v t)\<rparr>)"
    using True assms(1) by (auto simp: Cvar_RegisterVariable_def FindVar_found strcmp_eq)
  moreover have "tree_ok (tree_insert ?v t)"
    using True assms(2) by (intro tree_insert_ok) simp_all
  ultimately show ?thesis
    using True assms(1) tree_insert_found [of ?v t] by (auto simp: FindVar_found)
next
  case False
  then have "Cvar_RegisterVariable commands v vs = Inr vs" "vs\<lparr>vs_tree := Some t\<rparr> = vs"
    using assms(1) by (auto simp: Cvar_RegisterVariable_def FindVar_found strcmp_eq)
  then show ?thesis
    using False assms by (intro exI [of _ t]) (auto simp: FindVar_found)
qed

definition sample_cvars :: cvars where
  "sample_cvars = \<lparr>vs_tree = Some [], vs_state = ca_dedicated, vs_userinfo = [], vs_message = SZ_Alloc 3990,
     vs_serverinfo = [], vs_active = True, vs_clients = []\<rparr>"

definition sample_cvar :: cvar where
  "sample_cvar = \<lparr>cv_name = cstr ''sv_gravity'', cv_string = cstr ''800'', cv_flags = FCVAR_SERVER, cv_value = 0\<rparr>"

theorem Cvar_RegisterVariable_ok_witness:
  "\<exists>t'. Cvar_RegisterVariable [cstr ''wait''] sample_cvar sample_cvars = Inr (sample_cvars\<lparr>vs_tree := Some t'\<rparr>) \<and> tree_ok t' \<and>
    Cvar_VariableString (cstr ''sv_gravity'') (sample_cvars\<lparr>vs_tree := Some t'\<rparr>) = cstr ''800''"
  using Cvar_RegisterVariable_ok [of sample_cvars "[]" "[cstr ''wait'']" sample_cvar]
  by (auto simp: sample_cvars_def tree_ok_def Cvar_VariableString_def sample_cvar_def Cvar_FindVar_def cstr_def)

text \<open>One broadcast to clients whose messages have room for it in principle.\<close>

definition clients_ok :: "cvars \<Rightarrow> bool" where
  "clients_ok vs \<longleftrightarrow> (\<forall>cl \<in> set (vs_clients vs). sz_wf (cl_message cl) \<and>
     unat (sb_maxsize (cl_message cl)) = length (sb_data (cl_message cl)) \<and>
     1023 \<le> length (sb_data (cl_message cl)) \<and> length (sb_data (cl_message cl)) < 2 ^ 31)"

lemma SZ_Write_total:
  assumes "sz_wf m" "unat (sb_maxsize m) = length (sb_data m)" "n \<le> length (sb_data m)" "length (sb_data m) < 2 ^ 31" "n \<le> length src"
  shows "\<exists>m'. SZ_Write m src (of_nat n) = Inr m'"
proof -
  have "unat (sb_cursize m) + n < 2 ^ 32"
    using assms(1-4) by (simp add: sz_wf_nat)
  from SZ_Write_refines_aux [OF assms(1,2) this assms(5)] show ?thesis
    using assms(2,3,5) by (cases "SZ_Write m src (of_nat n)") (auto simp: abs_write_def sz_abs_def split: if_splits)
qed

lemma send_to_total:
  assumes "\<forall>cl \<in> set cls. sz_wf (cl_message cl) \<and> unat (sb_maxsize (cl_message cl)) = length (sb_data (cl_message cl)) \<and>
      1023 \<le> length (sb_data (cl_message cl)) \<and> length (sb_data (cl_message cl)) < 2 ^ 31"
    and "length array \<le> 1024" "array \<noteq> []"
  shows "\<exists>cls'. send_to skip array cls = Inr cls'"
  using assms
proof (induction cls)
  case (Cons cl cls)
  have "\<exists>m'. SZ_Write (cl_message cl) array (of_nat (length array - 1)) = Inr m'"
    using Cons.prems by (intro SZ_Write_total) auto
  then show ?case
    using Cons by auto
qed simp

lemma BroadcastPrintf_cases:
  assumes "clients_ok vs"
  shows "if vs_active vs \<and> 1023 \<le> length str then SV_BroadcastPrintf str vs = Inl SysError
    else \<exists>cls. SV_BroadcastPrintf str vs = Inr (vs\<lparr>vs_clients := cls\<rparr>)"
proof (cases "vs_active vs \<and> length str < 1023")
  case True
  then obtain cls where "send_to (\<lambda>cl. \<not> cl_used cl \<and> \<not> cl_padding04 cl \<or> cl_fake cl) (8 # str @ [0]) (vs_clients vs) = Inr cls"
    using send_to_total [of "vs_clients vs" "8 # str @ [0]"] assms by (auto simp: clients_ok_def)
  then show ?thesis
    using True by (auto simp: SV_BroadcastPrintf_def)
next
  case False
  then show ?thesis
    by (auto simp: SV_BroadcastPrintf_def intro: exI [of _ "vs_clients vs"])
qed



text \<open>
  A variable for printable text only cannot be given one: for a value that begins with a printable character
  it becomes 1023 copies of that character, for an empty one \<open>empty\<close>, and for any other the loop does not end.
\<close>

theorem printable_only_spoils:
  assumes "Cvar_FindVar name vs = Some v" "has_flag FCVAR_PRINTABLEONLY v" "\<not> has_flag FCVAR_USERINFO v" "\<not> has_flag FCVAR_SERVER v"
  shows "Cvar_Set name val vs =
    (if val = [] then Some (Inr (put_back (v\<lparr>cv_string := cstr ''empty'', cv_value := atof (cstr ''empty'')\<rparr>) vs))
     else if isprint_c (hd val)
     then Some (Inr (put_back (v\<lparr>cv_string := replicate 1023 (hd val), cv_value := atof (replicate 1023 (hd val))\<rparr>) vs))
     else None)"
  using assms by (cases val) (simp_all add: Cvar_Set_def Cvar_DirectSet_def printable_copy_def Let_def)

definition nick :: cvar where
  "nick = \<lparr>cv_name = cstr ''nick'', cv_string = cstr ''x'', cv_flags = FCVAR_PRINTABLEONLY, cv_value = 0\<rparr>"

theorem printable_only_spoils_witness:
  "\<exists>vs'. Cvar_Set (cstr ''nick'') (cstr ''Joe'') (sample_cvars\<lparr>vs_tree := Some [nick]\<rparr>) = Some (Inr vs') \<and>
    Cvar_VariableString (cstr ''nick'') vs' = replicate 1023 74"
proof -
  let ?vs = "sample_cvars\<lparr>vs_tree := Some [nick]\<rparr>"
  have h: "Cvar_FindVar (cstr ''nick'') ?vs = Some nick" "has_flag FCVAR_PRINTABLEONLY nick" "\<not> has_flag FCVAR_USERINFO nick"
    "\<not> has_flag FCVAR_SERVER nick"
    by (simp_all add: nick_def Cvar_FindVar_def has_flag_def FCVAR_PRINTABLEONLY_def FCVAR_USERINFO_def FCVAR_SERVER_def)
  show ?thesis
    using printable_only_spoils [OF h, of "cstr ''Joe''"]
    by (simp add: isprint_c_def cstr_def cchar_def put_back_def Cvar_VariableString_def Cvar_FindVar_def nick_def)
qed

section \<open>The rules packet\<close>

definition pair_bytes :: "cvar \<Rightarrow> u8 list" where
  "pair_bytes v = cv_name v @ [0] @ shown_value v @ [0]"

text \<open>The server variables that fit, and whether the list was cut.\<close>

fun fitting :: "nat \<Rightarrow> cvar list \<Rightarrow> cvar list \<times> bool" where
  "fitting room [] = ([], False)"
| "fitting room (v # vs) =
     (if \<not> has_flag FCVAR_SERVER v then fitting room vs
      else if length (pair_bytes v) > room then ([], True)
      else case fitting (room - length (pair_bytes v)) vs of (ws, short) \<Rightarrow> (v # ws, short))"

lemma rule_loop_fits:
  "cursize \<le> maxsize \<Longrightarrow> maxsize \<le> length buffer \<Longrightarrow> fitting (maxsize - cursize) vs = (ws, short) \<Longrightarrow>
    \<exists>buffer'. rule_loop maxsize vs buffer cursize k = Inr (buffer', k + of_nat (length ws) + (if short then 1 else 0)) \<and>
      length buffer' = length buffer \<and>
      take (cursize + length (concat (map pair_bytes ws))) buffer' = take cursize buffer @ concat (map pair_bytes ws)"
proof (induction vs arbitrary: buffer cursize k ws)
  case (Cons v vs)
  let ?n = "cv_name v @ [0]" and ?v = "shown_value v @ [0]"
  have pair: "pair_bytes v = ?n @ ?v" "length (pair_bytes v) = length ?n + length ?v"
    by (simp_all add: pair_bytes_def)
  consider (skip) "\<not> has_flag FCVAR_SERVER v" | (short) "has_flag FCVAR_SERVER v" "length (pair_bytes v) > maxsize - cursize"
    | (put) "has_flag FCVAR_SERVER v" "cursize + length ?n + length ?v \<le> maxsize"
    using Cons.prems(1) pair(2) by fastforce
  then show ?case
  proof cases
    case skip
    then show ?thesis
      using Cons by simp
  next
    case short
    then show ?thesis
      using Cons.prems pair(2) by (auto simp: Let_def)
  next
    case put
    let ?room = "maxsize - (cursize + length ?n + length ?v)"
    have room: "maxsize - cursize - length (pair_bytes v) = ?room" "\<not> length (pair_bytes v) > maxsize - cursize"
      using put(2) pair(2) by simp_all
    obtain ws' where ws: "fitting ?room vs = (ws', short)" "ws = v # ws'"
      using Cons.prems(3) put(1) room by (auto simp del: One_nat_def split: prod.splits)
    obtain b1 where b1: "poke cursize ?n buffer = Inr b1"
      using put Cons.prems(2) poke_total [of cursize ?n buffer] by fastforce
    obtain b2 where b2: "poke (cursize + length ?n) ?v b1 = Inr b2"
      using put Cons.prems(2) poke_total [of "cursize + length ?n" ?v b1] length_poke [OF b1] by fastforce
    obtain b' where b': "rule_loop maxsize vs b2 (cursize + length ?n + length ?v) (k + 1) =
        Inr (b', k + 1 + of_nat (length ws') + (if short then 1 else 0))" "length b' = length b2"
      "take (cursize + length ?n + length ?v + length (concat (map pair_bytes ws'))) b' =
        take (cursize + length ?n + length ?v) b2 @ concat (map pair_bytes ws')"
      using Cons.IH [OF put(2) _ ws(1), of b2 "k + 1"] Cons.prems(2) length_poke [OF b1] length_poke [OF b2] by auto
    have "take (cursize + length ?n + length ?v) b2 = take cursize buffer @ pair_bytes v"
      using poke_take_through [OF b2] poke_take_through [OF b1] pair(1) by simp
    then show ?thesis
      using b' b1 b2 put ws(2) length_poke [OF b1] length_poke [OF b2] pair
      by (auto simp: Let_def add.assoc)
  qed
qed auto

text \<open>
  C29. The rules are never told: for every state the packet is built inside its array, as the header, the number of
  the variables (one too many when the list had to be cut) and the pairs that fit; but the function returns 0
  instead of the length, so that no query is ever answered.
\<close>

theorem rules_never_sent:
  assumes "length data = 4096" "fitting 4089 (case vs_tree vs of None \<Rightarrow> [] | Some t \<Rightarrow> t) = (ws, short)"
  shows "(\<exists>data'. Cvar_SVCRuleInfoVarWrite data 4096 vs = Inr (0, data') \<and> length data' = 4096 \<and>
      take (7 + length (concat (map pair_bytes ws))) data' =
        bytes32 0xFFFFFFFF @ cstr ''E'' @ bytes16 (of_nat (length ws) + (if short then 1 else 0)) @ concat (map pair_bytes ws)) \<and>
    SVC_RuleInfo data slots vs = Inr None"
proof -
  let ?vars = "case vs_tree vs of None \<Rightarrow> [] | Some t \<Rightarrow> t"
  obtain d1 where d1: "store32 0 0xFFFFFFFF data = Inr d1"
    using poke_total [of 0 "bytes32 0xFFFFFFFF" data] assms(1) by (auto simp: store32_def)
  then have p1: "poke 0 (bytes32 0xFFFFFFFF) data = Inr d1"
    by (simp add: store32_def)
  obtain d2 where d2: "poke 4 (cstr ''E'') d1 = Inr d2"
    using poke_total [of 4 "cstr ''E''" d1] assms(1) length_poke [OF p1] by (auto simp: cstr_def)
  have l2: "length d2 = 4096"
    using length_poke [OF p1] length_poke [OF d2] assms(1) by simp
  obtain d3 where d3: "rule_loop 4096 ?vars d2 7 0 = Inr (d3, 0 + of_nat (length ws) + (if short then 1 else 0))" "length d3 = 4096"
    "take (7 + length (concat (map pair_bytes ws))) d3 = take 7 d2 @ concat (map pair_bytes ws)"
    using rule_loop_fits [of 7 4096 d2 ?vars ws short 0] assms(2) l2 by auto
  let ?count = "bytes16 (of_nat (length ws) + (if short then 1 else 0))"
  obtain d4 where d4: "poke 5 ?count d3 = Inr d4"
    using poke_total [of 5 ?count d3] d3(2) by auto
  have written: "Cvar_SVCRuleInfoVarWrite data 4096 vs = Inr (0, d4)"
    using d1 d2 d3(1) d4 by (simp add: Cvar_SVCRuleInfoVarWrite_def)
  have front: "take 5 d3 = bytes32 0xFFFFFFFF @ cstr ''E''"
  proof -
    have "take 5 d3 = take 5 (take 7 d3)"
      by simp
    also have "take 7 d3 = take 7 d2"
      using arg_cong [OF d3(3), of "take 7"] l2 by simp
    also have "take 5 (take 7 d2) = take (4 + length (cstr ''E'')) d2"
      by (simp add: cstr_def)
    also have "\<dots> = take (0 + length (bytes32 0xFFFFFFFF)) d1 @ cstr ''E''"
      using poke_take_through [OF d2] by simp
    also have "\<dots> = bytes32 0xFFFFFFFF @ cstr ''E''"
      using poke_take_through [OF p1] by simp
    finally show ?thesis .
  qed
  have "take (7 + m) d4 = take 5 d3 @ ?count @ take m (drop 7 d3)" for m
    using d4 d3(2) by (auto simp: poke_def take_drop min_def)
  moreover have "take (length (concat (map pair_bytes ws))) (drop 7 d3) = concat (map pair_bytes ws)"
    using arg_cong [OF d3(3), of "drop 7"] l2 by (simp add: drop_take)
  ultimately show ?thesis
    using written front length_poke [OF d4] d3(2) by (auto simp: SVC_RuleInfo_def)
qed

theorem rules_never_sent_witness:
  "\<exists>data'. Cvar_SVCRuleInfoVarWrite (replicate 4096 0) 4096 (sample_cvars\<lparr>vs_tree := Some [sample_cvar]\<rparr>) = Inr (0, data') \<and>
    take 22 data' = [255, 255, 255, 255, 69, 1, 0] @ cstr ''sv_gravity'' @ [0] @ cstr ''800'' @ [0]"
proof -
  have "fitting 4089 (case vs_tree (sample_cvars\<lparr>vs_tree := Some [sample_cvar]\<rparr>) of None \<Rightarrow> [] | Some t \<Rightarrow> t) = ([sample_cvar], False)"
    by (simp add: has_flag_def sample_cvar_def FCVAR_SERVER_def FCVAR_PROTECTED_def pair_bytes_def shown_value_def cstr_def)
  moreover have "bytes32 0xFFFFFFFF = [255, 255, 255, 255]" "bytes16 1 = [1, 0]"
    by code_simp+
  ultimately show ?thesis
    using rules_never_sent [of "replicate 4096 0" "sample_cvars\<lparr>vs_tree := Some [sample_cvar]\<rparr>" "[sample_cvar]" False]
    by (auto simp: has_flag_def sample_cvar_def FCVAR_SERVER_def FCVAR_PROTECTED_def pair_bytes_def shown_value_def cstr_def cchar_def)
qed

section \<open>The list and the tree\<close>

text \<open>The names are ordered by \<^verbatim>\<open>strcmp\<close>, so that the AVL trees of \<open>Avl\<close> are maps from names.\<close>

interpretation by_name: ordered_keys strcmp UNIV
  by unfold_locales (use strcmp_trans in \<open>auto simp: strcmp_eq strcmp_swap\<close>)

abbreviation named :: "cvar list \<Rightarrow> (u8 list \<times> cvar) list" where
  "named \<equiv> map (\<lambda>u. (cv_name u, u))"

lemma put_named: "by_name.put_key (cv_name v) v (named us) = named (tree_insert v us)"
proof (induction us)
  case (Cons u us)
  then show ?case
    using strcmp_swap [of "cv_name v" "cv_name u"] strcmp_eq [of "cv_name v" "cv_name u"] strcmp_eq [of "cv_name u" "cv_name v"]
    by auto
qed simp

lemma map_of_named: "map_of (named us) name = found name us"
  by (induction us) (auto simp: found_Cons)

lemma rule_loop_visit:
  "rule_loop m us buffer pos n =
    bindE (visit (\<lambda>_ v (buffer, pos, n). if has_flag FCVAR_SERVER v then
        let name = cv_name v @ [0]; val = shown_value v @ [0] in
        if pos + length name + length val > m then Inr ((buffer, pos, n + 1), True)
        else bindE (poke pos name buffer) (\<lambda>buffer. bindE (poke (pos + length name) val buffer) (\<lambda>buffer.
          Inr ((buffer, pos + length name + length val, n + 1), False)))
      else Inr ((buffer, pos, n), False)) (named us) (buffer, pos, n)) (\<lambda>((buffer, _, n), _). Inr (buffer, n))"
proof (induction us arbitrary: buffer pos n)
  case (Cons v us)
  show ?case
  proof (cases "has_flag FCVAR_SERVER v")
    case True
    then show ?thesis
      by (simp add: Let_def bindE_assoc Cons split_def)
  next
    case False
    then show ?thesis
      by (simp add: Cons)
  qed
qed simp

text \<open>
  C35. The ordered list of this theory is what the AVL tree of the code holds: when a balanced tree with the comparison
  \<^verbatim>\<open>strcmp\<close> holds the variables of the list in order, a lookup in the tree finds the same variable, an insertion into the
  tree gives a balanced tree that holds the list after \<open>tree_insert\<close>, and a visit of the tree with a callback is the loop
  over the list.
\<close>

theorem variables_in_avl:
  assumes "vs_tree vs = Some us" "tree_ok us"
    and "tree_fine UNIV t" "at_cmp t = strcmp" "\<And>v. \<not> at_null t v" "inorder (at_root t) = named us"
  shows "Cvar_FindVar name vs = cp_avltree_get t name \<and>
    (\<exists>t'. cp_avltree_insert t (cv_name v) v = Inr (Some v, t') \<and> tree_fine UNIV t' \<and> at_cmp t' = strcmp \<and>
      inorder (at_root t') = named (tree_insert v us)) \<and>
    cp_avltree_callback t f s = visit f (named us) s"
proof (intro conjI)
  have same: "non_null t = (\<lambda>r. r)"
    using assms(5) by (auto simp: non_null_def fun_eq_iff split: option.splits)
  show "Cvar_FindVar name vs = cp_avltree_get t name"
    using by_name.get_fine [OF assms(4,3), of name] assms(1,6) by (simp add: FindVar_found content_def map_of_named same)
  show "\<exists>t'. cp_avltree_insert t (cv_name v) v = Inr (Some v, t') \<and> tree_fine UNIV t' \<and> at_cmp t' = strcmp \<and>
      inorder (at_root t') = named (tree_insert v us)"
    using by_name.insert_fine [OF assms(4,3), of "cv_name v" v] assms(4-6) by (auto simp: put_named same same_kind_def)
  show "cp_avltree_callback t f s = visit f (named us) s"
    by (simp add: cp_avltree_callback_def scan_in_order assms(6))
qed

theorem variables_in_avl_witness:
  "\<exists>t'. cp_avltree_insert (cp_avltree_create strcmp False (\<lambda>_. False)) (cv_name sample_cvar) sample_cvar = Inr (Some sample_cvar, t') \<and>
    inorder (at_root t') = [(cstr ''sv_gravity'', sample_cvar)]"
proof -
  let ?t = "cp_avltree_create strcmp False (\<lambda>_. False) :: (u8 list, cvar) avltree"
  have t: "vs_tree sample_cvars = Some []" "tree_ok []" "tree_fine UNIV ?t" "at_cmp ?t = strcmp" "\<not> at_null ?t v"
    "inorder (at_root ?t) = named []" for v
    by (simp_all add: sample_cvars_def tree_ok_def tree_fine_def cp_avltree_create_def)
  obtain t' where "cp_avltree_insert ?t (cv_name sample_cvar) sample_cvar = Inr (Some sample_cvar, t')"
    "inorder (at_root t') = named (tree_insert sample_cvar [])"
    using variables_in_avl [OF t, of "[]" sample_cvar "\<lambda>_ _ s. Inr (s, False)" "()"] by blast
  then show ?thesis
    by (simp add: sample_cvar_def)
qed

end
