(* ===== verification/Commands.thy ===== *)
theory Commands
  imports CmdBuf Cvars
begin

text \<open>
  The console commands of \<^verbatim>\<open>cmd.c\<close>: the list of the commands, the words of the current one, aliases, the
  execution of a line, and the commands the file defines itself. The state is the record \<open>console\<close>, which extends
  the command buffer; the commands of other files are numbered and belong, with the file system and
  the command line, to the environment \<open>conenv\<close>. What is printed is collected in a field. Allocation succeeds.
\<close>

section \<open>State\<close>

datatype xcommand = StuffCmds | Exec | Echo | Alias | Forward | Wait | CmdList | ShowAlias | AliasList | Foreign nat

record cmd_function =
  cf_name :: "u8 list"
  cf_function :: xcommand
  cf_restriction :: u32

record cmdalias =
  al_name :: "u8 list"
  al_value :: "u8 list"

record console = cbuf +
  cn_functions :: "cmd_function list"
  cn_alias :: "cmdalias list"
  cn_argv :: "u8 list list"
  cn_args :: "u8 list option"
  cn_source :: u32
  cn_tokens :: tokens
  cn_vars :: cvars
  cn_output :: "u8 list"

record conenv =
  ev_argv :: "u8 list option list"
  ev_load :: "u8 list \<Rightarrow> u8 list option"
  ev_foreign :: "nat \<Rightarrow> console \<Rightarrow> console run"

definition con_print :: "u8 list \<Rightarrow> console \<Rightarrow> console" where
  "con_print str c = c\<lparr>cn_output := cn_output c @ str\<rparr>"

definition MAX_ARGS :: nat where
  "MAX_ARGS = 80"

definition MAX_ALIAS_NAME :: nat where
  "MAX_ALIAS_NAME = 32"

section \<open>The list of the commands\<close>

definition Cmd_FindCmd :: "u8 list \<Rightarrow> cmd_function list \<Rightarrow> cmd_function option" where
  "Cmd_FindCmd name fs = List.find (\<lambda>f. strcmp name (cf_name f) = 0) fs"

definition Cmd_Exists :: "u8 list \<Rightarrow> cmd_function list \<Rightarrow> bool" where
  "Cmd_Exists name fs \<longleftrightarrow> (\<exists>f \<in> set fs. strcmp name (cf_name f) = 0)"

fun Cmd_FindCmdPrev :: "u8 list \<Rightarrow> cmd_function list \<Rightarrow> cmd_function option" where
  "Cmd_FindCmdPrev name fs =
     (case fs of [] \<Rightarrow> None
      | f # _ \<Rightarrow> if strcmp name (cf_name f) = 0 then Some f
          else map_option fst (List.find (\<lambda>(_, g). strcmp name (cf_name g) = 0) (zip fs (drop 1 fs))))"

text \<open>The search for the place in the alphabet.\<close>

fun link_in :: "cmd_function \<Rightarrow> cmd_function list \<Rightarrow> cmd_function list" where
  "link_in cmd [] = [cmd]"
| "link_in cmd (f # fs) =
     (if strcasecmp (cf_name cmd) (cf_name f) < 0 then cmd # f # fs else f # link_in cmd fs)"

text \<open>A name that is a variable is only reported.\<close>

definition warn_var :: "u8 list \<Rightarrow> u8 list \<Rightarrow> console \<Rightarrow> console" where
  "warn_var who name c =
     (if Cvar_VariableString name (cn_vars c) \<noteq> [] then con_print (who @ name @ cstr '' already defined as a var'' @ [10]) c else c)"

definition warn_taken :: "u8 list \<Rightarrow> u8 list \<Rightarrow> xcommand \<Rightarrow> cmd_function \<Rightarrow> console \<Rightarrow> console" where
  "warn_taken who name function cmd c =
     con_print (who @ name @ (if cf_function cmd = function then cstr '' has already been made''
       else cstr '' is mapped to something else already'') @ [10]) c"

definition Cmd_AddCommand :: "u8 list \<Rightarrow> xcommand \<Rightarrow> console \<Rightarrow> console" where
  "Cmd_AddCommand name function c =
     (let c = warn_var (cstr ''Cmd_AddCommand: '') name c in
      case Cmd_FindCmd name (cn_functions c) of
        Some cmd \<Rightarrow> warn_taken (cstr ''Cmd_AddCommand: '') name function cmd c
      | None \<Rightarrow> c\<lparr>cn_functions := link_in \<lparr>cf_name = name, cf_function = function, cf_restriction = 0\<rparr> (cn_functions c)\<rparr>)"

definition Cmd_AddMallocCommand :: "u8 list \<Rightarrow> xcommand \<Rightarrow> u32 \<Rightarrow> console \<Rightarrow> console" where
  "Cmd_AddMallocCommand name function kind c =
     (let c = warn_var (cstr ''Cmd_AddMallocCommand: '') name c in
      case Cmd_FindCmd name (cn_functions c) of
        Some cmd \<Rightarrow> warn_taken (cstr ''Cmd_AddMallocCommand: '') name function cmd c
      | None \<Rightarrow> c\<lparr>cn_functions := \<lparr>cf_name = name, cf_function = function, cf_restriction = kind\<rparr> # cn_functions c\<rparr>)"

definition Cmd_AddGameCommand :: "u8 list \<Rightarrow> xcommand \<Rightarrow> console \<Rightarrow> console" where
  "Cmd_AddGameCommand name function c = Cmd_AddMallocCommand name function 2 c"

definition Cmd_AddHUDCommand :: "u8 list \<Rightarrow> xcommand \<Rightarrow> console \<Rightarrow> console" where
  "Cmd_AddHUDCommand name function c = Cmd_AddMallocCommand name function 1 c"

definition Cmd_AddWrapperCommand :: "u8 list \<Rightarrow> xcommand \<Rightarrow> console \<Rightarrow> console" where
  "Cmd_AddWrapperCommand name function c = Cmd_AddMallocCommand name function 4 c"

text \<open>The kept commands are linked in front of each other.\<close>

fun remove_commands :: "u32 \<Rightarrow> cmd_function list \<Rightarrow> cmd_function list \<Rightarrow> cmd_function list" where
  "remove_commands kind cmd [] = cmd"
| "remove_commands kind cmd (f # fs) =
     (if cf_restriction f AND kind \<noteq> 0 then remove_commands kind cmd fs else remove_commands kind (f # cmd) fs)"

definition Cmd_RemoveMallocedCmds :: "u32 \<Rightarrow> console \<Rightarrow> console" where
  "Cmd_RemoveMallocedCmds kind c = c\<lparr>cn_functions := remove_commands kind [] (cn_functions c)\<rparr>"

definition Cmd_RemoveGameCmds :: "console \<Rightarrow> console" where
  "Cmd_RemoveGameCmds c = Cmd_RemoveMallocedCmds 2 c"

definition Cmd_RemoveHUDCmds :: "console \<Rightarrow> console" where
  "Cmd_RemoveHUDCmds c = Cmd_RemoveMallocedCmds 1 c"

definition Cmd_RemoveWrapperCmds :: "console \<Rightarrow> console" where
  "Cmd_RemoveWrapperCmds c = Cmd_RemoveMallocedCmds 4 c"

definition Cmd_Init :: "console \<Rightarrow> console" where
  "Cmd_Init c = fold (\<lambda>(name, f). Cmd_AddCommand (cstr name) f)
     [(''stuffcmds'', StuffCmds), (''exec'', Exec), (''echo'', Echo), (''alias'', Alias), (''cmd'', Forward), (''wait'', Wait),
      (''cmdlist'', CmdList), (''showalias'', ShowAlias), (''aliaslist'', AliasList)] c"

definition Cmd_Shutdown :: "console \<Rightarrow> console" where
  "Cmd_Shutdown c = c\<lparr>cn_functions := [], cn_argv := [], cn_args := None\<rparr>"

section \<open>The words of a line\<close>

definition Cmd_Argc :: "console \<Rightarrow> nat" where
  "Cmd_Argc c = length (cn_argv c)"

text \<open>The argument is an \<^verbatim>\<open>int\<close>: a negative one passes the test.\<close>

definition Cmd_Argv :: "console \<Rightarrow> int \<Rightarrow> u8 list outcome" where
  "Cmd_Argv c arg =
     (if arg \<ge> int (length (cn_argv c)) then Inr []
      else if arg < 0 then Inl OutOfBounds else Inr (cn_argv c ! nat arg))"

definition Cmd_Args :: "console \<Rightarrow> u8 list" where
  "Cmd_Args c = (case cn_args c of None \<Rightarrow> [] | Some s \<Rightarrow> s)"

definition skip_unprinted :: "u8 list \<Rightarrow> u8 list" where
  "skip_unprinted str = dropWhile (\<lambda>b. \<not> isprint_c b \<and> b \<noteq> 10) str"

lemma skip_unprinted_shorter: "length (skip_unprinted str) \<le> length str"
  by (simp add: skip_unprinted_def length_dropWhile_le)

function tokenize_loop :: "tokens \<Rightarrow> u8 list list \<Rightarrow> u8 list option \<Rightarrow> u8 list \<Rightarrow> tokens \<times> u8 list list \<times> u8 list option" where
  "tokenize_loop tk argv args str =
     (let d = skip_unprinted str in
      if d = [] \<or> hd d = 10 then (tk, argv, args)
      else let args' = (if length argv = 1 then Some d else args) in
        case COM_Parse tk (Some d) of
          (tk', None) \<Rightarrow> (tk', argv, args')
        | (tk', Some rest) \<Rightarrow>
            if length (tk_token tk') + 1 > 0x203 then (tk', argv, args')
            else if length argv \<ge> MAX_ARGS then tokenize_loop tk' argv args' rest
            else tokenize_loop tk' (argv @ [tk_token tk']) args' rest)"
  by pat_completeness auto

termination
proof (relation "measure (\<lambda>(tk, argv, args, str). 2 * length str + (if tk_unget tk then 1 else 0))")
qed (use parse_smaller [OF sym] skip_unprinted_shorter in \<open>fastforce intro: less_le_trans\<close>)+

declare tokenize_loop.simps [simp del]

definition Cmd_TokenizeString :: "u8 list \<Rightarrow> console \<Rightarrow> console" where
  "Cmd_TokenizeString str c =
     (case tokenize_loop (cn_tokens c) [] None str of (tk, argv, args) \<Rightarrow>
        c\<lparr>cn_tokens := tk, cn_argv := argv, cn_args := args\<rparr>)"

text \<open>\<open>None\<close> is \<^verbatim>\<open>NULL\<close>; the result is the index, 0 when the word is absent.\<close>

fun find_word :: "u8 list \<Rightarrow> nat \<Rightarrow> u8 list list \<Rightarrow> nat" where
  "find_word parm i [] = 0"
| "find_word parm i (w # ws) = (if strcasecmp parm w = 0 then i else find_word parm (i + 1) ws)"

definition Cmd_CheckParm :: "u8 list option \<Rightarrow> console \<Rightarrow> nat outcome" where
  "Cmd_CheckParm parm c =
     (case parm of None \<Rightarrow> Inl SysError | Some p \<Rightarrow> Inr (find_word p 1 (drop 1 (cn_argv c))))"

section \<open>The commands of the file\<close>

text \<open>
  \<^verbatim>\<open>stuffcmds\<close>: the arguments joined by blanks; each part from a plus sign up to the next plus, minus or the end is a
  line. The arrays have three bytes per argument more than the arguments, so that no index leaves them.
\<close>

fun join_args :: "u8 list option list \<Rightarrow> u8 list" where
  "join_args [] = []"
| "join_args (None # as) = join_args as"
| "join_args (Some a # as) = a @ (if as = [] then [] else [32]) @ join_args as"

function plus_lines :: "u8 list \<Rightarrow> u8 list \<Rightarrow> u8 list" where
  "plus_lines str build =
     (case dropWhile (\<lambda>b. b \<noteq> 43) str of
        [] \<Rightarrow> build
      | _ # rest \<Rightarrow>
          plus_lines (dropWhile (\<lambda>b. b \<noteq> 43 \<and> b \<noteq> 45) rest)
            ((if build = [] then [] else build @ [10]) @ takeWhile (\<lambda>b. b \<noteq> 43 \<and> b \<noteq> 45) rest))"
  by pat_completeness auto

termination
proof (relation "measure (\<lambda>(str, build). length str)")
  fix str build rest :: "u8 list" and b
  assume "dropWhile (\<lambda>b. b \<noteq> 43) str = b # rest"
  then have "length rest < length str"
    using length_dropWhile_le [of "\<lambda>b. b \<noteq> 43" str] by simp
  then show "((dropWhile (\<lambda>b. b \<noteq> 43 \<and> b \<noteq> 45) rest, (if build = [] then [] else build @ [10]) @
      takeWhile (\<lambda>b. b \<noteq> 43 \<and> b \<noteq> 45) rest), str, build) \<in> measure (\<lambda>(str, build). length str)"
    using length_dropWhile_le [of "\<lambda>b. b \<noteq> 43 \<and> b \<noteq> 45" rest] by simp
qed simp

declare plus_lines.simps [simp del]

definition Cmd_StuffCmds_f :: "u8 list option list \<Rightarrow> console \<Rightarrow> console outcome" where
  "Cmd_StuffCmds_f com_argv c =
     (let args = drop 1 com_argv in
      if \<forall>a \<in> set args. a = None then Inr c
      else let build = plus_lines (join_args args) [] in
        if build = [] then Inr c
        else bindE (Cbuf_AddText build (cb_text c)) (\<lambda>t. Inr (c\<lparr>cb_text := t\<rparr>)))"

text \<open>
  The extension after the last dot, at most nine characters. The copying loop of \<^verbatim>\<open>COM_FileExtensionThreadSafe\<close> tests the first
  character every time and so copies nine bytes, which may lie behind the terminator; the string is the part before it.
\<close>

fun after_last_dot :: "u8 list \<Rightarrow> u8 list option" where
  "after_last_dot [] = None"
| "after_last_dot (b # bs) =
     (case after_last_dot bs of Some e \<Rightarrow> Some e | None \<Rightarrow> if b = 46 then Some bs else None)"

definition COM_FileExtensionThreadSafe :: "u8 list \<Rightarrow> u8 list" where
  "COM_FileExtensionThreadSafe f = (case after_last_dot f of None \<Rightarrow> [] | Some e \<Rightarrow> take 9 e)"

fun climbs :: "u8 list \<Rightarrow> bool" where
  "climbs (a # b # bs) = (a = 46 \<and> b = 46 \<or> climbs (b # bs))"
| "climbs bs = False"

definition Cmd_Exec_f :: "(u8 list \<Rightarrow> u8 list option) \<Rightarrow> console \<Rightarrow> console outcome" where
  "Cmd_Exec_f load c =
     (let f = nth_word (cn_argv c) 1; extension = COM_FileExtensionThreadSafe f in
      if Cmd_Argc c \<noteq> 2 then Inr (con_print (cstr ''exec <filename> : execute a script file'' @ [34, 10]) c)
      else if climbs f \<or> 58 \<in> set f \<or> at0 f = 92 \<or> at0 f = 47 then
        Inr (con_print (cstr ''Cmd_Exec: Did not execute '' @ [34] @ f @ [34] @ cstr ''; path was disallowed.'' @ [10]) c)
      else if strcasecmp extension (cstr ''rc'') \<noteq> 0 \<and> strcasecmp extension (cstr ''cfg'') \<noteq> 0 then
        Inr (con_print (cstr ''Cmd_Exec: Did not execute '' @ [34] @ f @ [34] @
          cstr ''; didn'' @ [39] @ cstr ''t have either a .rc or .cfg extension.'' @ [10]) c)
      else (case load f of
          None \<Rightarrow> Inr (con_print (cstr ''Cmd_Exec: Couldn'' @ [39] @ cstr ''t open '' @ f @ cstr ''.  Better luck next time.'' @ [10]) c)
        | Some fp \<Rightarrow>
            bindE (Cbuf_InsertText fp (cb_text c)) (\<lambda>t.
              Inr (con_print (cstr ''Cmd_Exec: Executing '' @ f @ cstr ''...'' @ [10]) c\<lparr>cb_text := t\<rparr>))))"

definition Cmd_Echo_f :: "console \<Rightarrow> console" where
  "Cmd_Echo_f c = con_print (concat (map (\<lambda>w. w @ [32]) (cn_argv c)) @ [10]) c"

definition Cmd_ForwardToServer :: "console \<Rightarrow> console" where
  "Cmd_ForwardToServer c = con_print (cstr ''Cmd_ForwardToServer called'') c"

definition Cmd_AliasList_f :: "console \<Rightarrow> console" where
  "Cmd_AliasList_f c =
     con_print (cstr ''Current aliases:'' @ [10] @
       concat (map (\<lambda>a. [32, 32] @ al_name a @ cstr '' : '' @ al_value a @ [10]) (cn_alias c)) @
       (if cn_alias c = [] then cstr ''No aliases found.'' @ [10]
        else dec (length (cn_alias c)) @ cstr '' total aliases.'' @ [10])) c"

text \<open>
  The loop that is to add up the lengths of the words adds to its own bound \<open>j\<close>. It runs until the
  index is negative as an \<^verbatim>\<open>int\<close>.
\<close>

function alias_loop :: "console \<Rightarrow> u32 \<Rightarrow> u32 \<Rightarrow> unit outcome" where
  "alias_loop c i j =
     (if i < j then
        (if unat i < 2 ^ 31 then
           bindE (Cmd_Argv c (sint i)) (\<lambda>w. alias_loop c (i + 1) (j + of_nat (length w) + 1))
         else bindE (Cmd_Argv c (sint i)) (\<lambda>w. Inl Undefined))
      else Inr ())"
  by pat_completeness auto

termination
proof (relation "measure (\<lambda>(c, i, j). 2 ^ 31 - unat i)")
  fix c :: console and i j :: u32 and w
  assume "unat i < 2 ^ 31"
  then have "unat (i + 1) = unat i + 1"
    by (subst unat_u32_add) simp_all
  then show "((c, i + 1, j + of_nat (length w) + 1), c, i, j) \<in> measure (\<lambda>(c, i, j). 2 ^ 31 - unat i)"
    using \<open>unat i < 2 ^ 31\<close> by simp
qed simp

declare alias_loop.simps [simp del]

text \<open>\<^verbatim>\<open>length\<close> is still 0 after the loop, so that nothing after the test of it is reached.\<close>

definition Cmd_Alias_f :: "console \<Rightarrow> console outcome" where
  "Cmd_Alias_f c =
     (if Cmd_Argc c = 1 then Inr (Cmd_AliasList_f c)
      else let cs = nth_word (cn_argv c) 1 in
        if length cs \<ge> MAX_ALIAS_NAME \<or> strcmp cs (cstr ''say'') = 0 then
          Inr (con_print (cstr ''Alias name '' @ cs @ cstr '' is too long--rejected'') c)
        else bindE (alias_loop c 2 (of_nat (Cmd_Argc c))) (\<lambda>_. Inr c))"

definition Cmd_Wait_f :: "console \<Rightarrow> console" where
  "Cmd_Wait_f c = c\<lparr>cb_wait := True\<rparr>"

definition Cmd_CmdList_f :: "console \<Rightarrow> console" where
  "Cmd_CmdList_f c =
     (let list = (\<lambda>c. con_print ([34] @ cstr ''Command list:'' @ [34, 10] @
          concat (map (\<lambda>f. cf_name f @ [10]) (cn_functions c)) @
          [10] @ cstr ''--'' @ dec (length (cn_functions c)) @ cstr '' matching commands found.'' @ [10]) c);
          w = nth_word (cn_argv c) 1 in
      if Cmd_Argc c > 1 then
        (if strcmp (cstr ''?'') w = 0 then
           con_print (cstr ''CmdList           : List all commands'' @ [10] @
             cstr ''CmdList [Partial] : List commands starting with '' @ [39] @ cstr ''Partial'' @ [39, 10] @
             cstr ''CmdList log [Partial] : Logs commands to file '' @ [34] @ cstr ''cmdlist.txt'' @ [34] @ cstr '' in the gamedir.'' @ [10]) c
         else if strcasecmp (cstr ''log'') w = 0 then
           con_print (cstr ''File redirection will be added in later.  Like after the engine is finished.'' @ [10]) c
         else list (con_print (cstr ''Actually adding in the [partial] stuff is currently a low priority.  Google it.'' @ [10]) c))
      else list c)"

definition Cmd_ShowAlias_f :: "console \<Rightarrow> console" where
  "Cmd_ShowAlias_f c =
     (let s = nth_word (cn_argv c) 1 in
      if Cmd_Argc c \<noteq> 2 then
        con_print (cstr ''showalias <alias> : Prints out what the alias is equivalent to.'' @ [10]) c
      else (case List.find (\<lambda>a. strcmp s (al_name a) = 0) (cn_alias c) of
          Some a \<Rightarrow> con_print (cstr ''alias '' @ al_name a @ cstr '' is equivalent to '' @ [34, 32] @ al_value a @ [34, 10]) c
        | None \<Rightarrow>
            (case List.find (\<lambda>a. strcasecmp s (al_name a) = 0) (cn_alias c) of
               Some a \<Rightarrow> con_print (cstr ''alias found with mismatched case ('' @ al_name a @ cstr '' is equivalent to '' @
                 [34, 32] @ al_value a @ [34] @ cstr '')'' @ [10]) c
             | None \<Rightarrow> con_print (cstr ''Alias '' @ s @ cstr '' doesn'' @ [39] @ cstr ''t exist'' @ [10]) c)))"

section \<open>Executing a line\<close>

definition run_command :: "conenv \<Rightarrow> xcommand \<Rightarrow> console \<Rightarrow> console run" where
  "run_command ev x c =
     (case x of
        StuffCmds \<Rightarrow> Some (Cmd_StuffCmds_f (ev_argv ev) c)
      | Exec \<Rightarrow> Some (Cmd_Exec_f (ev_load ev) c)
      | Echo \<Rightarrow> Some (Inr (Cmd_Echo_f c))
      | Alias \<Rightarrow> Some (Cmd_Alias_f c)
      | Forward \<Rightarrow> Some (Inr (Cmd_ForwardToServer c))
      | Wait \<Rightarrow> Some (Inr (Cmd_Wait_f c))
      | CmdList \<Rightarrow> Some (Inr (Cmd_CmdList_f c))
      | ShowAlias \<Rightarrow> Some (Inr (Cmd_ShowAlias_f c))
      | AliasList \<Rightarrow> Some (Inr (Cmd_AliasList_f c))
      | Foreign n \<Rightarrow> ev_foreign ev n c)"

definition Cmd_ExecuteString :: "conenv \<Rightarrow> u32 \<Rightarrow> u8 list \<Rightarrow> console \<Rightarrow> console run" where
  "Cmd_ExecuteString ev level str c =
     (let c = Cmd_TokenizeString str (c\<lparr>cn_source := level\<rparr>); name = nth_word (cn_argv c) 0 in
      if Cmd_Argc c = 0 then Some (Inr c)
      else (case List.find (\<lambda>f. strcasecmp name (cf_name f) = 0) (cn_functions c) of
          Some cmd \<Rightarrow> run_command ev (cf_function cmd) c
        | None \<Rightarrow>
            (case List.find (\<lambda>a. strcasecmp name (al_name a) = 0) (cn_alias c) of
               Some a \<Rightarrow> bindT (Some (Cbuf_InsertText (al_value a) (cb_text c))) (\<lambda>t. Some (Inr (c\<lparr>cb_text := t\<rparr>)))
             | None \<Rightarrow>
                 bindT (Cvar_Command (cn_argv c) (cn_vars c)) (\<lambda>(isvar, vars).
                   let c = c\<lparr>cn_vars := vars\<rparr>; st = vs_state vars in
                   Some (Inr (if isvar then c
                     else if st = ca_connected \<or> st = ca_uninitialized \<or> st = ca_active then Cmd_ForwardToServer c
                     else Cmd_Echo_f (con_print (cstr ''Unknown variable or unsupported command: '') c)))))))"

text \<open>One frame: the pending text runs as the server's own.\<close>

definition console_frame :: "conenv \<Rightarrow> console \<Rightarrow> console run" where
  "console_frame ev c = Cbuf_Execute (Cmd_ExecuteString ev 1) c"

text \<open>\<^verbatim>\<open>cvarlist\<close>, the command \<^verbatim>\<open>cvar.c\<close> registers; it is number 0 of the environment \<open>cvar_env\<close>.\<close>

fun hexa :: "nat \<Rightarrow> u8 list" where
  "hexa n = (let d = n mod 16; c = [if d < 10 then 48 + of_nat d else 55 + of_nat d] in if n < 16 then c else hexa (n div 16) @ c)"

declare hexa.simps [simp del]

definition Cvar_CvarList_f :: "console \<Rightarrow> console" where
  "Cvar_CvarList_f c =
     (let t = (case vs_tree (cn_vars c) of None \<Rightarrow> [] | Some t \<Rightarrow> t);
          list = (\<lambda>c. con_print ([34] @ cstr ''Cvars:'' @ [34, 10] @
            concat (map (\<lambda>v. cv_name v @ cstr '' = '' @ [34] @ cv_string v @ [34] @ cstr ''.  Flags are 0x'' @
              hexa (unat (cv_flags v)) @ [10]) t) @
            [10] @ cstr ''--'' @ dec (length t) @ cstr '' matching vars found.'' @ [10]) c);
          w = nth_word (cn_argv c) 1 in
      if Cmd_Argc c > 1 then
        (if strcmp (cstr ''?'') w = 0 then
           con_print (cstr ''Cvarlist           : List all commands'' @ [10] @
             cstr ''Cvarlist [Partial] : List commands starting with '' @ [39] @ cstr ''Partial'' @ [39, 10] @
             cstr ''Cvarlist log [Partial] : Logs commands to file '' @ [34] @ cstr ''cmdlist.txt'' @ [34] @ cstr '' in the gamedir.'' @ [10]) c
         else if strcasecmp (cstr ''log'') w = 0 then
           con_print (cstr ''File redirection will be added in later.  Like after the engine is finished.'' @ [10]) c
         else list (con_print (cstr ''Actually adding in the [partial] stuff is currently a low priority.  Google it, lazy.'' @ [10]) c))
      else list c)"

definition cvar_env :: "u8 list option list \<Rightarrow> (u8 list \<Rightarrow> u8 list option) \<Rightarrow> conenv" where
  "cvar_env args load = \<lparr>ev_argv = args, ev_load = load,
     ev_foreign = (\<lambda>n c. if n = 0 then Some (Inr (Cvar_CvarList_f c)) else Some (Inl BadPointer))\<rparr>"

section \<open>A frame of the console\<close>

definition console_ok :: "console \<Rightarrow> bool" where
  "console_ok c \<longleftrightarrow> text_wf (cb_text c) \<and> (\<forall>a \<in> set (cn_alias c). length (al_value a) < 2 ^ 31)"

lemma length_plus_lines: "length (plus_lines str build) \<le> length build + length str"
proof (induction str build rule: plus_lines.induct)
  case (1 str build)
  show ?case
  proof (cases "dropWhile (\<lambda>b. b \<noteq> 43) str")
    case Nil
    show ?thesis
      unfolding plus_lines.simps [of str] Nil by simp
  next
    case (Cons b rest)
    let ?seg = "takeWhile (\<lambda>b. b \<noteq> 43 \<and> b \<noteq> 45) rest" and ?rest = "dropWhile (\<lambda>b. b \<noteq> 43 \<and> b \<noteq> 45) rest"
    have "length rest + 1 \<le> length str"
      using Cons length_dropWhile_le [of "\<lambda>b. b \<noteq> 43" str] by simp
    moreover have "length rest = length ?seg + length ?rest"
      by (metis length_append takeWhile_dropWhile_id)
    moreover have "plus_lines str build = plus_lines ?rest ((if build = [] then [] else build @ [10]) @ ?seg)"
      using Cons by (simp add: plus_lines.simps [of str])
    ultimately show ?thesis
      using 1 [OF Cons] by (auto split: if_splits)
  qed
qed

text \<open>The operations leave what they do not mention alone.\<close>

lemma con_print_ok [simp]: "console_ok (con_print str c) = console_ok c"
  by (simp add: con_print_def console_ok_def)

lemma con_print_text [simp]: "cb_text (con_print str c) = cb_text c" "cn_alias (con_print str c) = cn_alias c"
  by (simp_all add: con_print_def)

lemma printing_ok [simp]:
  "console_ok (Cmd_Echo_f c) = console_ok c" "console_ok (Cmd_ForwardToServer c) = console_ok c"
  "console_ok (Cmd_AliasList_f c) = console_ok c" "console_ok (Cmd_CmdList_f c) = console_ok c"
  "console_ok (Cmd_ShowAlias_f c) = console_ok c" "console_ok (Cvar_CvarList_f c) = console_ok c"
  by (simp_all add: Cmd_Echo_f_def Cmd_ForwardToServer_def Cmd_AliasList_f_def Cmd_CmdList_f_def Cmd_ShowAlias_f_def
      Cvar_CvarList_f_def Let_def split: option.splits)

lemma console_ok_change: "console_ok c \<Longrightarrow> text_wf t \<Longrightarrow> console_ok (c\<lparr>cb_text := t\<rparr>)"
  by (simp add: console_ok_def)

lemma tokenize_ok [simp]: "console_ok (Cmd_TokenizeString str c) = console_ok c"
  by (simp add: Cmd_TokenizeString_def console_ok_def split: prod.splits)

lemma StuffCmds_keeps:
  assumes "console_ok c" "Cmd_StuffCmds_f com_argv c = Inr c'" "length (join_args (drop 1 com_argv)) < 2 ^ 31"
  shows "console_ok c'"
proof -
  have "length (plus_lines (join_args (drop 1 com_argv)) []) < 2 ^ 31"
    using length_plus_lines [of "join_args (drop 1 com_argv)" "[]"] assms(3) by simp
  from Cbuf_AddText_result [OF _ this, of "cb_text c"] show ?thesis
    using assms(1,2) by (auto simp: Cmd_StuffCmds_f_def Let_def console_ok_def split: if_splits)
qed

lemma Exec_keeps:
  assumes "console_ok c" "Cmd_Exec_f load c = Inr c'" "\<And>f s. load f = Some s \<Longrightarrow> length s < 2 ^ 31"
  shows "console_ok c'"
proof (cases "load (nth_word (cn_argv c) 1)")
  case (Some fp)
  have "console_ok (c\<lparr>cb_text := t\<rparr>)" if "Cbuf_InsertText fp (cb_text c) = Inr t" for t
    using Cbuf_InsertText_result [OF _ assms(3) [OF Some], of "cb_text c"] assms(1) that by (auto simp: console_ok_def)
  then show ?thesis
    using assms(1,2) Some by (auto simp: Cmd_Exec_f_def Let_def con_print_def console_ok_def bindE_eq_Inr split: if_splits)
qed (use assms in \<open>auto simp: Cmd_Exec_f_def Let_def split: if_splits\<close>)

lemma Alias_keeps: "console_ok c \<Longrightarrow> Cmd_Alias_f c = Inr c' \<Longrightarrow> console_ok c'"
  by (auto simp: Cmd_Alias_f_def Let_def outcome_simps split: if_splits)

text \<open>What the console needs from its environment.\<close>

locale console_env =
  fixes ev :: conenv
  assumes files_short: "ev_load ev f = Some s \<Longrightarrow> length s < 2 ^ 31"
    and args_short: "length (join_args (drop 1 (ev_argv ev))) < 2 ^ 31"
    and foreign_keeps: "console_ok c \<Longrightarrow> ev_foreign ev n c = Some (Inr c') \<Longrightarrow> console_ok c'"
begin

lemma run_keeps:
  assumes "console_ok c" "run_command ev x c = Some (Inr c')"
  shows "console_ok c'"
proof (cases x)
  case StuffCmds
  then show ?thesis
    using assms StuffCmds_keeps [OF assms(1) _ args_short] by (simp add: run_command_def)
next
  case Exec
  then show ?thesis
    using assms(2) Exec_keeps [OF assms(1) _ files_short] by (simp add: run_command_def)
next
  case Alias
  then show ?thesis
    using assms Alias_keeps by (simp add: run_command_def)
next
  case Wait
  then show ?thesis
    using assms by (auto simp: run_command_def Cmd_Wait_f_def console_ok_def)
next
  case (Foreign n)
  then show ?thesis
    using assms foreign_keeps by (simp add: run_command_def)
qed (use assms in \<open>auto simp: run_command_def\<close>)

lemma execute_keeps:
  assumes "console_ok c" "Cmd_ExecuteString ev level str c = Some (Inr c')"
  shows "console_ok c'"
proof -
  define c1 where "c1 = Cmd_TokenizeString str (c\<lparr>cn_source := level\<rparr>)"
  have ok: "console_ok c1"
    using assms(1) by (simp add: c1_def) (simp add: console_ok_def)
  have alias_ok: "console_ok (c1\<lparr>cb_text := t\<rparr>)" if "a \<in> set (cn_alias c1)" "Cbuf_InsertText (al_value a) (cb_text c1) = Inr t" for a t
    using Cbuf_InsertText_result [of "cb_text c1" "al_value a"] ok that by (auto simp: console_ok_def)
  have vars_ok: "console_ok (c1\<lparr>cn_vars := v\<rparr>)" for v
    using ok by (simp add: console_ok_def)
  let ?name = "nth_word (cn_argv c1) 0"
  let ?cmd = "List.find (\<lambda>f. strcasecmp ?name (cf_name f) = 0) (cn_functions c1)"
  let ?short = "List.find (\<lambda>a. strcasecmp ?name (al_name a) = 0) (cn_alias c1)"
  note run = assms(2) [unfolded Cmd_ExecuteString_def, folded c1_def, unfolded Let_def]
  consider (nothing) "Cmd_Argc c1 = 0" | (cmd) f where "Cmd_Argc c1 \<noteq> 0" "?cmd = Some f"
    | (shortcut) a where "Cmd_Argc c1 \<noteq> 0" "?cmd = None" "?short = Some a"
    | (var) "Cmd_Argc c1 \<noteq> 0" "?cmd = None" "?short = None"
    by fastforce
  then show ?thesis
  proof cases
    case nothing
    then show ?thesis
      using run ok by simp
  next
    case cmd
    then show ?thesis
      using run run_keeps [OF ok] by simp
  next
    case shortcut
    then have "a \<in> set (cn_alias c1)"
      by (auto simp: find_Some_iff)
    then show ?thesis
      using run shortcut alias_ok by (auto simp: bindT_eq_Some)
  next
    case var
    then show ?thesis
      using run vars_ok by (auto simp: bindT_eq_Some split: if_splits)
  qed
qed

end

sublocale console_env \<subseteq> frame: command_runner "Cmd_ExecuteString ev 1" console_ok
proof
  show "console_ok c \<Longrightarrow> text_wf (cb_text c)" for c
    by (simp add: console_ok_def)
  show "console_ok c \<Longrightarrow> text_wf t \<Longrightarrow> sb_maxsize t = sb_maxsize (cb_text c) \<Longrightarrow> console_ok (c\<lparr>cb_text := t, cb_wait := w\<rparr>)" for c t w
    by (simp add: console_ok_def)
  show "console_ok c \<Longrightarrow> Cmd_ExecuteString ev 1 line c = Some (Inr c') \<Longrightarrow> console_ok c'" for c line c'
    by (rule execute_keeps)
qed

context console_env begin

lemma frame_ok:
  assumes "console_ok c" "console_frame ev c = Some res"
  shows "case res of Inr c' \<Rightarrow> console_ok c'
    | Inl e \<Rightarrow> \<exists>line c1. console_ok c1 \<and> Cmd_ExecuteString ev 1 line c1 = Some (Inl e)"
  using frame.Execute_fine [of c res] assms by (simp add: console_frame_def frame.fine_def)

end

interpretation cvarlist: console_env "cvar_env [] (\<lambda>_. None)"
  by unfold_locales (auto simp: cvar_env_def split: if_splits)

section \<open>The alphabetical list\<close>

definition not_after :: "cmd_function \<Rightarrow> cmd_function \<Rightarrow> bool" where
  "not_after f g \<longleftrightarrow> strcasecmp (cf_name f) (cf_name g) \<le> 0"

definition commands_ok :: "cmd_function list \<Rightarrow> bool" where
  "commands_ok fs \<longleftrightarrow> sorted_wrt not_after fs \<and> distinct (map cf_name fs)"

lemma strcmp_le_trans: "strcmp a b \<le> 0 \<Longrightarrow> strcmp b c \<le> 0 \<Longrightarrow> strcmp a c \<le> 0"
  by (auto simp: le_less strcmp_eq dest: strcmp_trans)

lemma strcmp_le_swap: "\<not> strcmp a b < 0 \<Longrightarrow> strcmp b a \<le> 0"
  using strcmp_swap [of b a] strcmp_eq [of a b] by fastforce

lemma not_after_trans: "not_after f g \<Longrightarrow> not_after g h \<Longrightarrow> not_after f h"
  unfolding not_after_def strcasecmp_def by (rule strcmp_le_trans)

lemma not_after_swap: "\<not> strcasecmp (cf_name f) (cf_name g) < 0 \<Longrightarrow> not_after g f"
  unfolding not_after_def strcasecmp_def by (rule strcmp_le_swap)

lemma set_link_in: "set (link_in cmd fs) = insert cmd (set fs)"
  by (induction fs) auto

lemma link_in_sorted: "sorted_wrt not_after fs \<Longrightarrow> sorted_wrt not_after (link_in cmd fs)"
proof (induction fs)
  case (Cons f fs)
  show ?case
  proof (cases "strcasecmp (cf_name cmd) (cf_name f) < 0")
    case True
    then have "not_after cmd f"
      by (simp add: not_after_def)
    then show ?thesis
      using Cons.prems True not_after_trans by auto
  next
    case False
    then show ?thesis
      using Cons not_after_swap by (simp add: set_link_in)
  qed
qed simp

lemma distinct_link_in:
  "cf_name cmd \<notin> cf_name ` set fs \<Longrightarrow> distinct (map cf_name fs) \<Longrightarrow> distinct (map cf_name (link_in cmd fs))"
  by (induction fs) (auto simp: set_link_in)

lemma FindCmd_Some: "Cmd_FindCmd name fs = Some f \<Longrightarrow> f \<in> set fs \<and> cf_name f = name"
  by (auto simp: Cmd_FindCmd_def find_Some_iff strcmp_eq)

lemma FindCmd_None: "Cmd_FindCmd name fs = None \<longleftrightarrow> name \<notin> cf_name ` set fs"
  by (auto simp: Cmd_FindCmd_def find_None_iff strcmp_eq)

lemma FindCmd_Cons: "Cmd_FindCmd name (f # fs) = (if name = cf_name f then Some f else Cmd_FindCmd name fs)"
  by (simp add: Cmd_FindCmd_def strcmp_eq)

lemma FindCmd_link_in:
  "Cmd_FindCmd (cf_name cmd) fs = None \<Longrightarrow>
    Cmd_FindCmd name (link_in cmd fs) = (if name = cf_name cmd then Some cmd else Cmd_FindCmd name fs)"
  by (induction fs) (auto simp: FindCmd_Cons split: if_splits)

lemma warn_functions [simp]:
  "cn_functions (warn_var who name c) = cn_functions c" "cn_functions (warn_taken who name x cmd c) = cn_functions c"
  by (simp_all add: warn_var_def warn_taken_def con_print_def)

lemma remove_commands_filter: "remove_commands kind cmd fs = rev (filter (\<lambda>f. cf_restriction f AND kind = 0) fs) @ cmd"
  by (induction fs arbitrary: cmd) auto


definition sample_console :: "u8 list \<Rightarrow> console" where
  "sample_console str = cbuf.extend (cbuf.truncate (sample_cbuf str ()))
     (console.fields [] [] [] None 0 \<lparr>tk_token = [], tk_unget = False, tk_ignorecolons = False\<rparr> sample_cvars [])"


section \<open>Aliases\<close>

lemma alias_loop_faults:
  "unat i < unat j \<Longrightarrow> 1 \<le> unat i \<Longrightarrow> unat i \<le> 2 ^ 31 \<Longrightarrow>
    unat j + (2 ^ 31 - unat i) + sum_list (map length (drop (unat i) (cn_argv c))) < 2 ^ 32 \<Longrightarrow>
    length (cn_argv c) < 2 ^ 31 \<Longrightarrow> alias_loop c i j = Inl OutOfBounds"
proof (induction c i j rule: alias_loop.induct)
  case (1 c i j)
  have lt: "i < j"
    using "1.prems"(1) by (simp add: word_less_nat_alt)
  show ?case
  proof (cases "unat i < 2 ^ 31")
    case True
    then have s: "sint i = int (unat i)"
      by (rule sint_u32_small)
    define w where "w = nth_word (cn_argv c) (unat i)"
    have arg: "Cmd_Argv c (sint i) = Inr w"
      unfolding s Cmd_Argv_def w_def nth_word_def of_nat_le_iff nat_int of_nat_less_0_iff by (simp add: not_le)
    have rest: "sum_list (map length (drop (unat i) (cn_argv c))) = length w + sum_list (map length (drop (unat i + 1) (cn_argv c)))"
    proof (cases "unat i < length (cn_argv c)")
      case True
      then show ?thesis
        by (simp add: w_def nth_word_def flip: Cons_nth_drop_Suc)
    qed (simp add: w_def nth_word_def)
    have i1: "unat (i + 1) = unat i + 1"
      using True by (subst unat_u32_add) simp_all
    have w: "unat (of_nat (length w) :: u32) = length w"
      using "1.prems"(4) rest by (simp add: unat_of_nat_u32)
    have "unat (j + of_nat (length w)) = unat j + length w"
      using "1.prems"(4) rest w by (simp add: unat_u32_add)
    then have j1: "unat (j + of_nat (length w) + 1) = unat j + length w + 1"
      using "1.prems"(4) rest True by (subst unat_u32_add) simp_all
    have "alias_loop c (i + 1) (j + of_nat (length w) + 1) = Inl OutOfBounds"
    proof (rule "1.IH" [OF lt True arg])
      show "unat (j + of_nat (length w) + 1) + (2 ^ 31 - unat (i + 1)) + sum_list (map length (drop (unat (i + 1)) (cn_argv c))) < 2 ^ 32"
        unfolding i1 j1 using "1.prems"(4) rest True by linarith
    qed (use "1.prems" True i1 j1 in simp_all)
    then show ?thesis
      using lt True arg by (simp add: alias_loop.simps [of c i j])
  next
    case False
    have "uint i < 4294967296"
      using unsigned_less [of i, where ?'a = int] by simp
    then have "sint i < 0"
      using False sint_u32 [of i] by simp
    then have "sint i < 0" "\<not> int (length (cn_argv c)) \<le> sint i"
      by simp_all
    then show ?thesis
      using lt False by (simp add: alias_loop.simps [of c i j] Cmd_Argv_def)
  qed
qed

text \<open>
  No alias can be made: with a name that is accepted and a value, the loop that adds up the lengths never
  meets its own bound and ends by reading in front of the array of the words; with a name alone nothing happens.
\<close>

theorem alias_never_made:
  assumes "2 \<le> Cmd_Argc c" "length (nth_word (cn_argv c) 1) < 32" "nth_word (cn_argv c) 1 \<noteq> cstr ''say''"
    and "Cmd_Argc c + sum_list (map length (cn_argv c)) < 2 ^ 30"
  shows "Cmd_Alias_f c = (if Cmd_Argc c = 2 then Inr c else Inl OutOfBounds)"
proof -
  have argc: "unat (of_nat (Cmd_Argc c) :: u32) = Cmd_Argc c"
    using assms(4) by (simp add: unat_of_nat_u32)
  have loop: "Cmd_Alias_f c = bindE (alias_loop c 2 (of_nat (Cmd_Argc c))) (\<lambda>_. Inr c)"
    using assms(1-3) by (simp add: Cmd_Alias_f_def Let_def MAX_ALIAS_NAME_def strcmp_eq)
  show ?thesis
  proof (cases "Cmd_Argc c = 2")
    case True
    then show ?thesis
      using loop by (simp add: alias_loop.simps)
  next
    case False
    have "sum_list (map length (drop 2 (cn_argv c))) \<le> sum_list (map length (cn_argv c))"
      by (metis append_take_drop_id le_add2 map_append sum_list_append)
    then have "alias_loop c 2 (of_nat (Cmd_Argc c)) = Inl OutOfBounds"
      using assms(1,4) False argc by (intro alias_loop_faults) (simp_all add: Cmd_Argc_def)
    then show ?thesis
      using loop False by simp
  qed
qed

theorem alias_never_made_witness:
  "Cmd_Alias_f ((sample_console [])\<lparr>cn_argv := [cstr ''alias'', cstr ''hi'', cstr ''say'']\<rparr>) = Inl OutOfBounds"
  using alias_never_made [of "(sample_console [])\<lparr>cn_argv := [cstr ''alias'', cstr ''hi'', cstr ''say'']\<rparr>"]
  by (simp add: Cmd_Argc_def nth_word_def cstr_def)

section \<open>The words of a printed line\<close>

lemma printable_token [simp]: "printable (tk\<lparr>tk_token := t\<rparr>) = printable tk"
  by (simp add: fun_eq_iff printable_def bare_def is_single_def)

lemma skip_unprinted_blank [simp]: "skip_unprinted (32 # str) = 32 # str"
  by (simp add: skip_unprinted_def isprint_c_def)

lemma isprint_quote: "isprint_c (cchar CHR ''\"'')" "cchar CHR ''\"'' \<noteq> 10"
  by (simp_all add: isprint_c_def cchar_def)

lemma skip_unprinted_token:
  assumes "printable tk tok"
  shows "skip_unprinted (print_token tok @ str) = print_token tok @ str \<and> print_token tok @ str \<noteq> [] \<and>
    hd (print_token tok @ str) \<noteq> 10"
proof -
  obtain q t where tok: "tok = (q, t)"
    by (cases tok)
  have graph: "isprint_c b \<and> b \<noteq> 10" if "isgraph_c b" for b
    using that isgraph_isprint by (auto simp: isgraph_c_def)
  show ?thesis
  proof (cases q)
    case True
    then show ?thesis
      using isprint_quote by (simp add: tok print_token_def skip_unprinted_def)
  next
    case False
    then obtain b bs where "t = b # bs" "isgraph_c b"
      using assms by (cases t) (auto simp: tok printable_def bare_def)
    then show ?thesis
      using graph [of b] False by (simp add: tok print_token_def skip_unprinted_def)
  qed
qed

text \<open>One word, after a possible blank.\<close>

lemma tokenize_step:
  assumes "skip_unprinted str = str" "str \<noteq> []" "hd str \<noteq> 10" "COM_Parse tk (Some str) = (tk', Some rest)"
    and "length (tk_token tk') + 1 \<le> 0x203" "length argv < MAX_ARGS"
  shows "tokenize_loop tk argv args str =
    tokenize_loop tk' (argv @ [tk_token tk']) (if length argv = 1 then Some str else args) rest"
  using assms by (subst tokenize_loop.simps) (simp add: Let_def)

lemma tokenize_word:
  assumes "\<not> tk_unget tk" "printable tk tok" "length (snd tok) + 1 \<le> 0x203" "length argv < MAX_ARGS" "pre = [] \<or> pre = [32]"
  obtains args' where "tokenize_loop tk argv args (pre @ print_token tok @ str) =
    tokenize_loop (tk\<lparr>tk_token := snd tok\<rparr>) (argv @ [snd tok]) args' ([32] @ str)"
proof -
  obtain q t where tok: "tok = (q, t)"
    by (cases tok)
  have parse: "COM_Parse tk (Some (pre @ print_token tok @ str)) = (tk\<lparr>tk_token := t\<rparr>, Some (32 # str))"
    using COM_Parse_print [OF assms(1), of q t str] assms(1,2,5) tok by (auto simp: COM_Parse_space)
  have start: "skip_unprinted (pre @ print_token tok @ str) = pre @ print_token tok @ str" "pre @ print_token tok @ str \<noteq> []"
    "hd (pre @ print_token tok @ str) \<noteq> 10"
    using skip_unprinted_token [OF assms(2), of str] assms(5) by auto
  show ?thesis
    using that tokenize_step [OF start parse] assms(3,4) by (simp add: tok)
qed

lemma tokenize_end: "\<not> tk_unget tk \<Longrightarrow> pre = [] \<or> pre = [32] \<Longrightarrow> \<exists>tk' args'. tokenize_loop tk argv args pre = (tk', argv, args')"
  by (auto simp: tokenize_loop.simps [of tk argv args] skip_unprinted_def Let_def isprint_c_def COM_Parse_def skip_blank.simps isgraph_c_def)

lemma tokenize_printed:
  "\<not> tk_unget tk \<Longrightarrow> (\<forall>tok \<in> set toks. printable tk tok \<and> length (snd tok) \<le> 0x202) \<Longrightarrow> length argv + length toks \<le> MAX_ARGS \<Longrightarrow>
    pre = [] \<or> pre = [32] \<Longrightarrow>
    \<exists>tk' args'. tokenize_loop tk argv args (pre @ concat (map print_token toks)) = (tk', argv @ map snd toks, args')"
proof (induction toks arbitrary: tk argv args pre)
  case Nil
  then show ?case
    using tokenize_end by simp
next
  case (Cons tok toks)
  have "printable tk tok" "length (snd tok) + 1 \<le> 0x203" "length argv < MAX_ARGS"
    using Cons.prems(2,3) by auto
  from tokenize_word [OF Cons.prems(1) this Cons.prems(4), of args "concat (map print_token toks)"] obtain args1 where
    one: "tokenize_loop tk argv args (pre @ print_token tok @ concat (map print_token toks)) =
      tokenize_loop (tk\<lparr>tk_token := snd tok\<rparr>) (argv @ [snd tok]) args1 ([32] @ concat (map print_token toks))" .
  show ?case
    using Cons.IH [of "tk\<lparr>tk_token := snd tok\<rparr>" "argv @ [snd tok]" "[32]" args1] Cons.prems one by auto
qed


lemma tokenize_bounds:
  "tokenize_loop tk argv args str = (tk', argv', args') \<Longrightarrow> length argv \<le> MAX_ARGS \<Longrightarrow> (\<forall>w \<in> set argv. length w + 1 \<le> 0x203) \<Longrightarrow>
    length argv' \<le> MAX_ARGS \<and> (\<forall>w \<in> set argv'. length w + 1 \<le> 0x203)"
proof (induction tk argv args str rule: tokenize_loop.induct)
  case (1 tk argv args str)
  let ?d = "skip_unprinted str"
  show ?case
  proof (cases "?d = [] \<or> hd ?d = 10")
    case True
    then show ?thesis
      using "1.prems" by (simp add: tokenize_loop.simps [of tk argv args str])
  next
    case False
    obtain tk1 r where p: "COM_Parse tk (Some ?d) = (tk1, r)"
      by (cases "COM_Parse tk (Some ?d)")
    show ?thesis
    proof (cases "r = None \<or> length (tk_token tk1) + 1 > 0x203")
      case True
      then show ?thesis
        using "1.prems" False p by (auto simp: tokenize_loop.simps [of tk argv args str] Let_def split: option.splits)
    next
      case ok: False
      then obtain rest where r: "r = Some rest" "\<not> length (tk_token tk1) + 1 > 0x203"
        by auto
      show ?thesis
      proof (cases "length argv \<ge> MAX_ARGS")
        case True
        then show ?thesis
          using "1.IH" (1) [OF refl False refl p [symmetric] r(1) r(2) True] "1.prems" False p r
          by (simp add: tokenize_loop.simps [of tk argv args str] Let_def)
      next
        case few: False
        then show ?thesis
          using "1.IH" (2) [OF refl False refl p [symmetric] r(1) r(2) few] "1.prems" False p r
          by (simp add: tokenize_loop.simps [of tk argv args str] Let_def)
      qed
    qed
  qed
qed

text \<open>
  The array of the words is never overrun: whatever the text, there are at most 80 words, and each of them fits,
  with its terminator, the 515 bytes that are allowed.
\<close>

theorem tokenize_bounded:
  "length (cn_argv (Cmd_TokenizeString str c)) \<le> 80 \<and>
    (\<forall>w \<in> set (cn_argv (Cmd_TokenizeString str c)). length w + 1 \<le> 515)"
proof -
  obtain tk ws args where t: "tokenize_loop (cn_tokens c) [] None str = (tk, ws, args)"
    by (cases "tokenize_loop (cn_tokens c) [] None str")
  then show ?thesis
    using tokenize_bounds [OF t] by (simp add: Cmd_TokenizeString_def MAX_ARGS_def)
qed

theorem tokenize_bounded_witness:
  "length (cn_argv (Cmd_TokenizeString (replicate 600 65) (sample_console []))) \<le> 80"
  using tokenize_bounded [of "replicate 600 65" "sample_console []"] by simp


section \<open>Scripts\<close>

lemma climbs_iff: "climbs f \<longleftrightarrow> (\<exists>a b. f = a @ [46, 46] @ b)"
proof (induction f rule: climbs.induct)
  case (1 a b bs)
  have "(\<exists>x y. a # b # bs = x @ [46, 46] @ y) \<longleftrightarrow> a = 46 \<and> b = 46 \<or> (\<exists>x y. b # bs = x @ [46, 46] @ y)"
    by (auto simp: Cons_eq_append_conv)
  then show ?case
    using 1 by simp
qed (auto simp: append_eq_Cons_conv Cons_eq_append_conv)

lemma after_last_dot_Some: "after_last_dot f = Some e \<Longrightarrow> \<exists>base. f = base @ [46] @ e"
  by (induction f) (force split: option.splits if_splits)+

text \<open>
  C32. A script stays inside the game directory: what \<^verbatim>\<open>exec\<close> does is the same for any two file systems that agree on the
  names without two dots in a row and without a colon, that do not start with a slash of either kind and end in a dot and
  \<open>rc\<close> or \<open>cfg\<close> in any case; no other file is opened.
\<close>

theorem exec_stays_inside:
  assumes "\<And>f base ext. f = base @ [46] @ ext \<Longrightarrow> map tolower_c (take 9 ext) \<in> {cstr ''rc'', cstr ''cfg''} \<Longrightarrow>
      (\<nexists>a b. f = a @ [46, 46] @ b) \<Longrightarrow> 58 \<notin> set f \<Longrightarrow> hd f \<notin> {92, 47} \<Longrightarrow> load f = load' f"
  shows "Cmd_Exec_f load c = Cmd_Exec_f load' c"
proof -
  define f where "f = nth_word (cn_argv c) 1"
  let ?ext = "COM_FileExtensionThreadSafe f"
  have "load f = load' f" if ok: "\<not> (climbs f \<or> 58 \<in> set f \<or> at0 f = 92 \<or> at0 f = 47)"
    "\<not> (strcasecmp ?ext (cstr ''rc'') \<noteq> 0 \<and> strcasecmp ?ext (cstr ''cfg'') \<noteq> 0)"
  proof -
    have e: "map tolower_c ?ext \<in> {map tolower_c (cstr ''rc''), map tolower_c (cstr ''cfg'')}"
      using ok(2) by (auto simp: strcasecmp_def strcmp_eq)
    then have "?ext \<noteq> []"
      by (auto simp: cstr_def)
    then obtain ext where ext: "after_last_dot f = Some ext" "?ext = take 9 ext"
      by (auto simp: COM_FileExtensionThreadSafe_def split: option.splits)
    obtain base where base: "f = base @ [46] @ ext"
      using after_last_dot_Some [OF ext(1)] by blast
    then have "at0 f = hd f"
      by (cases base) (simp_all add: at0_def)
    moreover note base
    moreover have "map tolower_c (take 9 ext) \<in> {cstr ''rc'', cstr ''cfg''}"
      using e by (simp add: ext(2) cstr_def cchar_def tolower_c_def)
    moreover have "hd f \<notin> {92, 47}"
      using ok(1) calculation(1) by simp
    ultimately show ?thesis
      using assms [of f base ext] ok(1) climbs_iff [of f] by blast
  qed
  then show ?thesis
    unfolding f_def Cmd_Exec_f_def Let_def by (simp cong: if_cong)
qed

theorem exec_stays_inside_witness:
  "Cmd_Exec_f (\<lambda>f. if f = cstr ''/etc/server.cfg'' then Some [120] else None) ((sample_console [])\<lparr>cn_argv := [cstr ''exec'', cstr ''/etc/server.cfg'']\<rparr>)
    = Cmd_Exec_f (\<lambda>f. None) ((sample_console [])\<lparr>cn_argv := [cstr ''exec'', cstr ''/etc/server.cfg'']\<rparr>)"
  by (rule exec_stays_inside) (auto simp: cstr_def cchar_def)

section \<open>Frames\<close>


definition waiting_console :: console where
  "waiting_console = (sample_console (cstr ''wait '' @ [10] @ cstr ''quit'' @ [10]))
     \<lparr>cn_functions := [\<lparr>cf_name = cstr ''wait'', cf_function = Wait, cf_restriction = 0\<rparr>]\<rparr>"

lemma waiting_line:
  assumes "cn_tokens c = \<lparr>tk_token = [], tk_unget = False, tk_ignorecolons = False\<rparr>"
    "cn_functions c = [\<lparr>cf_name = cstr ''wait'', cf_function = Wait, cf_restriction = 0\<rparr>]"
  shows "\<exists>tk argv args. Cmd_ExecuteString ev 1 (cstr ''wait '') c =
    Some (Inr (Cmd_Wait_f (c\<lparr>cn_source := 1, cn_tokens := tk, cn_argv := argv, cn_args := args\<rparr>)))"
proof -
  have p: "printable (cn_tokens c) (False, cstr ''wait'')"
    by (simp add: assms(1) printable_def bare_def is_single_def cstr_def cchar_def isgraph_c_def)
  obtain tk args where t: "tokenize_loop (cn_tokens c) [] None (cstr ''wait '') = (tk, [cstr ''wait''], args)"
    using tokenize_printed [of "cn_tokens c" "[(False, cstr ''wait'')]" "[]" "[]" None] p assms(1)
    by (auto simp: MAX_ARGS_def print_token_def cstr_def cchar_def)
  have "List.find (\<lambda>f. strcasecmp (cstr ''wait'') (cf_name f) = 0) (cn_functions c) =
      Some \<lparr>cf_name = cstr ''wait'', cf_function = Wait, cf_restriction = 0\<rparr>"
    unfolding assms(2) by (simp add: strcasecmp_def strcmp_eq)
  then show ?thesis
    using t by (intro exI [of _ tk] exI [of _ "[cstr ''wait'']"] exI [of _ args])
      (simp add: Cmd_ExecuteString_def Cmd_TokenizeString_def Let_def Cmd_Argc_def nth_word_def run_command_def)
qed


end
