(* ===== verification/Bans.thy ===== *)
theory Bans
  imports Cvars Munge Tokens
begin

text \<open>
  The bans of \<^verbatim>\<open>banlist.c\<close>: CD keys in one tree, network addresses in a doubly linked list with one tree for
  each subnet mask. The list lives in an explicit store from addresses to containers; a freed address is
  outside of the store, and following it is a fault. The values of the trees are the times until which a ban
  holds, 0 being the null pointer. The clock, the files and the name of the file are arguments. Allocation and
  writing to a file succeed, and printing to the console is left out.
\<close>

section \<open>State\<close>

text \<open>The 32 bytes of two keys, the first that differ compared as unsigned numbers.\<close>

definition CompareCDkeys :: "u8 list \<Rightarrow> u8 list \<Rightarrow> int" where
  "CompareCDkeys a b = strcmp a b"

text \<open>The two addresses are subtracted as unsigned numbers and the result is read as an \<^verbatim>\<open>int\<close>.\<close>

definition CompareIPv4 :: "u32 \<Rightarrow> u32 \<Rightarrow> int" where
  "CompareIPv4 a b = sint (a - b)"

record container =
  ct_tree :: "(u32, u32) avltree"
  ct_prev :: "nat option"
  ct_next :: "nat option"
  ct_mask :: u32

type_synonym store = "nat \<rightharpoonup> container"

record bans =
  bn_keys :: "(u8 list, u32) avltree option"
  bn_ips :: "nat option"
  bn_store :: store
  bn_fresh :: nat
  bn_filterban :: bool

definition no_bans :: "bool \<Rightarrow> bans" where
  "no_bans blacklist = \<lparr>bn_keys = None, bn_ips = None, bn_store = Map.empty, bn_fresh = 0, bn_filterban = blacklist\<rparr>"

definition found_time :: "u32 option \<Rightarrow> u32" where
  "found_time r = (case r of None \<Rightarrow> 0 | Some t \<Rightarrow> t)"

section \<open>CD keys\<close>

definition KeyDup :: "u8 list \<Rightarrow> u8 list outcome" where
  "KeyDup a = peek 0 32 a"

text \<open>The tree copies its keys. The result is 0 for success.\<close>

definition BanCDKey :: "u8 list \<Rightarrow> u32 \<Rightarrow> bans \<Rightarrow> (nat \<times> bans) outcome" where
  "BanCDKey key time b =
     (let t = (case bn_keys b of None \<Rightarrow> cp_avltree_create CompareCDkeys True (\<lambda>v. v = 0) | Some t \<Rightarrow> t) in
      bindE (KeyDup key) (\<lambda>k.
      bindE (cp_avltree_insert t k time) (\<lambda>(r, t).
        Inr (if r = None then 1 else 0, b\<lparr>bn_keys := Some t\<rparr>))))"

definition UnbanCDKey :: "u8 list \<Rightarrow> bans \<Rightarrow> (nat \<times> bans) outcome" where
  "UnbanCDKey key b =
     (case bn_keys b of None \<Rightarrow> Inr (1, b)
      | Some t \<Rightarrow>
          bindE (peek 0 32 key) (\<lambda>k.
          bindE (cp_avltree_delete t k) (\<lambda>(r, t).
            if r = None then Inr (1, b\<lparr>bn_keys := Some t\<rparr>)
            else if cp_avltree_count t = 0 then Inr (0, b\<lparr>bn_keys := None\<rparr>)
            else Inr (0, b\<lparr>bn_keys := Some t\<rparr>))))"

text \<open>A black list by default; with \<^verbatim>\<open>sv_filterban\<close> off, who is not listed is refused.\<close>

definition IsCDKeyBanned :: "u32 \<Rightarrow> u8 list \<Rightarrow> bans \<Rightarrow> (bool \<times> bans) outcome" where
  "IsCDKeyBanned now key b =
     (let unlisted = \<not> bn_filterban b; listed = bn_filterban b in
      case bn_keys b of None \<Rightarrow> Inr (unlisted, b)
      | Some t \<Rightarrow>
          bindE (peek 0 32 key) (\<lambda>k.
          let ban_expiration = found_time (cp_avltree_get t k) in
          if ban_expiration = 0 then Inr (unlisted, b)
          else if ban_expiration = -1 then Inr (listed, b)
          else if ban_expiration < now then
            bindE (cp_avltree_delete t k) (\<lambda>(_, t). Inr (unlisted, b\<lparr>bn_keys := Some t\<rparr>))
          else Inr (listed, b)))"

definition ClearCDKeys :: "bans \<Rightarrow> bans" where
  "ClearCDKeys b = b\<lparr>bn_keys := None\<rparr>"

text \<open>The file: keys of 32 characters, each followed by a time.\<close>

function read_keys :: "u32 \<Rightarrow> tokens \<Rightarrow> u8 list \<Rightarrow> bans \<Rightarrow> (tokens \<times> bans) outcome" where
  "read_keys now tk str b =
     (case COM_Parse tk (Some str) of
        (tk1, None) \<Rightarrow> Inr (tk1, b)
      | (tk1, Some s1) \<Rightarrow>
          if tk_token tk1 = [] then Inr (tk1, b)
          else if length (tk_token tk1) \<noteq> 32 then read_keys now tk1 s1 b
          else (case COM_Parse tk1 (Some s1) of
              (tk2, None) \<Rightarrow> Inr (tk2, b)
            | (tk2, Some s2) \<Rightarrow>
                if tk_token tk2 = [] then Inr (tk2, b)
                else bindE (int32 (atoi (tk_token tk2))) (\<lambda>time.
                  let bantime = of_int time in
                  if bantime < now \<and> bantime \<noteq> -1 then read_keys now tk2 s2 b
                  else bindE (BanCDKey (tk_token tk1) bantime b) (\<lambda>(_, b). read_keys now tk2 s2 b))))"
  by pat_completeness auto

termination
proof (relation "measure (\<lambda>(now, tk, str, b). 2 * length str + (if tk_unget tk then 1 else 0))")
qed (auto dest!: parse_smaller [OF sym])

declare read_keys.simps [simp del]

definition Banlist_ReadBansFromFile_CD :: "u32 \<Rightarrow> u8 list option \<Rightarrow> tokens \<Rightarrow> bans \<Rightarrow> (tokens \<times> bans) outcome" where
  "Banlist_ReadBansFromFile_CD now file tk b = (case file of None \<Rightarrow> Inr (tk, b) | Some f \<Rightarrow> read_keys now tk f b)"

text \<open>\<^verbatim>\<open>%010u\<close>, and a \<^verbatim>\<open>%s\<close> that reads up to a terminator.\<close>

definition dec10 :: "u32 \<Rightarrow> u8 list" where
  "dec10 n = replicate (10 - length (dec (unat n))) 48 @ dec (unat n)"

definition print_string :: "u8 list \<Rightarrow> u8 list outcome" where
  "print_string block = (if 0 \<in> set block then Inr (takeWhile (\<lambda>b. b \<noteq> 0) block) else Inl OutOfBounds)"

definition CDKeyCallBackFunction :: "u32 \<Rightarrow> u8 list \<Rightarrow> u32 \<Rightarrow> u8 list \<Rightarrow> (u8 list \<times> bool) outcome" where
  "CDKeyCallBackFunction now key time fp =
     (if now > time then Inr (fp, False)
      else bindE (print_string key) (\<lambda>k. Inr (fp @ k @ [32] @ dec10 time @ [10], False)))"

text \<open>The result is the content of the file, if it is written.\<close>

definition Banlist_WriteBansToFile_CD :: "u32 \<Rightarrow> u8 list \<Rightarrow> bans \<Rightarrow> u8 list option outcome" where
  "Banlist_WriteBansToFile_CD now filename b =
     (case bn_keys b of None \<Rightarrow> Inr None
      | Some t \<Rightarrow>
          if filename = [] then Inr None
          else bindE (cp_avltree_callback t (CDKeyCallBackFunction now) []) (\<lambda>(fp, _). Inr (Some fp)))"

section \<open>Addresses\<close>

definition get_container :: "store \<Rightarrow> nat \<Rightarrow> container outcome" where
  "get_container h p = (case h p of None \<Rightarrow> Inl BadPointer | Some c \<Rightarrow> Inr c)"

text \<open>The masks of the \<^verbatim>\<open>switch\<close>: the low bits.\<close>

definition subnet_masks :: "u32 list" where
  "subnet_masks = map mask [0..<33]"

text \<open>The tree of a container after a ban, and whether the insertion was reported as failed.\<close>

definition ban_in_tree :: "u32 \<Rightarrow> u32 \<Rightarrow> u32 \<Rightarrow> (u32, u32) avltree \<Rightarrow> (nat \<times> (u32, u32) avltree) outcome" where
  "ban_in_tree IPv4 subnetmask time t =
     bindE (cp_avltree_insert t (IPv4 AND subnetmask) time) (\<lambda>(r, t). Inr (if r = None then 1 else 0, t))"

text \<open>The search for the container of a mask: where it stops, and whether it found it.\<close>

partial_function (option) find_mask :: "store \<Rightarrow> u32 \<Rightarrow> nat option \<Rightarrow> (nat option \<times> bool) run" where
  "find_mask h m p =
     (case p of None \<Rightarrow> Some (Inr (None, False))
      | Some a \<Rightarrow> bindT (Some (get_container h a)) (\<lambda>c.
          if ct_mask c = m then Some (Inr (Some a, True))
          else if ct_mask c > m then Some (Inr (Some a, False))
          else find_mask h m (ct_next c)))"

partial_function (option) last_container :: "store \<Rightarrow> nat \<Rightarrow> nat run" where
  "last_container h a =
     bindT (Some (get_container h a)) (\<lambda>c. case ct_next c of None \<Rightarrow> Some (Inr a) | Some n \<Rightarrow> last_container h n)"

text \<open>
  The links of a new container \<open>a\<close>: alone in the list, in front of the container where the search stopped, or at the end.
\<close>

definition link_container :: "nat \<Rightarrow> container \<Rightarrow> nat option \<Rightarrow> bans \<Rightarrow> bans run" where
  "link_container a c ptr b =
     (case bn_ips b of
        None \<Rightarrow> Some (Inr (b\<lparr>bn_ips := Some a, bn_store := (bn_store b)(a \<mapsto> c\<lparr>ct_prev := None, ct_next := None\<rparr>)\<rparr>))
      | Some head \<Rightarrow>
          (case ptr of
             Some p \<Rightarrow>
               bindT (Some (get_container (bn_store b) p)) (\<lambda>d.
               let h = (bn_store b)(a \<mapsto> c\<lparr>ct_prev := ct_prev d, ct_next := Some p\<rparr>, p \<mapsto> d\<lparr>ct_prev := Some a\<rparr>) in
               (case ct_prev d of
                  Some q \<Rightarrow> bindT (Some (get_container h q)) (\<lambda>e. Some (Inr (b\<lparr>bn_store := h(q \<mapsto> e\<lparr>ct_next := Some a\<rparr>)\<rparr>)))
                | None \<Rightarrow> Some (Inr (b\<lparr>bn_ips := Some a, bn_store := h\<rparr>))))
           | None \<Rightarrow>
               bindT (last_container (bn_store b) head) (\<lambda>p.
               bindT (Some (get_container (bn_store b) p)) (\<lambda>d.
                 Some (Inr (b\<lparr>bn_store := (bn_store b)(p \<mapsto> d\<lparr>ct_next := Some a\<rparr>, a \<mapsto> c\<lparr>ct_prev := Some p, ct_next := None\<rparr>)\<rparr>))))))"

definition BanIPv4 :: "u32 \<Rightarrow> u32 \<Rightarrow> u32 \<Rightarrow> bans \<Rightarrow> (nat \<times> bans) run" where
  "BanIPv4 IPv4 SubnetMask time b =
     (if SubnetMask \<notin> set subnet_masks then Some (Inl SysError)
      else bindT (find_mask (bn_store b) SubnetMask (bn_ips b)) (\<lambda>(ptr, found).
        if found then
          bindT (Some (get_container (bn_store b) (the ptr))) (\<lambda>c.
          bindT (Some (ban_in_tree IPv4 SubnetMask time (ct_tree c))) (\<lambda>(r, t).
            Some (Inr (r, b\<lparr>bn_store := (bn_store b)(the ptr \<mapsto> c\<lparr>ct_tree := t\<rparr>)\<rparr>))))
        else
          bindT (Some (ban_in_tree IPv4 SubnetMask time (cp_avltree_create CompareIPv4 False (\<lambda>v. v = 0)))) (\<lambda>(r, t).
            if r \<noteq> 0 then Some (Inr (1, b))
            else bindT (link_container (bn_fresh b) \<lparr>ct_tree = t, ct_prev = None, ct_next = None, ct_mask = SubnetMask\<rparr> ptr
                (b\<lparr>bn_fresh := bn_fresh b + 1\<rparr>)) (\<lambda>b. Some (Inr (0, b))))))"

text \<open>
  The removal of an empty container, as it is written: the back link of the container is overwritten instead of the link of
  the container before it.
\<close>

definition unlink_container :: "nat \<Rightarrow> container \<Rightarrow> bans \<Rightarrow> bans outcome" where
  "unlink_container a c b =
     (let c' = (if ct_prev c \<noteq> None then c\<lparr>ct_prev := ct_next c\<rparr> else c);
          b = (if ct_prev c \<noteq> None then b\<lparr>bn_store := (bn_store b)(a \<mapsto> c')\<rparr> else b\<lparr>bn_ips := ct_next c\<rparr>) in
      bindE (case ct_next c' of None \<Rightarrow> Inr b
             | Some n \<Rightarrow> bindE (get_container (bn_store b) n) (\<lambda>d.
                 Inr (b\<lparr>bn_store := (bn_store b)(n \<mapsto> d\<lparr>ct_prev := ct_prev c'\<rparr>)\<rparr>))) (\<lambda>b.
        Inr (b\<lparr>bn_store := (bn_store b)(a := None)\<rparr>)))"

definition UnbanIPv4 :: "u32 \<Rightarrow> u32 \<Rightarrow> bans \<Rightarrow> (nat \<times> bans) run" where
  "UnbanIPv4 IPv4 SubnetMask b =
     (if SubnetMask \<notin> set subnet_masks then Some (Inl SysError)
      else bindT (find_mask (bn_store b) SubnetMask (bn_ips b)) (\<lambda>(ptr, found).
        if found then
          bindT (Some (get_container (bn_store b) (the ptr))) (\<lambda>c.
          bindT (Some (cp_avltree_delete (ct_tree c) (IPv4 AND ct_mask c))) (\<lambda>(r, t).
            let c = c\<lparr>ct_tree := t\<rparr>; b = b\<lparr>bn_store := (bn_store b)(the ptr \<mapsto> c)\<rparr> in
            if r = None then Some (Inr (1, b))
            else if cp_avltree_count t = 0 then bindT (Some (unlink_container (the ptr) c b)) (\<lambda>b. Some (Inr (0, b)))
            else Some (Inr (0, b))))
        else Some (Inr (1, b))))"

text \<open>The search for a ban: expired entries are removed on the way.\<close>

partial_function (option) banned_loop :: "u32 \<Rightarrow> u32 \<Rightarrow> nat option \<Rightarrow> bans \<Rightarrow> (bool \<times> bans) run" where
  "banned_loop now IPv4 ptr b =
     (case ptr of None \<Rightarrow> Some (Inr (\<not> bn_filterban b, b))
      | Some a \<Rightarrow> bindT (Some (get_container (bn_store b) a)) (\<lambda>c.
          let key = IPv4 AND ct_mask c; ban_expiration = found_time (cp_avltree_get (ct_tree c) key) in
          if ban_expiration = 0 then banned_loop now IPv4 (ct_next c) b
          else if ban_expiration = -1 then Some (Inr (bn_filterban b, b))
          else if ban_expiration < now then
            bindT (Some (cp_avltree_delete (ct_tree c) key)) (\<lambda>(_, t).
            let c' = c\<lparr>ct_tree := t\<rparr>; b = b\<lparr>bn_store := (bn_store b)(a \<mapsto> c')\<rparr> in
            bindT (Some (if cp_avltree_count t = 0 then unlink_container a c' b else Inr b)) (\<lambda>b.
              banned_loop now IPv4 (ct_next c) b))
          else Some (Inr (bn_filterban b, b))))"

definition IsIPv4Banned :: "u32 \<Rightarrow> u32 \<Rightarrow> bans \<Rightarrow> (bool \<times> bans) run" where
  "IsIPv4Banned now IPv4 b = banned_loop now IPv4 (bn_ips b) b"

text \<open>The address of a socket is in network order: its first byte is the lowest of the word.\<close>

definition IsSockaddrBanned :: "u32 \<Rightarrow> u8 \<times> u8 \<times> u8 \<times> u8 \<Rightarrow> bans \<Rightarrow> (bool \<times> bans) run" where
  "IsSockaddrBanned now sender b = (case sender of (p, q, r, s) \<Rightarrow> IsIPv4Banned now (word32_of [p, q, r, s]) b)"

partial_function (option) clear_loop :: "nat option \<Rightarrow> store \<Rightarrow> store run" where
  "clear_loop ptr h =
     (case ptr of None \<Rightarrow> Some (Inr h)
      | Some a \<Rightarrow> bindT (Some (get_container h a)) (\<lambda>c. clear_loop (ct_next c) (h(a := None))))"

definition ClearIPv4 :: "bans \<Rightarrow> bans run" where
  "ClearIPv4 b = bindT (clear_loop (bn_ips b) (bn_store b)) (\<lambda>h. Some (Inr (b\<lparr>bn_ips := None, bn_store := h\<rparr>)))"

text \<open>The body only declares the two functions that clear the lists; it calls none of them.\<close>

definition Banlist_ClearBans :: "bans \<Rightarrow> bans" where
  "Banlist_ClearBans b = b"

section \<open>The file of the addresses\<close>

text \<open>
  \<^verbatim>\<open>inet_aton\<close> (\<^verbatim>\<open>inetaton.c\<close>): up to four numbers, each decimal, octal after a 0 or hexadecimal after a 0x, of which
  the last fills the remaining bytes. The result is the \<^verbatim>\<open>s_addr\<close>, in network order.
\<close>

definition isxdigit_c :: "u8 \<Rightarrow> bool" where
  "isxdigit_c c \<longleftrightarrow> isdigit_c c \<or> 65 \<le> c \<and> c \<le> 70 \<or> 97 \<le> c \<and> c \<le> 102"

fun scan_number :: "u32 \<Rightarrow> u32 \<Rightarrow> u8 list \<Rightarrow> u32 \<times> u8 list" where
  "scan_number base val [] = (val, [])"
| "scan_number base val (c # cs) =
     (if isdigit_c c then scan_number base (val * base + (ucast c - 48)) cs
      else if base = 16 \<and> isxdigit_c c then
        scan_number base (push_bit 4 val OR (ucast c + 10 - (if 97 \<le> c \<and> c \<le> 122 then 97 else 65))) cs
      else (val, c # cs))"

definition number_base :: "u8 list \<Rightarrow> u32 \<times> u8 list" where
  "number_base str =
     (if at0 str = 48 then
        (if at0 (drop 1 str) = 120 \<or> at0 (drop 1 str) = 88 then (16, drop 2 str) else (8, drop 1 str))
      else (10, str))"

lemma scan_number_shorter: "scan_number base val str = (v, rest) \<Longrightarrow> length rest \<le> length str"
  by (induction base val str rule: scan_number.induct) (auto split: if_splits)

lemma number_base_shorter: "number_base str = (base, s) \<Longrightarrow> length s \<le> length str"
  by (auto simp: number_base_def split: if_splits)

function aton_parts :: "u32 list \<Rightarrow> u8 list \<Rightarrow> (u32 list \<times> u32 \<times> u8 list) option" where
  "aton_parts parts str =
     (if \<not> isdigit_c (at0 str) then None
      else (case number_base str of (base, s) \<Rightarrow>
        (case scan_number base 0 s of
           (val, c # rest) \<Rightarrow>
             if c = 46 then (if length parts \<ge> 3 then None else aton_parts (parts @ [val]) rest)
             else Some (parts, val, c # rest)
         | (val, []) \<Rightarrow> Some (parts, val, []))))"
  by pat_completeness auto

termination
proof (relation "measure (\<lambda>(parts, str). length str)")
qed (auto dest!: scan_number_shorter [OF sym] number_base_shorter [OF sym])

declare aton_parts.simps [simp del]

definition inet_aton :: "u8 list \<Rightarrow> u32 option" where
  "inet_aton cp =
     (case aton_parts [] cp of None \<Rightarrow> None
      | Some (parts, val, rest) \<Rightarrow>
          if rest \<noteq> [] \<and> \<not> is_space (hd rest) then None
          else
            (case parts of
               [] \<Rightarrow> Some (FlipBytes32 val)
             | [p] \<Rightarrow> if val > 0xffffff \<or> p > 0xff then None else Some (FlipBytes32 (val OR push_bit 24 p))
             | [p, q] \<Rightarrow> if val > 0xffff \<or> p > 0xff \<or> q > 0xff then None
                 else Some (FlipBytes32 (val OR (push_bit 24 p OR push_bit 16 q)))
             | p # q # r # _ \<Rightarrow> if val > 0xff \<or> p > 0xff \<or> q > 0xff \<or> r > 0xff then None
                 else Some (FlipBytes32 (val OR (push_bit 24 p OR push_bit 16 q OR push_bit 8 r)))))"

text \<open>A line is an address, a mask and a time.\<close>

partial_function (option) read_addresses :: "u32 \<Rightarrow> tokens \<Rightarrow> u8 list \<Rightarrow> bans \<Rightarrow> (tokens \<times> bans) run" where
  "read_addresses now tk str b =
     (case COM_Parse tk (Some str) of
        (tk1, None) \<Rightarrow> Some (Inr (tk1, b))
      | (tk1, Some s1) \<Rightarrow>
          if tk_token tk1 = [] then Some (Inr (tk1, b))
          else (case inet_aton (tk_token tk1) of None \<Rightarrow> read_addresses now tk1 s1 b
            | Some IPv4 \<Rightarrow>
              (case COM_Parse tk1 (Some s1) of
                 (tk2, None) \<Rightarrow> Some (Inr (tk2, b))
               | (tk2, Some s2) \<Rightarrow>
                   if tk_token tk2 = [] then Some (Inr (tk2, b))
                   else (case inet_aton (tk_token tk2) of None \<Rightarrow> read_addresses now tk2 s2 b
                     | Some CIDR \<Rightarrow>
                       (case COM_Parse tk2 (Some s2) of
                          (tk3, None) \<Rightarrow> Some (Inr (tk3, b))
                        | (tk3, Some s3) \<Rightarrow>
                            if tk_token tk3 = [] then Some (Inr (tk3, b))
                            else bindT (Some (int32 (atoi (tk_token tk3)))) (\<lambda>time.
                              let bantime = of_int time in
                              if bantime < now \<and> bantime \<noteq> -1 then read_addresses now tk3 s3 b
                              else bindT (BanIPv4 (FlipBytes32 IPv4) (FlipBytes32 CIDR) bantime b) (\<lambda>(_, b).
                                read_addresses now tk3 s3 b)))))))"

definition Banlist_ReadBansFromFile_IPv4 :: "u32 \<Rightarrow> u8 list option \<Rightarrow> tokens \<Rightarrow> bans \<Rightarrow> (tokens \<times> bans) run" where
  "Banlist_ReadBansFromFile_IPv4 now file tk b =
     (case file of None \<Rightarrow> Some (Inr (tk, b)) | Some f \<Rightarrow> read_addresses now tk f b)"

text \<open>The four bytes in big-endian order.\<close>

definition dotted_be :: "u32 \<Rightarrow> u8 list" where
  "dotted_be a = (case rev (bytes32 a) of [p, q, r, s] \<Rightarrow> dotted (p, q, r, s))"

definition IPv4CallBackFunction :: "u32 \<Rightarrow> u8 list \<Rightarrow> u32 \<Rightarrow> u32 \<Rightarrow> u8 list \<Rightarrow> (u8 list \<times> bool) outcome" where
  "IPv4CallBackFunction now SubnetMaskStr key time fp =
     (if now > time then Inr (fp, False)
      else Inr (fp @ dotted_be key @ [32] @ SubnetMaskStr @ [32] @ dec10 time @ [10], False))"

partial_function (option) write_addresses :: "u32 \<Rightarrow> store \<Rightarrow> nat option \<Rightarrow> u8 list \<Rightarrow> u8 list run" where
  "write_addresses now h ptr fp =
     (case ptr of None \<Rightarrow> Some (Inr fp)
      | Some a \<Rightarrow> bindT (Some (get_container h a)) (\<lambda>c.
          bindT (Some (cp_avltree_callback (ct_tree c) (IPv4CallBackFunction now (dotted_be (ct_mask c))) fp)) (\<lambda>(fp, _).
            write_addresses now h (ct_next c) fp)))"

definition Banlist_WriteBansToFile_IPv4 :: "u32 \<Rightarrow> u8 list \<Rightarrow> bans \<Rightarrow> u8 list option run" where
  "Banlist_WriteBansToFile_IPv4 now filename b =
     (if bn_ips b = None \<or> filename = [] then Some (Inr None)
      else bindT (write_addresses now (bn_store b) (bn_ips b) []) (\<lambda>fp. Some (Inr (Some fp))))"

section \<open>Both lists\<close>

definition Banlist_ReadBansFromFile :: "u32 \<Rightarrow> u8 list option \<Rightarrow> u8 list option \<Rightarrow> tokens \<Rightarrow> bans \<Rightarrow> (tokens \<times> bans) run" where
  "Banlist_ReadBansFromFile now keys ips tk b =
     bindT (Some (Banlist_ReadBansFromFile_CD now keys tk b)) (\<lambda>(tk, b). Banlist_ReadBansFromFile_IPv4 now ips tk b)"

definition Banlist_Init :: "u32 \<Rightarrow> u8 list option \<Rightarrow> u8 list option \<Rightarrow> tokens \<Rightarrow> bans \<Rightarrow> (tokens \<times> bans) run" where
  "Banlist_Init now keys ips tk b = Banlist_ReadBansFromFile now keys ips tk b"

definition Banlist_WriteBansToFile :: "u32 \<Rightarrow> u8 list \<Rightarrow> u8 list \<Rightarrow> bans \<Rightarrow> (u8 list option \<times> u8 list option) run" where
  "Banlist_WriteBansToFile now keyname ipname b =
     bindT (Some (Banlist_WriteBansToFile_CD now keyname b)) (\<lambda>keys.
     bindT (Banlist_WriteBansToFile_IPv4 now ipname b) (\<lambda>ips. Some (Inr (keys, ips))))"

definition Banlist_Shutdown :: "u32 \<Rightarrow> u8 list \<Rightarrow> u8 list \<Rightarrow> bans \<Rightarrow> ((u8 list option \<times> u8 list option) \<times> bans) run" where
  "Banlist_Shutdown now keyname ipname b =
     bindT (Banlist_WriteBansToFile now keyname ipname b) (\<lambda>files. Some (Inr (files, Banlist_ClearBans b)))"

section \<open>Key bans\<close>

interpretation by_bytes: ordered_keys CompareCDkeys "{k. length k = 32}"
  by unfold_locales (use strcmp_trans in \<open>auto simp: CompareCDkeys_def strcmp_eq strcmp_swap\<close>)

definition keys_ok :: "bans \<Rightarrow> bool" where
  "keys_ok b \<longleftrightarrow> (case bn_keys b of None \<Rightarrow> True
     | Some t \<Rightarrow> tree_fine {k. length k = 32} t \<and> at_cmp t = CompareCDkeys \<and> at_copy t \<and> at_null t = (\<lambda>v. v = 0))"

definition banned_keys :: "bans \<Rightarrow> u8 list \<rightharpoonup> u32" where
  "banned_keys b = (case bn_keys b of None \<Rightarrow> Map.empty | Some t \<Rightarrow> content t)"

text \<open>Whether an entry is in force at a time, and whether it has run out.\<close>

definition in_force :: "u32 \<Rightarrow> u32 option \<Rightarrow> bool" where
  "in_force now r \<longleftrightarrow> (case r of None \<Rightarrow> False | Some t \<Rightarrow> t \<noteq> 0 \<and> (t = -1 \<or> now \<le> t))"

definition run_out :: "u32 \<Rightarrow> u32 option \<Rightarrow> bool" where
  "run_out now r \<longleftrightarrow> (case r of None \<Rightarrow> False | Some t \<Rightarrow> t \<noteq> 0 \<and> t \<noteq> -1 \<and> t < now)"

lemma empty_content: "tree_fine K t \<Longrightarrow> cp_avltree_count t = 0 \<Longrightarrow> content t = Map.empty"
  by (simp add: tree_fine_def cp_avltree_count_def content_def)

lemma found_time_null: "at_null t = (\<lambda>v. v = 0) \<Longrightarrow> found_time (non_null t r) = (case r of None \<Rightarrow> 0 | Some v \<Rightarrow> v)"
  by (simp add: found_time_def non_null_def split: option.splits)

text \<open>
  C36. Bans of CD keys are kept: a ban of a key until a time other than 0 succeeds and adds exactly this entry; a query is
  answered by the entry as long as it is in force (the list being a black or a white list), and forgets it when it
  has run out; lifting a ban removes exactly the entry of the key.
\<close>

theorem cd_bans_enforced:
  assumes "keys_ok b" "32 \<le> length key" "time \<noteq> 0"
  shows "(\<exists>b'. BanCDKey key time b = Inr (0, b') \<and> keys_ok b' \<and> bn_filterban b' = bn_filterban b \<and>
      banned_keys b' = (banned_keys b)(take 32 key \<mapsto> time)) \<and>
    (\<exists>b'. IsCDKeyBanned now key b = Inr (bn_filterban b = in_force now (banned_keys b (take 32 key)), b') \<and> keys_ok b' \<and>
      banned_keys b' = (if run_out now (banned_keys b (take 32 key)) then (banned_keys b)(take 32 key := None) else banned_keys b)) \<and>
    (\<exists>r b'. UnbanCDKey key b = Inr (r, b') \<and> keys_ok b' \<and> banned_keys b' = (banned_keys b)(take 32 key := None))"
proof (intro conjI)
  let ?K = "{k :: u8 list. length k = 32}"
  have k: "peek 0 32 key = Inr (take 32 key)" "take 32 key \<in> ?K"
    using assms(2) by (simp_all add: peek_def)
  let ?new = "cp_avltree_create CompareCDkeys True (\<lambda>v. v = 0) :: (u8 list, u32) avltree"
  define t where "t = (case bn_keys b of None \<Rightarrow> ?new | Some t \<Rightarrow> t)"
  have t: "tree_fine ?K t" "at_cmp t = CompareCDkeys" "at_copy t" "at_null t = (\<lambda>v. v = 0)" "content t = banned_keys b"
    using assms(1) by (auto simp: t_def keys_ok_def banned_keys_def cp_avltree_create_def tree_fine_def content_def split: option.splits)
  obtain t' where "cp_avltree_insert t (take 32 key) time = Inr (non_null t (Some time), t')" "tree_fine ?K t'"
    "content t' = (content t)(take 32 key \<mapsto> time)" "same_kind t t'"
    using by_bytes.insert_fine [OF t(2,1) k(2), of time] assms(3) t(4) by auto
  then show "\<exists>b'. BanCDKey key time b = Inr (0, b') \<and> keys_ok b' \<and> bn_filterban b' = bn_filterban b \<and>
      banned_keys b' = (banned_keys b)(take 32 key \<mapsto> time)"
    using t assms(3) k(1) by (auto simp: BanCDKey_def KeyDup_def t_def [symmetric] non_null_def keys_ok_def banned_keys_def same_kind_def)
  obtain u where u: "cp_avltree_delete t (take 32 key) = Inr (non_null t (content t (take 32 key)), u)" "tree_fine ?K u"
    "content u = (content t)(take 32 key := None)" "same_kind t u"
    using by_bytes.delete_fine [OF t(2,1) k(2)] by auto
  show "\<exists>b'. IsCDKeyBanned now key b = Inr (bn_filterban b = in_force now (banned_keys b (take 32 key)), b') \<and> keys_ok b' \<and>
      banned_keys b' = (if run_out now (banned_keys b (take 32 key)) then (banned_keys b)(take 32 key := None) else banned_keys b)"
  proof (cases "bn_keys b")
    case None
    then show ?thesis
      using assms(1) by (simp add: IsCDKeyBanned_def banned_keys_def in_force_def run_out_def)
  next
    case (Some t1)
    then have "found_time (cp_avltree_get t (take 32 key)) = (case banned_keys b (take 32 key) of None \<Rightarrow> 0 | Some v \<Rightarrow> v)"
      using by_bytes.get_fine [OF t(2,1) k(2)] t(4,5) by (simp add: found_time_null)
    moreover have "t1 = t"
      using Some by (simp add: t_def)
    ultimately have ans: "IsCDKeyBanned now key b =
      (let e = (case banned_keys b (take 32 key) of None \<Rightarrow> 0 | Some v \<Rightarrow> v) in
       if e = 0 then Inr (\<not> bn_filterban b, b) else if e = -1 then Inr (bn_filterban b, b)
       else if e < now then Inr (\<not> bn_filterban b, b\<lparr>bn_keys := Some u\<rparr>) else Inr (bn_filterban b, b))"
      using Some k(1) u(1) by (simp add: IsCDKeyBanned_def Let_def)
    have gone: "keys_ok (b\<lparr>bn_keys := Some u\<rparr>)" "banned_keys (b\<lparr>bn_keys := Some u\<rparr>) = (banned_keys b)(take 32 key := None)"
      using u t by (auto simp: keys_ok_def banned_keys_def same_kind_def)
    show ?thesis
      using gone assms(1) unfolding ans Let_def
      by (auto simp: in_force_def run_out_def split: option.splits)
  qed
  show "\<exists>r b'. UnbanCDKey key b = Inr (r, b') \<and> keys_ok b' \<and> banned_keys b' = (banned_keys b)(take 32 key := None)"
  proof (cases "bn_keys b")
    case None
    then show ?thesis
      using assms(1) by (auto simp: UnbanCDKey_def banned_keys_def fun_eq_iff)
  next
    case (Some t1)
    then have "t1 = t"
      by (simp add: t_def)
    then have ans: "UnbanCDKey key b =
      (if non_null t (content t (take 32 key)) = None then Inr (1, b\<lparr>bn_keys := Some u\<rparr>)
       else if cp_avltree_count u = 0 then Inr (0, b\<lparr>bn_keys := None\<rparr>) else Inr (0, b\<lparr>bn_keys := Some u\<rparr>))"
      using Some u(1) k(1) by (simp add: UnbanCDKey_def)
    have left: "keys_ok (b\<lparr>bn_keys := Some u\<rparr>)" "banned_keys (b\<lparr>bn_keys := Some u\<rparr>) = (banned_keys b)(take 32 key := None)"
      using u t by (auto simp: keys_ok_def banned_keys_def same_kind_def)
    have none: "keys_ok (b\<lparr>bn_keys := None\<rparr>)" "cp_avltree_count u = 0 \<Longrightarrow> banned_keys (b\<lparr>bn_keys := None\<rparr>) = (banned_keys b)(take 32 key := None)"
      using empty_content [OF u(2)] u(3) t(5) by (simp_all add: keys_ok_def banned_keys_def)
    show ?thesis
      using left none unfolding ans by simp
  qed
qed

theorem cd_bans_enforced_witness:
  "\<exists>b'. BanCDKey (replicate 32 65) 5 (no_bans True) = Inr (0, b') \<and> banned_keys b' = [replicate 32 65 \<mapsto> 5]"
  using cd_bans_enforced [of "no_bans True" "replicate 32 65" 5] by (auto simp: keys_ok_def no_bans_def banned_keys_def)

section \<open>The list of the masks\<close>

text \<open>
  A segment of the list: from the pointer \<open>p\<close>, with \<open>prev\<close> before it, over the containers \<open>as\<close> to the pointer \<open>e\<close>, with
  \<open>l\<close> before that.
\<close>

fun seg :: "store \<Rightarrow> nat option \<Rightarrow> nat option \<Rightarrow> nat list \<Rightarrow> nat option \<Rightarrow> nat option \<Rightarrow> bool" where
  "seg h prev p [] l e \<longleftrightarrow> l = prev \<and> e = p"
| "seg h prev p (a # as) l e \<longleftrightarrow> p = Some a \<and> (\<exists>c. h a = Some c \<and> ct_prev c = prev \<and> seg h (Some a) (ct_next c) as l e)"

lemma seg_append: "seg h prev p (xs @ ys) l e \<longleftrightarrow> (\<exists>m n. seg h prev p xs m n \<and> seg h m n ys l e)"
  by (induction xs arbitrary: prev p) auto

lemma seg_frame:
  "(\<And>a. a \<in> set as \<Longrightarrow> map_option (\<lambda>c. (ct_prev c, ct_next c)) (h' a) = map_option (\<lambda>c. (ct_prev c, ct_next c)) (h a)) \<Longrightarrow>
    seg h prev p as l e \<Longrightarrow> seg h' prev p as l e"
proof (induction as arbitrary: prev p)
  case (Cons a as)
  obtain c where c: "h a = Some c" "p = Some a" "ct_prev c = prev" "seg h (Some a) (ct_next c) as l e"
    using Cons.prems(2) by auto
  obtain c' where "h' a = Some c'" "ct_prev c' = ct_prev c" "ct_next c' = ct_next c"
    using Cons.prems(1) [of a] c(1) by auto
  then show ?case
    using Cons.IH [of "Some a" "ct_next c"] Cons.prems(1) c by auto
qed simp

lemma seg_update: "a \<notin> set as \<Longrightarrow> seg h prev p as l e \<Longrightarrow> seg (h(a := x)) prev p as l e"
  by (rule seg_frame [of as]) auto

lemma seg_stored: "seg h prev p as l e \<Longrightarrow> a \<in> set as \<Longrightarrow> \<exists>c. h a = Some c"
  by (induction as arbitrary: prev p) auto

lemma seg_last: "seg h prev p as l e \<Longrightarrow> l = (if as = [] then prev else Some (last as))"
  by (induction as arbitrary: prev p) auto

definition small :: "u32 set" where
  "small = {a. unat a < 2 ^ 31}"

lemma CompareIPv4_small:
  assumes "a \<in> small" "b \<in> small"
  shows "CompareIPv4 a b = int (unat a) - int (unat b)"
proof -
  have "int (unat a) < int (2 ^ 31)" "int (unat b) < int (2 ^ 31)"
    using assms by (simp_all only: of_nat_less_iff small_def mem_Collect_eq)
  moreover have "int (2 ^ 31) = 2 ^ 31"
    by simp
  ultimately have "sint (of_int (int (unat a) - int (unat b)) :: u32) = int (unat a) - int (unat b)"
    by (intro sint_of_int_u32) linarith+
  moreover have "of_int (int (unat a) - int (unat b)) = a - b"
    by simp
  ultimately show ?thesis
    by (simp only: CompareIPv4_def)
qed

interpretation by_address: ordered_keys CompareIPv4 small
proof
  show "CompareIPv4 a b = 0 \<longleftrightarrow> a = b" for a b
    unfolding CompareIPv4_def by (metis right_minus_eq signed_0 signed_word_eqI)
qed (auto simp: CompareIPv4_small)

definition mask_of :: "store \<Rightarrow> nat \<Rightarrow> u32" where
  "mask_of h a = (case h a of None \<Rightarrow> 0 | Some c \<Rightarrow> ct_mask c)"

definition container_ok :: "container \<Rightarrow> bool" where
  "container_ok c \<longleftrightarrow> ct_mask c \<in> set subnet_masks \<and> tree_fine small (ct_tree c) \<and> at_cmp (ct_tree c) = CompareIPv4 \<and>
     \<not> at_copy (ct_tree c) \<and> at_null (ct_tree c) = (\<lambda>v. v = 0)"

definition ips_ok :: "bans \<Rightarrow> nat list \<Rightarrow> bool" where
  "ips_ok b as \<longleftrightarrow> (\<exists>l. seg (bn_store b) None (bn_ips b) as l None) \<and> distinct as \<and>
     (\<forall>a \<in> set as. a < bn_fresh b \<and> (\<forall>c. bn_store b a = Some c \<longrightarrow> container_ok c)) \<and>
     sorted_wrt (\<lambda>a a'. mask_of (bn_store b) a < mask_of (bn_store b) a') as"

text \<open>The bans of the list: an address under a mask, until a time.\<close>

definition holds :: "store \<Rightarrow> nat list \<Rightarrow> u32 \<Rightarrow> u32 \<Rightarrow> u32 \<Rightarrow> bool" where
  "holds h as m k t \<longleftrightarrow> (\<exists>a \<in> set as. \<exists>c. h a = Some c \<and> ct_mask c = m \<and> content (ct_tree c) k = Some t)"

lemma mask_of_Some [simp]: "h a = Some c \<Longrightarrow> mask_of h a = ct_mask c"
  by (simp add: mask_of_def)

lemma find_mask_split:
  "seg h prev p as l None \<Longrightarrow> \<exists>xs ys. as = xs @ ys \<and> (\<forall>a \<in> set xs. mask_of h a < m) \<and> (ys \<noteq> [] \<longrightarrow> m \<le> mask_of h (hd ys)) \<and>
    find_mask h m p = Some (Inr (if ys = [] then None else Some (hd ys), ys \<noteq> [] \<and> mask_of h (hd ys) = m))"
proof (induction as arbitrary: prev p)
  case Nil
  then show ?case
    by (auto simp: find_mask.simps)
next
  case (Cons a as)
  then obtain c where c: "p = Some a" "h a = Some c" "seg h (Some a) (ct_next c) as l None"
    by auto
  show ?case
  proof (cases "ct_mask c < m")
    case True
    obtain xs ys where i: "as = xs @ ys" "\<forall>a \<in> set xs. mask_of h a < m" "ys \<noteq> [] \<longrightarrow> m \<le> mask_of h (hd ys)"
      "find_mask h m (ct_next c) = Some (Inr (if ys = [] then None else Some (hd ys), ys \<noteq> [] \<and> mask_of h (hd ys) = m))"
      using Cons.IH [OF c(3)] by blast
    have "\<not> m < ct_mask c" "ct_mask c \<noteq> m"
      using True by auto
    then have "find_mask h m (Some a) = find_mask h m (ct_next c)"
      using c(2) by (subst find_mask.simps) (simp add: get_container_def)
    then show ?thesis
      using i True c(1,2) by (intro exI [of _ "a # xs"] exI [of _ ys]) simp
  next
    case False
    then have "find_mask h m p = Some (Inr (Some a, ct_mask c = m))"
      unfolding c(1) using c(2) by (subst find_mask.simps) (auto simp: get_container_def)
    then show ?thesis
      using False c(2) by (intro exI [of _ "[]"] exI [of _ "a # as"]) simp
  qed
qed

lemma last_container_seg:
  "seg h prev (Some a) (a # as) l None \<Longrightarrow> last_container h a = Some (Inr (last (a # as)))"
proof (induction as arbitrary: a prev)
  case Nil
  then show ?case
    by (auto simp: last_container.simps [of h a] get_container_def)
next
  case (Cons n as)
  then obtain c where c: "h a = Some c" "ct_next c = Some n" "seg h (Some a) (Some n) (n # as) l None"
    by auto
  then show ?case
    using Cons.IH [OF c(3)] by (simp add: last_container.simps [of h a] get_container_def)
qed

text \<open>Linking a new container between two parts of the list.\<close>

lemma link_between:
  assumes "seg (bn_store b) None (bn_ips b) (xs @ ys) l None" "distinct (xs @ ys)" "a \<notin> set (xs @ ys)"
  shows "\<exists>h head. link_container a c (if ys = [] then None else Some (hd ys)) b = Some (Inr (b\<lparr>bn_ips := head, bn_store := h\<rparr>)) \<and>
    (\<exists>l. seg h None head (xs @ a # ys) l None) \<and> map_option (\<lambda>c. (ct_tree c, ct_mask c)) (h a) = Some (ct_tree c, ct_mask c) \<and>
    (\<forall>a' \<in> set (xs @ ys). map_option (\<lambda>c. (ct_tree c, ct_mask c)) (h a') = map_option (\<lambda>c. (ct_tree c, ct_mask c)) (bn_store b a'))"
proof -
  let ?h = "bn_store b"
  obtain m n where parts: "seg ?h None (bn_ips b) xs m n" "seg ?h m n ys l None"
    using assms(1) by (auto simp: seg_append)
  have m: "m = (if xs = [] then None else Some (last xs))"
    using seg_last [OF parts(1)] by simp
  show ?thesis
  proof (cases ys)
    case Nil
    show ?thesis
    proof (cases xs rule: rev_cases)
      case xs: Nil
      have "bn_ips b = None"
        using parts Nil xs by simp
      then show ?thesis
        using Nil xs by (intro exI [of _ "?h(a \<mapsto> c\<lparr>ct_prev := None, ct_next := None\<rparr>)"] exI [of _ "Some a"])
          (simp add: link_container_def)
    next
      case xs: (snoc xs' p)
      obtain k j where before: "seg ?h None (bn_ips b) xs' k j" "seg ?h k j [p] (Some p) None"
        using parts Nil xs m by (auto simp: seg_append)
      then obtain d where d: "?h p = Some d" "ct_prev d = k" "j = Some p" "ct_next d = None"
        by auto
      obtain head where head: "bn_ips b = Some head"
        using before(1) d(3) by (cases "bn_ips b"; cases xs') auto
      have "xs \<noteq> []" and last_p: "last xs = p"
        using xs by simp_all
      then obtain xs1 where "xs = head # xs1"
        using parts(1) head by (cases xs) auto
      then have last: "last_container ?h head = Some (Inr p)"
        using last_container_seg [of ?h None head xs1 m] parts Nil head last_p by simp
      let ?h' = "?h(p \<mapsto> d\<lparr>ct_next := Some a\<rparr>, a \<mapsto> c\<lparr>ct_prev := Some p, ct_next := None\<rparr>)"
      have "p \<noteq> a" "p \<notin> set xs'" "a \<notin> set xs'"
        using assms(2,3) xs Nil by auto
      moreover from this have "seg ?h' None (bn_ips b) xs' k j"
        using before(1) by (intro seg_update) auto
      ultimately have "seg ?h' None (bn_ips b) (xs @ a # ys) (Some a) None"
        using d xs Nil by (auto simp: seg_append)
      moreover have "link_container a c None b = Some (Inr (b\<lparr>bn_ips := bn_ips b, bn_store := ?h'\<rparr>))"
        using head last d(1) by (simp add: link_container_def get_container_def)
      ultimately show ?thesis
        using Nil d(1) \<open>p \<noteq> a\<close> assms(3) by (intro exI [of _ ?h'] exI [of _ "bn_ips b"]) auto
    qed
  next
    case ys: (Cons p ys')
    obtain d where d: "n = Some p" "?h p = Some d" "ct_prev d = m" "seg ?h (Some p) (ct_next d) ys' l None"
      using parts(2) ys by auto
    have ne: "p \<noteq> a" "p \<notin> set ys'" "a \<notin> set ys'" "p \<notin> set xs" "a \<notin> set xs" "set xs \<inter> set ys' = {}"
      using assms(2,3) ys by auto
    let ?h1 = "?h(a \<mapsto> c\<lparr>ct_prev := m, ct_next := Some p\<rparr>, p \<mapsto> d\<lparr>ct_prev := Some a\<rparr>)"
    have rest1: "seg ?h1 (Some p) (ct_next d) ys' l None"
      using d(4) ne by (intro seg_update)
    show ?thesis
    proof (cases xs rule: rev_cases)
      case xs: Nil
      obtain head where "bn_ips b = Some head"
        using parts(1) xs d(1) by (cases "bn_ips b") auto
      then have "link_container a c (Some p) b = Some (Inr (b\<lparr>bn_ips := Some a, bn_store := ?h1\<rparr>))"
        using d(2,3) xs m by (simp add: link_container_def get_container_def Let_def)
      moreover have "seg ?h1 None (Some a) (a # ys) l None"
        using rest1 ne xs ys m by simp
      ultimately show ?thesis
        using xs ys ne d(2) by (intro exI [of _ ?h1] exI [of _ "Some a"]) auto
    next
      case xs: (snoc xs' q)
      obtain k j where before: "seg ?h None (bn_ips b) xs' k j" "seg ?h k j [q] m n"
        using parts(1) xs by (auto simp: seg_append)
      then obtain e where e: "?h q = Some e" "ct_prev e = k" "j = Some q" "ct_next e = n" "m = Some q"
        by auto
      obtain head where head: "bn_ips b = Some head"
        using before(1) e(3) by (cases "bn_ips b"; cases xs') auto
      have ne': "q \<noteq> p" "q \<noteq> a" "q \<notin> set xs'" "q \<notin> set ys'" "p \<notin> set xs'" "a \<notin> set xs'"
        using assms(2,3) xs ys by auto
      let ?h2 = "?h1(q \<mapsto> e\<lparr>ct_next := Some a\<rparr>)"
      have "link_container a c (Some p) b = Some (Inr (b\<lparr>bn_ips := bn_ips b, bn_store := ?h2\<rparr>))"
        using head d(2,3) e ne' by (simp add: link_container_def get_container_def Let_def)
      moreover have "seg ?h2 None (bn_ips b) xs' k j"
        using before(1) ne' by (intro seg_update)
      moreover have "seg ?h2 (Some p) (ct_next d) ys' l None"
        using rest1 ne'(4) by (rule seg_update [rotated])
      ultimately show ?thesis
        using xs ys ne ne' d(2) e by (intro exI [of _ ?h2] exI [of _ "bn_ips b"]) (auto simp: seg_append)
    qed
  qed
qed

text \<open>The tree of a container after a ban.\<close>

lemma ban_in_tree_ok:
  assumes "tree_fine small t" "at_cmp t = CompareIPv4" "\<not> at_copy t" "at_null t = (\<lambda>v. v = 0)" "ip AND m \<in> small" "time \<noteq> 0"
  obtains t' where "ban_in_tree ip m time t = Inr (0, t')" "tree_fine small t'" "content t' = (content t)(ip AND m \<mapsto> time)" "same_kind t t'"
  using by_address.insert_fine [OF assms(2,1,5), of time] assms(3,4,6) by (auto simp: ban_in_tree_def non_null_def)

lemma stored_tree:
  assumes "map_option (\<lambda>c. (ct_tree c, ct_mask c)) (h' a) = map_option (\<lambda>c. (ct_tree c, ct_mask c)) (h a)"
  shows "mask_of h' a = mask_of h a"
    "(\<exists>c. h' a = Some c \<and> ct_mask c = m \<and> content (ct_tree c) k = Some t) \<longleftrightarrow>
      (\<exists>c. h a = Some c \<and> ct_mask c = m \<and> content (ct_tree c) k = Some t)"
  using assms by (cases "h a"; cases "h' a"; auto simp: mask_of_def)+

lemma BanIPv4_ok:
  assumes "ips_ok b as" "m \<in> set subnet_masks" "ip AND m \<in> small" "time \<noteq> 0"
  shows "\<exists>b' as'. BanIPv4 ip m time b = Some (Inr (0, b')) \<and> ips_ok b' as' \<and> bn_filterban b' = bn_filterban b \<and>
    (\<forall>m' k t. holds (bn_store b') as' m' k t \<longleftrightarrow>
      (if m' = m \<and> k = ip AND m then t = time else holds (bn_store b) as m' k t))"
proof -
  let ?h = "bn_store b"
  obtain l where l: "seg ?h None (bn_ips b) as l None"
    using assms(1) by (auto simp: ips_ok_def)
  have dist: "distinct as" "sorted_wrt (\<lambda>a a'. mask_of ?h a < mask_of ?h a') as"
    and old: "\<And>a c. a \<in> set as \<Longrightarrow> ?h a = Some c \<Longrightarrow> container_ok c" "\<And>a. a \<in> set as \<Longrightarrow> a < bn_fresh b"
    using assms(1) by (auto simp: ips_ok_def)
  obtain xs ys where split: "as = xs @ ys" "\<forall>a \<in> set xs. mask_of ?h a < m" "ys \<noteq> [] \<longrightarrow> m \<le> mask_of ?h (hd ys)"
    "find_mask ?h m (bn_ips b) = Some (Inr (if ys = [] then None else Some (hd ys), ys \<noteq> [] \<and> mask_of ?h (hd ys) = m))"
    using find_mask_split [OF l] by blast
  show ?thesis
  proof (cases "ys \<noteq> [] \<and> mask_of ?h (hd ys) = m")
    case True
    define a where "a = hd ys"
    have a: "a \<in> set as" "mask_of ?h a = m"
      using True split(1) by (auto simp: a_def)
    obtain c where c: "?h a = Some c"
      using seg_stored [OF l a(1)] by blast
    then have cok: "container_ok c" "ct_mask c = m"
      using old(1) a by auto
    obtain t' where t': "ban_in_tree ip m time (ct_tree c) = Inr (0, t')" "tree_fine small t'"
      "content t' = (content (ct_tree c))(ip AND m \<mapsto> time)" "same_kind (ct_tree c) t'"
      using ban_in_tree_ok [of "ct_tree c" ip m time] cok(1) assms(3,4) by (auto simp: container_ok_def)
    let ?h' = "?h(a \<mapsto> c\<lparr>ct_tree := t'\<rparr>)"
    have run: "BanIPv4 ip m time b = Some (Inr (0, b\<lparr>bn_store := ?h'\<rparr>))"
      using assms(2) split(4) True c t'(1) by (simp add: BanIPv4_def get_container_def flip: a_def)
    have masks: "mask_of ?h' = mask_of ?h"
      using c by (auto simp: mask_of_def fun_eq_iff)
    have "container_ok (c\<lparr>ct_tree := t'\<rparr>)"
      using cok(1) t' by (auto simp: container_ok_def same_kind_def)
    moreover have "seg ?h' None (bn_ips b) as l None"
      by (rule seg_frame [OF _ l]) (use c in auto)
    ultimately have "ips_ok (b\<lparr>bn_store := ?h'\<rparr>) as"
      using dist old masks by (auto simp: ips_ok_def)
    moreover have "holds ?h' as m' k t \<longleftrightarrow> (if m' = m \<and> k = ip AND m then t = time else holds ?h as m' k t)" for m' k t
    proof -
      have other: "mask_of ?h a' \<noteq> m" if "a' \<in> set as" "a' \<noteq> a" for a'
      proof -
        obtain us vs where "as = us @ a # vs"
          using a(1) by (meson split_list)
        then show ?thesis
          using dist that a(2) by (auto simp: sorted_wrt_append)
      qed
      show ?thesis
      proof (cases "m' = m")
        case True
        have "holds h as m k t \<longleftrightarrow> (\<exists>c. h a = Some c \<and> ct_mask c = m \<and> content (ct_tree c) k = Some t)"
          if "\<forall>a' \<in> set as. a' \<noteq> a \<longrightarrow> h a' = ?h a'" for h
          using other that a(1) by (force simp: holds_def)
        from this [of ?h'] this [of ?h] show ?thesis
          using True c cok(2) t'(3) by auto
      next
        case False
        then have "(\<exists>c. ?h' a' = Some c \<and> ct_mask c = m' \<and> content (ct_tree c) k = Some t) \<longleftrightarrow>
            (\<exists>c. ?h a' = Some c \<and> ct_mask c = m' \<and> content (ct_tree c) k = Some t)" for a'
          using c cok(2) by (cases "a' = a") auto
        then show ?thesis
          using False by (simp add: holds_def del: fun_upd_apply)
      qed
    qed
    ultimately show ?thesis
      using run by fastforce
  next
    case False
    let ?new = "cp_avltree_create CompareIPv4 False (\<lambda>v. v = 0) :: (u32, u32) avltree"
    obtain t' where t': "ban_in_tree ip m time ?new = Inr (0, t')" "tree_fine small t'"
      "content t' = (content ?new)(ip AND m \<mapsto> time)" "same_kind ?new t'"
      using ban_in_tree_ok [of ?new ip m time] assms(3,4) by (auto simp: cp_avltree_create_def tree_fine_def)
    let ?a = "bn_fresh b" and ?b = "b\<lparr>bn_fresh := bn_fresh b + 1\<rparr>"
    let ?c = "\<lparr>ct_tree = t', ct_prev = None, ct_next = None, ct_mask = m\<rparr>"
    have fresh: "?a \<notin> set (xs @ ys)"
      using old(2) split(1) by auto
    obtain h head l' where link: "link_container ?a ?c (if ys = [] then None else Some (hd ys)) ?b =
        Some (Inr (?b\<lparr>bn_ips := head, bn_store := h\<rparr>))" "seg h None head (xs @ ?a # ys) l' None"
      "map_option (\<lambda>c. (ct_tree c, ct_mask c)) (h ?a) = Some (t', m)"
      "\<And>a'. a' \<in> set as \<Longrightarrow> map_option (\<lambda>c. (ct_tree c, ct_mask c)) (h a') = map_option (\<lambda>c. (ct_tree c, ct_mask c)) (?h a')"
      using link_between [of ?b xs ys l ?a ?c] l dist(1) split(1) fresh by auto
    obtain c where c: "h ?a = Some c" "ct_tree c = t'" "ct_mask c = m"
      using link(3) by auto
    let ?b' = "?b\<lparr>bn_ips := head, bn_store := h\<rparr>"
    have run: "BanIPv4 ip m time b = Some (Inr (0, ?b'))"
      using assms(2) split(4) False t'(1) link(1) by (simp add: BanIPv4_def)
    have masks: "mask_of h a' = mask_of ?h a'" if "a' \<in> set as" for a'
      using stored_tree(1) [of h a' ?h] link(4) [OF that] by blast
    have above: "m < mask_of ?h a'" if "a' \<in> set ys" for a'
    proof -
      have "m < mask_of ?h (hd ys)"
        using False that split(3) by (cases ys) auto
      moreover have "mask_of ?h (hd ys) \<le> mask_of ?h a'"
        using that dist(2) split(1) by (cases ys) (auto simp: sorted_wrt_append)
      ultimately show ?thesis
        by simp
    qed
    have "sorted_wrt (\<lambda>a a'. mask_of h a < mask_of h a') (xs @ ?a # ys)"
    proof -
      have "sorted_wrt (\<lambda>a a'. mask_of h a < mask_of h a') as"
        using dist(2) by (rule sorted_wrt_mono_rel [rotated]) (simp add: masks)
      then show ?thesis
        using split(1,2) above masks c by (auto simp: sorted_wrt_append)
    qed
    moreover have "container_ok c'" if member: "a' \<in> set (xs @ ?a # ys)" and stored: "h a' = Some c'" for a' c'
    proof (cases "a' = ?a")
      case True
      then have "c' = c"
        using stored c(1) by simp
      then show ?thesis
        using c t' assms(2) by (simp add: container_ok_def same_kind_def cp_avltree_create_def)
    next
      case False
      then have "a' \<in> set as"
        using member split(1) by auto
      then obtain d where "?h a' = Some d" "ct_tree d = ct_tree c'" "ct_mask d = ct_mask c'"
        using link(4) [of a'] stored by (cases "?h a'") auto
      then show ?thesis
        using old(1) [OF \<open>a' \<in> set as\<close>] by (simp add: container_ok_def)
    qed
    ultimately have "ips_ok ?b' (xs @ ?a # ys)"
      using link(2) dist(1) old(2) split(1) fresh by (auto simp: ips_ok_def less_SucI)
    moreover have "holds h (xs @ ?a # ys) m' k t \<longleftrightarrow> (if m' = m \<and> k = ip AND m then t = time else holds ?h as m' k t)" for m' k t
    proof -
      have "(\<exists>a' \<in> set as. \<exists>c. h a' = Some c \<and> ct_mask c = m' \<and> content (ct_tree c) k = Some t) \<longleftrightarrow> holds ?h as m' k t"
        using stored_tree(2) [of h _ ?h m' k t] link(4) by (auto simp: holds_def)
      then have here: "holds h (xs @ ?a # ys) m' k t \<longleftrightarrow> m' = m \<and> content t' k = Some t \<or> holds ?h as m' k t"
        using c split(1) by (auto simp: holds_def)
      have "\<not> holds ?h as m k t"
        using split(1,2) above by (auto simp: holds_def) (metis less_irrefl mask_of_Some)+
      then show ?thesis
        using here t'(3) by (auto simp: cp_avltree_create_def content_def)
    qed
    ultimately show ?thesis
      using run by fastforce
  qed
qed

lemma content_outside: "tree_fine K t \<Longrightarrow> k \<notin> K \<Longrightarrow> content t k = None"
  by (auto simp: tree_fine_def content_def map_of_eq_None_iff)

lemma found_time_content:
  assumes "container_ok c"
  shows "found_time (cp_avltree_get (ct_tree c) k) = (case content (ct_tree c) k of None \<Rightarrow> 0 | Some v \<Rightarrow> v)"
proof (cases "k \<in> small")
  case True
  then show ?thesis
    using by_address.get_fine [of "ct_tree c" k] assms by (simp add: container_ok_def found_time_null)
next
  case False
  then show ?thesis
    using by_address.get_outside [of "ct_tree c" k] content_outside [of small "ct_tree c" k] assms
    by (simp add: container_ok_def found_time_def)
qed

text \<open>The search as long as nothing it finds has run out.\<close>

lemma banned_loop_quiet:
  assumes "seg (bn_store b) prev p as l e" "\<forall>a \<in> set as. \<forall>c. bn_store b a = Some c \<longrightarrow> container_ok c"
    and "\<forall>m t. holds (bn_store b) as m (ip AND m) t \<longrightarrow> \<not> run_out now (Some t)"
  shows "banned_loop now ip p b =
    (if \<exists>m t. holds (bn_store b) as m (ip AND m) t \<and> in_force now (Some t) then Some (Inr (bn_filterban b, b))
     else banned_loop now ip e b)"
  using assms
proof (induction as arbitrary: prev p)
  case (Cons a as)
  then obtain c where c: "p = Some a" "bn_store b a = Some c" "seg (bn_store b) (Some a) (ct_next c) as l e"
    by auto
  have holds: "holds (bn_store b) (a # as) m k t \<longleftrightarrow> ct_mask c = m \<and> content (ct_tree c) k = Some t \<or> holds (bn_store b) as m k t" for m k t
    using c(2) by (auto simp: holds_def)
  have rest: "banned_loop now ip (ct_next c) b =
    (if \<exists>m t. holds (bn_store b) as m (ip AND m) t \<and> in_force now (Some t) then Some (Inr (bn_filterban b, b))
     else banned_loop now ip e b)"
    using Cons.prems(2,3) holds by (intro Cons.IH [OF c(3)]) auto
  let ?r = "content (ct_tree c) (ip AND ct_mask c)"
  have here: "found_time (cp_avltree_get (ct_tree c) (ip AND ct_mask c)) = (case ?r of None \<Rightarrow> 0 | Some v \<Rightarrow> v)"
    using found_time_content [of c] Cons.prems(2) c(2) by simp
  show ?case
  proof (cases "in_force now ?r")
    case True
    then obtain t where t: "?r = Some t" "t \<noteq> 0" "t = -1 \<or> now \<le> t"
      by (auto simp: in_force_def split: option.splits)
    then have "banned_loop now ip p b = Some (Inr (bn_filterban b, b))"
      using c(1,2) here by (subst banned_loop.simps) (auto simp: get_container_def Let_def)
    moreover have "holds (bn_store b) (a # as) (ct_mask c) (ip AND ct_mask c) t \<and> in_force now (Some t)"
      using t True holds by simp
    ultimately show ?thesis
      by auto
  next
    case False
    have "?r = None \<or> ?r = Some 0"
    proof (cases ?r)
      case (Some t)
      then have "\<not> run_out now (Some t)"
        using Cons.prems(3) holds by blast
      then show ?thesis
        using False Some by (auto simp: in_force_def run_out_def)
    qed simp
    then have "banned_loop now ip p b = banned_loop now ip (ct_next c) b"
      unfolding c(1) using c(2) here by (subst banned_loop.simps) (auto simp: get_container_def Let_def)
    moreover have "(\<exists>m t. holds (bn_store b) (a # as) m (ip AND m) t \<and> in_force now (Some t)) \<longleftrightarrow>
        (\<exists>m t. holds (bn_store b) as m (ip AND m) t \<and> in_force now (Some t))"
      using False holds by auto
    ultimately show ?thesis
      using rest by simp
  qed
qed (simp add: holds_def)

text \<open>
  C37. Bans of addresses below \<open>2 ^ 31\<close> are kept: with a mask of low bits and a time other than 0, a ban succeeds, adds exactly its
  entry to the lists, and leaves them well formed; a query at a time when no entry for the address has run out changes
  nothing, and is answered by the list exactly when an entry of some mask for the address is in force. Any other mask
  ends the process.
\<close>

theorem ip_bans_enforced:
  assumes "ips_ok b as" "unat (ip AND m) < 2 ^ 31" "time \<noteq> 0"
    and "\<forall>m t. holds (bn_store b) as m (ip AND m) t \<longrightarrow> \<not> run_out now (Some t)"
  shows "(if m \<in> set subnet_masks
     then \<exists>b' as'. BanIPv4 ip m time b = Some (Inr (0, b')) \<and> ips_ok b' as' \<and> bn_filterban b' = bn_filterban b \<and>
       (\<forall>m' k t. holds (bn_store b') as' m' k t \<longleftrightarrow>
         (if m' = m \<and> k = ip AND m then t = time else holds (bn_store b) as m' k t))
     else BanIPv4 ip m time b = Some (Inl SysError)) \<and>
    IsIPv4Banned now ip b =
      Some (Inr (bn_filterban b = (\<exists>m t. holds (bn_store b) as m (ip AND m) t \<and> in_force now (Some t)), b))"
proof
  show "if m \<in> set subnet_masks
     then \<exists>b' as'. BanIPv4 ip m time b = Some (Inr (0, b')) \<and> ips_ok b' as' \<and> bn_filterban b' = bn_filterban b \<and>
       (\<forall>m' k t. holds (bn_store b') as' m' k t \<longleftrightarrow>
         (if m' = m \<and> k = ip AND m then t = time else holds (bn_store b) as m' k t))
     else BanIPv4 ip m time b = Some (Inl SysError)"
    using BanIPv4_ok [OF assms(1), of m ip time] assms(2,3) by (auto simp: BanIPv4_def small_def)
  obtain l where "seg (bn_store b) None (bn_ips b) as l None" "\<forall>a \<in> set as. \<forall>c. bn_store b a = Some c \<longrightarrow> container_ok c"
    using assms(1) by (auto simp: ips_ok_def)
  then show "IsIPv4Banned now ip b =
      Some (Inr (bn_filterban b = (\<exists>m t. holds (bn_store b) as m (ip AND m) t \<and> in_force now (Some t)), b))"
    using banned_loop_quiet [of b None "bn_ips b" as l None ip now] assms(4)
    by (auto simp: IsIPv4Banned_def banned_loop.simps [of now ip None])
qed

theorem ip_bans_enforced_witness:
  "\<exists>b' as. BanIPv4 0x01020304 0xFF 5 (no_bans True) = Some (Inr (0, b')) \<and> ips_ok b' as \<and> holds (bn_store b') as 0xFF 4 5"
proof -
  have "ips_ok (no_bans True) []" "\<not> holds (bn_store (no_bans True)) [] m k t" for m k t
    by (auto simp: ips_ok_def holds_def no_bans_def)
  moreover have "(0xFF :: u32) \<in> set subnet_masks"
    by (simp add: subnet_masks_def mask_eq_exp_minus_1 upt_rec)
  ultimately show ?thesis
    using ip_bans_enforced [of "no_bans True" "[]" "0x01020304" "0xFF" 5 0] by fastforce
qed

text \<open>
  C38. Lifting the only ban of a mask that is not the first of the list corrupts the list: it succeeds, but the container before
  keeps its link to the freed one, so that afterwards every query for an address that no ban before it
  decides follows a dangling pointer.
\<close>

theorem unban_dangles:
  assumes "ips_ok b (xs @ a # ys)" "xs \<noteq> []" "bn_store b a = Some c" "cp_avltree_count (ct_tree c) = 1"
    and "ip AND ct_mask c \<in> small" "content (ct_tree c) (ip AND ct_mask c) = Some t" "t \<noteq> 0"
  shows "\<exists>b'. UnbanIPv4 ip (ct_mask c) b = Some (Inr (0, b')) \<and>
    (\<forall>now ip'. (\<forall>m t. \<not> holds (bn_store b) xs m (ip' AND m) t) \<longrightarrow> IsIPv4Banned now ip' b' = Some (Inl BadPointer))"
proof -
  let ?h = "bn_store b"
  obtain l where l: "seg ?h None (bn_ips b) (xs @ a # ys) l None"
    using assms(1) by (auto simp: ips_ok_def)
  have dist: "distinct (xs @ a # ys)" "sorted_wrt (\<lambda>a a'. mask_of ?h a < mask_of ?h a') (xs @ a # ys)"
    and ok: "\<And>a' c. a' \<in> set (xs @ a # ys) \<Longrightarrow> ?h a' = Some c \<Longrightarrow> container_ok c"
    using assms(1) unfolding ips_ok_def by blast+
  obtain m where parts: "seg ?h None (bn_ips b) xs m (Some a)" "ct_prev c = m" "seg ?h (Some a) (ct_next c) ys l None"
    using l assms(3) by (auto simp: seg_append)
  obtain q where q: "m = Some q"
    using seg_last [OF parts(1)] assms(2) by auto
  have cok: "container_ok c"
    using ok [of a c] assms(3) by simp
  obtain t' where t': "cp_avltree_delete (ct_tree c) (ip AND ct_mask c) = Inr (Some t, t')" "content t' = (content (ct_tree c))(ip AND ct_mask c := None)"
    "tree_fine small t'"
    using by_address.delete_fine [of "ct_tree c" "ip AND ct_mask c"] cok assms(5-7) by (auto simp: container_ok_def non_null_def)
  have found: "find_mask ?h (ct_mask c) (bn_ips b) = Some (Inr (Some a, True))"
  proof -
    obtain us vs where uv: "xs @ a # ys = us @ vs" "\<forall>a \<in> set us. mask_of ?h a < ct_mask c" "vs \<noteq> [] \<longrightarrow> ct_mask c \<le> mask_of ?h (hd vs)"
      "find_mask ?h (ct_mask c) (bn_ips b) = Some (Inr (if vs = [] then None else Some (hd vs), vs \<noteq> [] \<and> mask_of ?h (hd vs) = ct_mask c))"
      using find_mask_split [OF l] by blast
    have "a \<notin> set us"
      using uv(2) assms(3) by fastforce
    moreover have "hd vs = a" if "vs \<noteq> []"
    proof (rule ccontr)
      assume other: "hd vs \<noteq> a"
      have "hd vs \<in> set xs"
        using uv(1) \<open>a \<notin> set us\<close> other that by (cases vs) (auto simp: append_eq_append_conv2 append_eq_Cons_conv Cons_eq_append_conv)
      moreover have "ct_mask c \<le> mask_of ?h (hd vs)"
        using uv(3) that by simp
      moreover have "mask_of ?h a' < ct_mask c" if "a' \<in> set xs" for a'
        using dist(2) that assms(3) by (simp add: sorted_wrt_append)
      ultimately show False
        by fastforce
    qed
    moreover have "vs \<noteq> []"
      using uv(1) \<open>a \<notin> set us\<close> by auto
    ultimately show ?thesis
      using uv(4) assms(3) by simp
  qed
  have count: "cp_avltree_count t' = 0"
    using t'(1) assms(4)
    by (auto simp: cp_avltree_delete_def cp_avltree_count_def non_null_def outcome_simps split: option.splits if_splits prod.splits)
  let ?c = "c\<lparr>ct_tree := t'\<rparr>"
  obtain h' where h': "unlink_container a ?c (b\<lparr>bn_store := ?h(a \<mapsto> ?c)\<rparr>) = Inr (b\<lparr>bn_store := h'\<rparr>)" "h' a = None"
    "\<forall>a' \<in> set xs. h' a' = ?h a'"
  proof (cases "ct_next c")
    case None
    then show ?thesis
      using parts(2) q dist(1) by (intro that [of "?h(a := None)"]) (auto simp: unlink_container_def)
  next
    case (Some n)
    then obtain d where d: "?h n = Some d" "n \<in> set ys"
      using parts(3) by (cases ys) auto
    let ?h' = "(?h(a \<mapsto> ?c\<lparr>ct_prev := Some n\<rparr>, n \<mapsto> d\<lparr>ct_prev := Some n\<rparr>))(a := None)"
    have "unlink_container a ?c (b\<lparr>bn_store := ?h(a \<mapsto> ?c)\<rparr>) = Inr (b\<lparr>bn_store := ?h'\<rparr>)"
      using parts(2) q dist(1) Some d by (auto simp: unlink_container_def get_container_def Let_def)
    then show ?thesis
      using dist(1) d(2) by (intro that [of ?h']) auto
  qed
  let ?b' = "b\<lparr>bn_store := h'\<rparr>"
  have "ct_mask c \<in> set subnet_masks"
    using cok by (simp add: container_ok_def)
  then have "UnbanIPv4 ip (ct_mask c) b = Some (Inr (0, ?b'))"
    using found assms(3) t'(1) count h'(1) by (simp add: UnbanIPv4_def get_container_def Let_def)
  moreover have "IsIPv4Banned now ip' ?b' = Some (Inl BadPointer)" if none: "\<forall>m t. \<not> holds ?h xs m (ip' AND m) t" for now ip'
  proof -
    have "seg h' None (bn_ips b) xs m (Some a)"
      by (rule seg_frame [OF _ parts(1)]) (use h'(3) in simp)
    moreover have "holds h' xs = holds ?h xs"
      using h'(3) by (auto simp: holds_def fun_eq_iff)
    moreover have "\<forall>a \<in> set xs. \<forall>c. h' a = Some c \<longrightarrow> container_ok c"
      using h'(3) ok by fastforce
    ultimately have "banned_loop now ip' (bn_ips ?b') ?b' = banned_loop now ip' (Some a) ?b'"
      using banned_loop_quiet [of ?b' None "bn_ips b" xs m "Some a" ip' now] none h'(3) ok by auto
    also have "\<dots> = Some (Inl BadPointer)"
      using h'(2) by (simp add: banned_loop.simps [of now ip' "Some a"] get_container_def)
    finally show ?thesis
      by (simp add: IsIPv4Banned_def)
  qed
  ultimately show ?thesis
    by blast
qed

text \<open>Two masks with a ban each.\<close>

definition two_masks :: bans where
  "two_masks = (let t = (\<lambda>k. \<lparr>at_root = Node Null k (-1) 0 Null, at_items = 1, at_cmp = CompareIPv4, at_copy = False, at_null = (\<lambda>v. v = 0)\<rparr>) in
     \<lparr>bn_keys = None, bn_ips = Some 0,
       bn_store = [0 \<mapsto> \<lparr>ct_tree = t 7, ct_prev = None, ct_next = Some 1, ct_mask = 0xFF\<rparr>,
         1 \<mapsto> \<lparr>ct_tree = t 0x0309, ct_prev = Some 0, ct_next = None, ct_mask = 0xFFFF\<rparr>],
       bn_fresh = 2, bn_filterban = True\<rparr>)"

lemma two_masks_ok: "ips_ok two_masks ([0] @ 1 # [])"
  by (simp add: two_masks_def ips_ok_def container_ok_def tree_fine_def small_def subnet_masks_def mask_eq_exp_minus_1 upt_rec)

theorem unban_dangles_witness:
  "\<exists>b'. UnbanIPv4 0x0309 0xFFFF two_masks = Some (Inr (0, b')) \<and> IsIPv4Banned 0 0x0808 b' = Some (Inl BadPointer)"
  using unban_dangles [OF two_masks_ok, of _ "0x0309" "-1"]
  by (auto simp: two_masks_def small_def holds_def content_def cp_avltree_count_def)

text \<open>Six bans of single addresses, one after the other.\<close>

fun ban_all :: "u32 list \<Rightarrow> u32 \<Rightarrow> bans \<Rightarrow> (nat list \<times> bans) run" where
  "ban_all [] time b = Some (Inr ([], b))"
| "ban_all (ip # ips) time b =
     bindT (BanIPv4 ip (-1) time b) (\<lambda>(r, b). bindT (ban_all ips time b) (\<lambda>(rs, b). Some (Inr (r # rs, b))))"

definition one_mask :: "(u32, u32) avlnode \<Rightarrow> int \<Rightarrow> bans" where
  "one_mask n items = \<lparr>bn_keys = None, bn_ips = Some 0,
     bn_store = [0 \<mapsto> \<lparr>ct_tree = \<lparr>at_root = n, at_items = items, at_cmp = CompareIPv4, at_copy = False, at_null = (\<lambda>v. v = 0)\<rparr>,
       ct_prev = None, ct_next = None, ct_mask = -1\<rparr>], bn_fresh = 1, bn_filterban = True\<rparr>"

lemma all_ones_mask: "-1 \<in> set subnet_masks"
  by (simp add: subnet_masks_def image_iff) (rule bexI [of _ 32]; simp add: mask_eq_exp_minus_1)

lemma first_ban: "BanIPv4 ip (-1) (-1) (no_bans True) = Some (Inr (0, one_mask (Node Null ip (-1) 0 Null) 1))"
  using all_ones_mask
  by (simp add: BanIPv4_def no_bans_def find_mask.simps [of _ _ None] ban_in_tree_def cp_avltree_create_def cp_avltree_insert_def
      create_avlnode_def non_null_def link_container_def one_mask_def)

lemma next_ban:
  assumes "n \<noteq> Null"
  shows "BanIPv4 ip (-1) (-1) (one_mask n items) =
    bindT (Some (avl_insert \<lparr>at_root = n, at_items = items, at_cmp = CompareIPv4, at_copy = False, at_null = (\<lambda>v. v = 0)\<rparr> ip (-1) n))
      (\<lambda>(n', up, res, added). Some (Inr (if res = None \<or> res = Some 0 then 1 else 0, one_mask n' (items + (if added then 1 else 0)))))"
proof (cases "avl_insert \<lparr>at_root = n, at_items = items, at_cmp = CompareIPv4, at_copy = False, at_null = (\<lambda>v. v = 0)\<rparr> ip (-1) n")
  case (Inr r)
  then show ?thesis
    using assms all_ones_mask
    by (cases r) (auto simp: BanIPv4_def one_mask_def find_mask.simps [of _ _ "Some _"] get_container_def ban_in_tree_def
        cp_avltree_insert_def non_null_def split: option.splits)
next
  case (Inl e)
  then show ?thesis
    using assms all_ones_mask
    by (simp add: BanIPv4_def one_mask_def find_mask.simps [of _ _ "Some _"] get_container_def ban_in_tree_def cp_avltree_insert_def)
qed

lemma one_mask_free:
  "get_loop CompareIPv4 ip n = None \<Longrightarrow> IsIPv4Banned now ip (one_mask n items) = Some (Inr (False, one_mask n items))"
  by (simp add: IsIPv4Banned_def one_mask_def banned_loop.simps [of _ _ "Some _"] banned_loop.simps [of _ _ None]
      get_container_def cp_avltree_get_def non_null_def found_time_def)

lemma one_mask_forever:
  "get_loop CompareIPv4 ip n = Some (-1) \<Longrightarrow> IsIPv4Banned now ip (one_mask n items) = Some (Inr (True, one_mask n items))"
  by (simp add: IsIPv4Banned_def one_mask_def banned_loop.simps [of _ _ "Some _"] get_container_def cp_avltree_get_def non_null_def
      found_time_def)


text \<open>One line of the file of the addresses.\<close>

definition ban_line :: "string \<Rightarrow> string \<Rightarrow> string \<Rightarrow> u8 list" where
  "ban_line ip m time = concat (map (\<lambda>w. print_token (False, cstr w)) [ip, m, time])"

lemma read_line:
  assumes "\<not> tk_unget tk" "\<forall>w \<in> {ip, m, time}. printable tk (False, cstr w)"
    and "inet_aton (cstr ip) = Some ia" "inet_aton (cstr m) = Some im" "atoi (cstr time) = n" "0 \<le> n" "n < 2 ^ 31" "now \<le> of_int n"
  shows "\<exists>tk'. \<not> tk_unget tk' \<and> read_addresses now tk (ban_line ip m time) b =
    bindT (BanIPv4 (FlipBytes32 ia) (FlipBytes32 im) (of_int n) b) (\<lambda>(_, b). Some (Inr (tk', b)))"
proof -
  have p: "printable (tk\<lparr>tk_token := t\<rparr>) = printable tk" for t
    by (simp add: printable_def bare_def is_single_def fun_eq_iff)
  have "COM_Parse tk (Some (print_token (False, cstr ip) @ r)) = (tk\<lparr>tk_token := cstr ip\<rparr>, Some (32 # r))" for r
    using COM_Parse_print [of tk False "cstr ip" r] assms(1,2) by auto
  moreover have "COM_Parse (tk\<lparr>tk_token := t\<rparr>) (Some (32 # print_token (False, cstr m) @ r)) = (tk\<lparr>tk_token := cstr m\<rparr>, Some (32 # r))" for t r
    using COM_Parse_print [of "tk\<lparr>tk_token := t\<rparr>" False "cstr m" r] assms(1,2) p by (auto simp: COM_Parse_space)
  moreover have "COM_Parse (tk\<lparr>tk_token := t\<rparr>) (Some (32 # print_token (False, cstr time))) = (tk\<lparr>tk_token := cstr time\<rparr>, Some [32])" for t
    using COM_Parse_print [of "tk\<lparr>tk_token := t\<rparr>" False "cstr time" "[]"] assms(1,2) p by (auto simp: COM_Parse_space)
  moreover have "cstr ip \<noteq> []" "cstr m \<noteq> []" "cstr time \<noteq> []"
    using assms(2) by (auto simp: printable_def bare_def)
  moreover have "read_addresses now (tk\<lparr>tk_token := t\<rparr>) [32] b = Some (Inr (tk\<lparr>tk_token := []\<rparr>, b))" for t b
    using assms(1) by (subst read_addresses.simps) (simp add: COM_Parse_space, simp add: COM_Parse_def skip_blank.simps)
  moreover have "\<not> of_int n < now"
    using assms(8) by simp
  ultimately have "read_addresses now tk (ban_line ip m time) b =
    bindT (BanIPv4 (FlipBytes32 ia) (FlipBytes32 im) (of_int n) b) (\<lambda>(_, b). Some (Inr (tk\<lparr>tk_token := []\<rparr>, b)))"
    using assms(3-7) by (subst read_addresses.simps) (simp add: ban_line_def int32_def Let_def split_def)
  then show ?thesis
    using assms(1) by (intro exI [of _ "tk\<lparr>tk_token := []\<rparr>"]) simp
qed

lemma word_names:
  "\<not> tk_unget tk \<Longrightarrow> w \<in> {''10.0.0.0'', ''255.255.255.0'', ''1.2.3.4'', ''255.255.255.255'', ''2000000000''} \<Longrightarrow> printable tk (False, cstr w)"
  by (auto simp: printable_def bare_def cstr_def cchar_def isgraph_c_def is_single_def)

lemma address_numbers:
  "inet_aton (cstr ''10.0.0.0'') = Some 0x0000000A" "inet_aton (cstr ''255.255.255.0'') = Some 0x00FFFFFF"
  "inet_aton (cstr ''1.2.3.4'') = Some 0x04030201" "inet_aton (cstr ''255.255.255.255'') = Some 0xFFFFFFFF"
  "atoi (cstr ''2000000000'') = 2000000000"
  by (simp_all add: inet_aton_def aton_parts.simps number_base_def at0_def isdigit_c_def cstr_def cchar_def FlipBytes32_def
      atoi_def is_space_def digits.simps)



end
