(* ===== verification/Spec2Isabelle.thy ===== *)
theory Spec2Isabelle
  imports MsgBits Crc_Table Md5 Tokens Zone FileFragments Link Malformed Challenges Commands Bans
begin

text \<open>
  A verification library for the core of OSHLDS, the reimplementation in C of the Half-Life dedicated
  server (directory \<^verbatim>\<open>OSHLDS\<close> of the repository). The target is the 32-bit little-endian machine
  the server is built for.

  \<^bold>\<open>The program.\<close> The server exchanges datagrams with its clients. A message is written field by field
  into a \<^verbatim>\<open>sizebuf_t\<close> (\<^verbatim>\<open>sizebuf.c\<close>, \<^verbatim>\<open>messages.c\<close>), put on a network channel that numbers, acknowledges and
  scrambles the packets and cuts long messages into fragments (\<^verbatim>\<open>NET.c\<close>, \<^verbatim>\<open>common.c\<close>), and sent to an address
  or through the loopback rings (\<^verbatim>\<open>NET.c\<close>). Checksums (\<^verbatim>\<open>crc.c\<close>) identify files and players, info strings
  (\<^verbatim>\<open>info.c\<close>) carry the settings of a client, the parser of \<^verbatim>\<open>common.c\<close> reads scripts and the command line, and
  small blocks of memory come from the zone allocator (\<^verbatim>\<open>HUNK.c\<close>).

  \<^bold>\<open>Theories.\<close>
  \<^item> \<open>Prelude\<close>: machine types, the result type \<open>outcome\<close> (\<open>Inl\<close> of a fault or \<open>Inr\<close> of a value), byte buffers
    with checked block reads and writes, encodings, C strings.
  \<^item> \<open>Sizebuf\<close> (\<^verbatim>\<open>sizebuf.c\<close>): the message buffer; refinement of an abstract bounded buffer; the locale \<open>appender\<close>.
  \<^item> \<open>Messages\<close>, \<open>MsgBits\<close> (\<^verbatim>\<open>messages.c\<close>): byte and bit readers and writers; memory safety of every sequence of
    reads, round trips, the cases in which a packet is corrupted.
  \<^item> \<open>Munge\<close> (\<^verbatim>\<open>common.c\<close>): the packet scramblers, as instances of the locale \<open>packet_cipher\<close>.
  \<^item> \<open>Crc32\<close>, \<open>Crc_Table\<close>, \<open>Md5\<close> (\<^verbatim>\<open>crc.c\<close>): the checksums against their reference definitions.
  \<^item> \<open>Tokens\<close> (\<^verbatim>\<open>common.c\<close>), \<open>InfoString\<close> (\<^verbatim>\<open>info.c\<close>): parsing, the command line, info strings as finite maps.
  \<^item> \<open>Links\<close> (\<^verbatim>\<open>links.c\<close>), \<open>Zone\<close> (\<^verbatim>\<open>HUNK.c\<close>): doubly linked rings over an explicit store, and the zone
    allocator with its invariant and progress.
  \<^item> \<open>NetAddr\<close>, \<open>Datagrams\<close> (\<^verbatim>\<open>NET.c\<close>): addresses, the loopback rings as instances of the locale
    \<open>lossy_queues\<close>, splitting and reassembly of long datagrams.
  \<^item> \<open>Fragments\<close>, \<open>Netchan\<close> (\<^verbatim>\<open>NET.c\<close>): the state of a channel, fragment lists, flow control, sending and receiving.
  \<^item> \<open>Reassembly\<close>, \<open>FileFragments\<close>: messages and files in fragments, end to end.
  \<^item> \<open>Reliable\<close>: the protocol of the reliable stream, abstractly: endpoints with sequence numbers and an alternating
    bit, and a network that loses, repeats and reorders packets; its invariant and its progress.
  \<^item> \<open>Wire\<close>, \<open>Link\<close>: \<^verbatim>\<open>Netchan_Transmit\<close> and \<^verbatim>\<open>Netchan_Process\<close> refine the abstract endpoint, and two channels that run
    them refine the abstract system, so that the reliable stream of the code is in order, complete and free of faults.
  \<^item> \<open>RandomNumbers\<close> (\<^verbatim>\<open>random.c\<close>), \<open>Challenges\<close> (\<^verbatim>\<open>SV_chals.c\<close>, \<^verbatim>\<open>SV_rcon.c\<close>): the random numbers, the challenges drawn from
    them that tie a client to its address, and the remote console they protect.
  \<^item> \<open>CmdBuf\<close> (\<^verbatim>\<open>cmd.c\<close>): the text of pending console commands and the loop that runs it; the locale \<open>command_runner\<close>.
  \<^item> \<open>Avl\<close> (\<^verbatim>\<open>libcprops-0.1.8/avl.c\<close>): the balanced trees that hold the variables and the bans; in the locale \<open>ordered_keys\<close>, for a
    comparison that orders the keys, they are finite maps, interpreted for names, CD keys and addresses below \<open>2 ^ 31\<close>.
  \<^item> \<open>Cvars\<close> (\<^verbatim>\<open>cvar.c\<close>, parts of \<^verbatim>\<open>SV_mcast.c\<close> and \<^verbatim>\<open>SV_pktcl.c\<close>): the console variables as an ordered list, what setting one
    announces to the clients and in the info strings, and the rules query.
  \<^item> \<open>Commands\<close> (\<^verbatim>\<open>cmd.c\<close>): the list of the commands, the words of a line, aliases, scripts, and the execution of a line; the
    locale \<open>console_env\<close> is what it needs of its environment, a \<open>sublocale\<close> of \<open>command_runner\<close>, so that the loop of \<open>CmdBuf\<close>
    runs it safely.
  \<^item> \<open>Bans\<close> (\<^verbatim>\<open>banlist.c\<close>, \<^verbatim>\<open>inetaton.c\<close>): the bans of CD keys and addresses and their files; which bans are enforced, and
    the cases in which one is lost or the list of the masks is corrupted.
  \<^item> \<open>Malformed\<close>: packets that pass the validation of the fragment headers and stop the receiver.

  \<^bold>\<open>Conventions.\<close> An \<^verbatim>\<open>int\<close> is a 32-bit word read with \<open>sint\<close> where a comparison is signed; a C string is the list
  of its bytes before the terminator; an array is a list whose length is its capacity, so that an access
  outside it is \<open>Inl OutOfBounds\<close>; \<open>Inl SysError\<close> is the end of the process. Static variables are records passed
  from call to call. What the system answers (sockets, files, the clock, the success of \<^verbatim>\<open>malloc\<close>) is a parameter.

  \<^bold>\<open>Bounds.\<close> The loops of \<open>InfoString\<close> that remove keys take a fuel of the length of the string, which is enough
  because each round shortens it (proved there). The scans of \<open>Zone\<close> are partial functions, shown to return on
  every zone reached by allocations and releases. \<open>random_loop\<close> and \<open>exec_loop\<close> are partial functions too, since the first
  depends on chance and an alias may run itself for ever: what they need to end is a premise of the theorems that say so.
  The walks of \<open>Bans\<close> over the list of the masks are partial functions because a corrupted list may be a ring; on a well-formed
  one bans and queries are shown to return.
  All other loops are total functions. The theories \<open>Wire\<close> and \<open>Link\<close>
  consider channels without fragments, messages up to 1200 bytes with up to 192 bytes of unreliable data (what one
  datagram carries), and sequence numbers below \<open>2 ^ 30\<close>, where the flag bits begin.

  \<^bold>\<open>Not modelled.\<close> The floating-point readers and writers of \<^verbatim>\<open>messages.c\<close>, the hunk and the cache of \<^verbatim>\<open>HUNK.c\<close>, in
  \<^verbatim>\<open>cvar.c\<close> the setting of a variable from a number (\<^verbatim>\<open>%g\<close>) and the removal of the variables of a library, in
  \<^verbatim>\<open>libcprops\<close> locks, pools and several values for a key, the server's connection handling and physics, the loaders of maps and models, the
  interface to game libraries, and the socket setup. The remaining directories of the repository hold client
  libraries in C++ and vendored code.
\<close>

end
